(* ===== verification/Patmos_Prelude.thy ===== *)
theory Patmos_Prelude
  imports Main "HOL-Library.Word" "HOL-Library.Monad_Syntax"
begin

text \<open>
  The vocabulary the component theories share. The C sources run on a 32-bit big-endian
  core, so the integer types are words of the width the source declares: \<open>unsigned char\<close>
  is \<open>u8\<close>, \<open>unsigned short\<close> is \<open>u16\<close>, \<open>unsigned int\<close> and pointers are \<open>u32\<close>,
  \<open>unsigned long long\<close> is \<open>u64\<close>. An assignment to a narrower type is a \<open>ucast\<close>.
  A \<open>for\<close> loop that counts from 0 is a \<open>fold\<close> over an index range, in the source's order.

  The lemma collections are \<open>bits\<close> (bit-by-bit characterisations, used with
  \<open>bit_eqI\<close>) and the per-component collections the other theories open.
\<close>

unbundle bit_operations_syntax

type_synonym u8 = "8 word"
type_synonym u16 = "16 word"
type_synonym u32 = "32 word"
type_synonym u64 = "64 word"

named_theorems bits

lemma upt_small: "[0..<4] = [0, 1, 2, 3]" "[0..<6] = [0, 1, 2, 3, 4, 5]"
  by (simp_all add: upt_rec)

section \<open>Bits of words\<close>

lemma bit_lt_len: "bit (w :: 'a::len word) n \<Longrightarrow> n < LENGTH('a)"
  by (simp add: bit_imp_le_length)

lemmas [bits] = bit_and_iff bit_or_iff bit_xor_iff bit_not_iff bit_push_bit_iff
  bit_drop_bit_eq bit_take_bit_iff bit_ucast_iff

lemma bit_mask_word: "bit (mask k :: 'a::len word) n \<longleftrightarrow> n < k \<and> n < LENGTH('a)"
  by (auto simp: bit_mask_iff)

lemma u32_masks:
  "(3 :: u32) = mask 2" "(0xFF :: u32) = mask 8" "(0xFFFF :: u32) = mask 16"
  by (simp_all add: mask_eq_exp_minus_1)

lemma bit_int_masks [bits]:
  "bit (3 :: int) n \<longleftrightarrow> n < 2" "bit (0xFF :: int) n \<longleftrightarrow> n < 8"
  "bit (0xFFFF :: int) n \<longleftrightarrow> n < 16"
proof -
  have "(3 :: int) = mask 2" "(0xFF :: int) = mask 8" "(0xFFFF :: int) = mask 16"
    by (simp_all add: mask_eq_exp_minus_1)
  then show "bit (3 :: int) n \<longleftrightarrow> n < 2" "bit (0xFF :: int) n \<longleftrightarrow> n < 8"
    "bit (0xFFFF :: int) n \<longleftrightarrow> n < 16"
    by (simp_all only: bit_mask_iff) simp_all
qed

lemma and_255 [simp]: "(w :: u32) AND 0xFF = take_bit 8 w"
  unfolding u32_masks by (simp add: take_bit_eq_mask)

lemma and_3_cases: "(a :: u32) AND 3 = 0 \<or> a AND 3 = 1 \<or> a AND 3 = 2 \<or> a AND 3 = 3"
proof -
  have "unat (a AND 3) < 4"
    unfolding u32_masks take_bit_eq_mask [symmetric]
    using take_bit_nat_less_exp [of 2 "unat a"] by (simp add: unsigned_take_bit_eq)
  then have "unat (a AND 3) \<in> {0, 1, 2, 3}" by auto
  then show ?thesis by (auto simp: word_unat_eq_iff)
qed

lemma uint_and_3: "uint (a AND 3) = uint a mod 4" for a :: u32
  unfolding u32_masks take_bit_eq_mask [symmetric]
  by (simp only: unsigned_take_bit_eq) (simp add: take_bit_eq_mod)

lemma add_and_3: "a AND 3 = 0 \<Longrightarrow> (a + l) AND 3 = l AND 3" for a l :: u32
proof -
  assume "a AND 3 = 0"
  then have a: "uint a mod 4 = 0" by (simp flip: uint_and_3)
  have "uint (a + l) mod 4 = (uint a mod 4 + uint l) mod 4"
    by (simp add: uint_word_ariths mod_mod_cancel mod_add_left_eq)
  with a show ?thesis by (simp add: word_uint_eq_iff uint_and_3)
qed

lemma aligned_add: "(a :: u32) AND 3 = 0 \<Longrightarrow> b AND 3 = 0 \<Longrightarrow> (a + b) AND 3 = 0"
  by (simp only: add_and_3)

lemma take_bit_8_le: "unat (take_bit 8 (w :: u32)) < 256"
  using take_bit_nat_less_exp [of 8 "unat w"] by (simp add: unsigned_take_bit_eq)

lemma unat_u32_lt: "unat (c :: u32) < 2 ^ 32"
  using unsigned_less [where ?'a = nat and w = c] by simp

lemma unat_minus_1_u32 [simp]: "unat (- 1 :: u32) = 0xFFFFFFFF"
  by (simp only: unsigned_minus_1_eq_mask) (simp add: mask_eq_exp_minus_1)

lemma unat_u16_lt: "unat (c :: u16) < 65536"
  using unsigned_less [where ?'a = nat and w = c] by simp

lemma unat_ucast_u16 [simp]: "unat (ucast (c :: u16) :: u32) = unat c"
  using unat_u16_lt [of c] by (simp only: unsigned_ucast_eq) (simp add: take_bit_nat_eq_self)

text \<open>Constant offsets of an address are kept on the right.\<close>

lemma addr_offset [simp]:
  "(a :: u32) + numeral v + numeral w = a + numeral (v + w)"
  "(a :: u32) + numeral v + 1 = a + numeral (v + num.One)"
  "(a :: u32) + 1 + numeral v = a + numeral (num.One + v)"
  "(a :: u32) + 1 + 1 = a + 2"
  by (simp_all only: add.assoc numeral_plus_numeral numeral_plus_one one_plus_numeral one_add_one)

lemma offsets_ne:
  "a + 1 \<noteq> a" "a + 2 \<noteq> a" "a + 3 \<noteq> a" "a + 2 \<noteq> a + 1" "a + 3 \<noteq> a + 1" "a + 3 \<noteq> a + 2"
  "a \<noteq> a + 1" "a \<noteq> a + 2" "a \<noteq> a + 3" "a + 1 \<noteq> a + 2" "a + 1 \<noteq> a + 3" "a + 2 \<noteq> a + 3"
  for a :: u32
  by simp_all

lemma offset_eq_iff:
  fixes a b :: u32
  assumes "Suc n \<le> 2 ^ 32"
  shows "b = a + of_nat n \<longleftrightarrow> unat (b - a) = n"
proof -
  have "b = a + of_nat n \<longleftrightarrow> b - a = of_nat n"
    by (simp only: diff_eq_eq add.commute)
  also have "\<dots> \<longleftrightarrow> unat (b - a) = n"
    using assms by (simp only: word_unat_eq_iff unat_of_nat) (simp add: take_bit_nat_eq_self)
  finally show ?thesis .
qed

lemma behind_offset:
  fixes src dst :: u32
  assumes "Suc n \<le> unat (dst - src)"
  shows "n \<le> unat (src + of_nat n - dst)"
proof -
  define d where "d = dst - src"
  have d: "Suc n \<le> unat d" using assms by (simp only: d_def)
  then have n: "unat (of_nat n :: u32) = n"
    using unat_u32_lt [of d] by (simp add: unat_of_nat take_bit_nat_eq_self)
  have "src + of_nat n - dst = of_nat n - d" by (simp add: d_def)
  moreover have "unat (of_nat n - d) = 2 ^ 32 + n - unat d"
    using d n unat_u32_lt [of d] by (simp add: unat_sub_if' word_le_nat_alt)
  ultimately have "unat (src + of_nat n - dst) = 2 ^ 32 + n - unat d" by (simp only:)
  then show ?thesis using unat_u32_lt [of d] by linarith
qed

text \<open>The four bytes of a word, most significant first, and the word made of them.\<close>

lemma bytes_of_word:
  "push_bit 24 (take_bit 8 (drop_bit 24 w)) OR push_bit 16 (take_bit 8 (drop_bit 16 w))
     OR push_bit 8 (take_bit 8 (drop_bit 8 w)) OR take_bit 8 w = (w :: u32)"
proof (rule bit_word_eqI)
  fix n assume "n < LENGTH(32)"
  then consider "n < 8" | "8 \<le> n" "n < 16" | "16 \<le> n" "n < 24" | "24 \<le> n" "n < 32"
    by fastforce
  then show "bit (push_bit 24 (take_bit 8 (drop_bit 24 w)) OR push_bit 16 (take_bit 8 (drop_bit 16 w))
     OR push_bit 8 (take_bit 8 (drop_bit 8 w)) OR take_bit 8 w) n = bit w n"
    by cases (auto simp: bits)
qed

definition get_byte :: "nat \<Rightarrow> u32 \<Rightarrow> u32" where
  "get_byte k x = take_bit 8 (drop_bit k x)"

definition put_byte :: "nat \<Rightarrow> u32 \<Rightarrow> u32 \<Rightarrow> u32" where
  "put_byte k v x = (x AND NOT (push_bit k 0xFF)) OR push_bit k (take_bit 8 v)"

lemma bit_get_byte [bits]: "bit (get_byte k x) n \<longleftrightarrow> n < 8 \<and> bit x (k + n)"
  by (auto simp: get_byte_def bits)

lemma bit_put_byte [bits]:
  "bit (put_byte k v x) n \<longleftrightarrow> n < 32 \<and> (if k \<le> n \<and> n < k + 8 then bit v (n - k) else bit x n)"
  by (auto simp: put_byte_def bits dest: bit_lt_len)

lemma get_put_byte_same: "k \<le> 24 \<Longrightarrow> get_byte k (put_byte k v x) = take_bit 8 v"
  by (rule bit_word_eqI) (auto simp: bits)

lemma get_put_byte_other:
  "l + 8 \<le> k \<or> k + 8 \<le> l \<Longrightarrow> get_byte l (put_byte k v x) = get_byte l x"
  by (rule bit_word_eqI) (auto simp: bits dest: bit_lt_len)

lemma put_bytes:
  "put_byte 0 w (put_byte 8 (drop_bit 8 w) (put_byte 16 (drop_bit 16 w) (put_byte 24 (drop_bit 24 w) x))) = w"
  by (rule bit_word_eqI) (auto simp: bits)

text \<open>An address with its two low bits cleared.\<close>

definition walign :: "u32 \<Rightarrow> u32" where
  "walign a = push_bit 2 (drop_bit 2 a)"

lemma walign_id: assumes "a AND 3 = 0" shows "walign a = a"
proof (rule bit_word_eqI)
  fix n assume n: "n < LENGTH(32)"
  have "\<not> bit (a AND 3) n" by (simp add: assms)
  then have low: "n < 2 \<Longrightarrow> \<not> bit a n" using n by (auto simp: bits)
  have "2 \<le> n \<Longrightarrow> 2 + (n - 2) = n" by simp
  then show "bit (walign a) n = bit a n" using low n
    by (cases "n < 2") (simp_all add: walign_def bit_push_bit_iff bit_drop_bit_eq)
qed

lemma walign_aligned: "walign l AND 3 = 0"
  by (rule bit_word_eqI) (auto simp: walign_def bits)

lemma walign_split: "walign l + (l AND 3) = l"
proof -
  have "walign l + (l AND 3) = walign l OR (l AND 3)"
    by (rule disjunctive_add) (auto simp: walign_def bits)
  also have "\<dots> = l"
  proof (rule bit_word_eqI)
    fix n assume n: "n < LENGTH(32)"
    have "2 \<le> n \<Longrightarrow> 2 + (n - 2) = n" by simp
    then show "bit (walign l OR (l AND 3)) n = bit l n"
      using n by (cases "n < 2") (simp_all add: walign_def bit_push_bit_iff bit_drop_bit_eq bit_or_iff bit_and_iff bits)
  qed
  finally show ?thesis .
qed

lemma take_bit_ucast_u8 [simp]: "take_bit 8 (ucast (x :: u8) :: u32) = ucast x"
  by (rule bit_word_eqI) (auto simp: bits dest: bit_lt_len)

lemma unat_walign: "unat (walign a) = unat a div 4 * 4"
proof -
  have lt: "unat a < 2 ^ 32" by (rule unat_u32_lt)
  have "unat a div 4 * 4 \<le> unat a" by simp
  with lt have "unat a div 4 * 4 < 2 ^ 32" by linarith
  then show ?thesis
    using lt by (simp only: walign_def unsigned_push_bit_eq unsigned_drop_bit_eq)
      (simp add: take_bit_nat_eq_self drop_bit_eq_div push_bit_eq_mult)
qed

lemma unat_walign_le: "unat (walign a) \<le> unat a"
  by (simp add: unat_walign)

lemma and_not_3: "a AND NOT 3 = walign a"
proof (rule bit_word_eqI)
  fix n assume n: "n < LENGTH(32)"
  have "2 \<le> n \<Longrightarrow> 2 + (n - 2) = n" by simp
  then show "bit (a AND NOT 3) n = bit (walign a) n"
    unfolding u32_masks using n
    by (cases "n < 2") (simp_all add: walign_def bit_push_bit_iff bit_drop_bit_eq bit_and_iff bit_not_iff bit_mask_word)
qed

lemma of_nat_u32: "n < 2 ^ 32 \<Longrightarrow> unat (of_nat n :: u32) = n"
  by (simp only: unat_of_nat) (simp add: take_bit_nat_eq_self)

lemma ucast_u8_u32 [simp]: "ucast (ucast (x :: u8) :: u32) = x"
  by (rule bit_word_eqI) (simp add: bits)

lemma walign_diff: "walign l = l - (l AND 3)"
  using walign_split [of l] by (simp only: eq_diff_eq)

lemma walign_offset: "a AND 3 = 0 \<Longrightarrow> walign (a + l) = a + walign l"
  by (simp only: walign_diff add_and_3) (simp only: add_diff_eq)

section \<open>Sequences of operations and simulation\<close>

text \<open>
  A component is run by a sequence of operations, each of which changes the state, may fail and
  returns a list of observed values. A simulation carries every run of an abstract component to
  a run of the concrete one, with related observations.
\<close>

fun run_ops :: "('o \<Rightarrow> 's \<Rightarrow> ('v list \<times> 's) option) \<Rightarrow> 'o list \<Rightarrow> 's \<Rightarrow> ('v list \<times> 's) option" where
  "run_ops step [] s = Some ([], s)"
| "run_ops step (x # xs) s = do { (vs, s) \<leftarrow> step x s; (ws, s) \<leftarrow> run_ops step xs s; Some (vs @ ws, s) }"

locale simulation =
  fixes R :: "'a \<Rightarrow> 'c \<Rightarrow> bool"
    and astep :: "'o \<Rightarrow> 'a \<Rightarrow> ('v list \<times> 'a) option"
    and cstep :: "'o \<Rightarrow> 'c \<Rightarrow> ('w list \<times> 'c) option"
    and P :: "'v \<Rightarrow> 'w \<Rightarrow> bool"
  assumes sim_step: "R a c \<Longrightarrow> astep x a = Some (vs, a') \<Longrightarrow>
    \<exists>ws c'. cstep x c = Some (ws, c') \<and> R a' c' \<and> list_all2 P vs ws"
begin

lemma run:
  assumes "R a c" "run_ops astep xs a = Some (vs, a')"
  shows "\<exists>ws c'. run_ops cstep xs c = Some (ws, c') \<and> R a' c' \<and> list_all2 P vs ws"
  using assms
proof (induction xs arbitrary: a c vs)
  case Nil
  then show ?case by simp
next
  case (Cons x xs)
  then obtain a1 v1 v2 where "astep x a = Some (v1, a1)" "run_ops astep xs a1 = Some (v2, a')" "vs = v1 @ v2"
    by (auto split: bind_splits)
  moreover from sim_step [OF Cons.prems(1) this(1)] obtain ws c1
    where "cstep x c = Some (ws, c1)" "R a1 c1" "list_all2 P v1 ws" by blast
  ultimately show ?case
    using Cons.IH [of a1 c1 v2] by (auto intro: list_all2_appendI)
qed

end

end
