(* ===== verification/Eth_IO.thy ===== *)
theory Eth_IO
  imports Patmos_Prelude "HOL-Library.Monad_Syntax"
begin

text \<open>
  \<open>c/ethlib/eth_patmos_io.c\<close>: access to the rx/tx packet buffer and to the registers of
  the Ethernet controller. Both are arrays of 32-bit words at a fixed base. The source
  forms the address \<open>BASE + (addr >> 2)\<close> on a pointer to \<open>unsigned\<close>, that is the byte
  address \<open>base + 4 * (addr >> 2)\<close> modulo \<open>2 ^ 32\<close>, which depends on bits 2 to 31 of
  \<open>addr\<close> only: a word index has 30 bits.
\<close>

type_synonym widx = "30 word"
type_synonym ethbuf = "widx \<Rightarrow> u32"

section \<open>The first controller\<close>

definition buff_idx :: "u32 \<Rightarrow> widx" where
  "buff_idx addr = ucast (drop_bit 2 addr)"

definition mem_iowr :: "ethbuf \<Rightarrow> u32 \<Rightarrow> u32 \<Rightarrow> ethbuf" where
  "mem_iowr m addr data = m(buff_idx addr := data)"

definition mem_iowr_byte :: "ethbuf \<Rightarrow> u32 \<Rightarrow> u32 \<Rightarrow> ethbuf" where
  "mem_iowr_byte m addr data =
     (let previous_data = m (buff_idx addr);
          shift_factor = 24 - 8 * (addr AND 3);
          msk = NOT (push_bit (unat shift_factor) 0xFF);
          data = push_bit (unat shift_factor) (0xFF AND data);
          data = (previous_data AND msk) + data
      in m(buff_idx addr := data))"

text \<open>\<open>mem_iord\<close> takes a signed address, so its shift is arithmetic.\<close>

definition mem_iord :: "ethbuf \<Rightarrow> u32 \<Rightarrow> u32" where
  "mem_iord m addr = m (ucast (signed_drop_bit 2 addr))"

definition mem_iord_byte :: "ethbuf \<Rightarrow> u32 \<Rightarrow> u32" where
  "mem_iord_byte m addr =
     (let full_data = m (buff_idx addr);
          shift_factor = 24 - 8 * (addr AND 3);
          msk = push_bit (unat shift_factor) 0xFF
      in drop_bit (unat shift_factor) (full_data AND msk))"

section \<open>Lanes\<close>

text \<open>The bit position of the byte at an address within its word (big endian).\<close>

definition lane :: "u32 \<Rightarrow> nat" where
  "lane addr = unat (24 - 8 * (addr AND 3))"

lemma lane_cases: "lane a = 0 \<or> lane a = 8 \<or> lane a = 16 \<or> lane a = 24"
  using and_3_cases [of a] by (auto simp: lane_def)

lemma lane_eq_iff: "lane a = lane b \<longleftrightarrow> a AND 3 = b AND 3"
  using and_3_cases [of a] and_3_cases [of b] by (auto simp: lane_def)

lemma addr_eq_iff: "a = b \<longleftrightarrow> buff_idx a = buff_idx b \<and> lane a = lane b"
proof
  assume *: "buff_idx a = buff_idx b \<and> lane a = lane b"
  then have low: "a AND 3 = b AND 3" and high: "buff_idx a = buff_idx b"
    by (simp_all add: lane_eq_iff)
  show "a = b"
  proof (rule bit_word_eqI)
    fix n assume n: "n < LENGTH(32)"
    show "bit a n = bit b n"
    proof (cases "n < 2")
      case True
      from low have "bit (a AND 3) n = bit (b AND 3) n" by simp
      with True show ?thesis by (simp add: bits)
    next
      case False
      then obtain k where k: "n = k + 2" by (metis add.commute le_Suc_ex not_less)
      from high have "bit (buff_idx a) k = bit (buff_idx b) k" by simp
      with k n show ?thesis by (simp add: buff_idx_def bits)
    qed
  qed
qed simp

lemma mem_iord_byte_alt: "mem_iord_byte m a = get_byte (lane a) (m (buff_idx a))"
  unfolding get_byte_def mem_iord_byte_def Let_def lane_def [symmetric]
  by (rule bit_word_eqI) (auto simp: bits dest: bit_lt_len)

lemma mem_iowr_byte_alt:
  "mem_iowr_byte m a v = m(buff_idx a := put_byte (lane a) v (m (buff_idx a)))"
proof -
  have "(x AND NOT (push_bit k 0xFF)) + push_bit k (take_bit 8 v)
      = (x AND NOT (push_bit k 0xFF)) OR push_bit k (take_bit 8 v)" for x :: u32 and k
    by (rule disjunctive_add) (auto simp: bits)
  then show ?thesis
    unfolding put_byte_def mem_iowr_byte_def Let_def lane_def [symmetric] by (simp add: and.commute)
qed

section \<open>The byte-memory interface\<close>

text \<open>
  The protocol layers see the packet buffer as a byte memory: what a byte read returns
  after a byte write, and how the word accesses are made of byte accesses (big endian, the
  two low address bits ignored).
\<close>

locale byte_memory =
  fixes rd :: "'m \<Rightarrow> u32 \<Rightarrow> u32"
    and wr :: "'m \<Rightarrow> u32 \<Rightarrow> u32 \<Rightarrow> 'm"
  assumes rd_wr: "rd (wr m a v) b = (if b = a then take_bit 8 v else rd m b)"
    and rd_byte: "take_bit 8 (rd m a) = rd m a"
begin

lemma rd_wr_loop:
  assumes "n \<le> 2 ^ 32"
  shows "rd (fold (\<lambda>i m. wr m (a + of_nat i) (f i)) [0..<n] m) b
    = (if unat (b - a) < n then take_bit 8 (f (unat (b - a))) else rd m b)"
  using assms
proof (induction n)
  case 0
  then show ?case by simp
next
  case (Suc n)
  have eq: "b = a + of_nat n \<longleftrightarrow> unat (b - a) = n"
    using Suc.prems by (rule offset_eq_iff)
  show ?case
    using Suc by (simp add: rd_wr eq less_Suc_eq)
qed

text \<open>
  A byte-wise copy in ascending order. It is right unless a destination byte is a source byte
  that is still to be read.
\<close>

lemma copy_loop:
  assumes "n \<le> unat (dst - src)"
  shows "rd (fold (\<lambda>i m. wr m (dst + of_nat i) (rd m (src + of_nat i))) [0..<n] m) b
    = (if unat (b - dst) < n then rd m (src + (b - dst)) else rd m b)"
  using assms
proof (induction n arbitrary: b)
  case 0
  then show ?case by simp
next
  case (Suc n)
  have n: "Suc n \<le> 2 ^ 32" using Suc.prems unat_u32_lt [of "dst - src"] by linarith
  have "unat (src + of_nat n - dst) \<ge> n"
    using Suc.prems by (rule behind_offset)
  with Suc have src: "rd (fold (\<lambda>i m. wr m (dst + of_nat i) (rd m (src + of_nat i))) [0..<n] m) (src + of_nat n)
      = rd m (src + of_nat n)"
    by simp
  have eq: "b = dst + of_nat n \<longleftrightarrow> unat (b - dst) = n" using n by (rule offset_eq_iff)
  show ?case
  proof (cases "b = dst + of_nat n")
    case True
    then have "b - dst = of_nat n" by simp
    with True src eq show ?thesis by (simp add: rd_wr rd_byte)
  next
    case False
    with Suc eq show ?thesis by (simp add: rd_wr less_Suc_eq)
  qed
qed

text \<open>A loop that moves \<open>n\<close> bytes from \<open>src\<close> to \<open>dst\<close> and fills \<open>src\<close> with other values.\<close>

lemma swap_loop:
  assumes "n \<le> unat (dst - src)" "n \<le> unat (src - dst)"
  shows "rd (fold (\<lambda>i m. wr (wr m (dst + of_nat i) (rd m (src + of_nat i))) (src + of_nat i) (f i)) [0..<n] m) b
    = (if unat (b - src) < n then take_bit 8 (f (unat (b - src)))
       else if unat (b - dst) < n then rd m (src + (b - dst)) else rd m b)"
  using assms
proof (induction n arbitrary: b)
  case 0
  then show ?case by simp
next
  case (Suc n)
  let ?m = "fold (\<lambda>i m. wr (wr m (dst + of_nat i) (rd m (src + of_nat i))) (src + of_nat i) (f i)) [0..<n] m"
  have n: "Suc n \<le> 2 ^ 32" using Suc.prems unat_u32_lt [of "dst - src"] by linarith
  then have self: "unat (of_nat n :: u32) = n" by (simp add: unat_of_nat take_bit_nat_eq_self)
  have "n \<le> unat (src + of_nat n - dst)" using Suc.prems(1) by (rule behind_offset)
  with Suc self have src: "rd ?m (src + of_nat n) = rd m (src + of_nat n)" by simp
  have eqs: "b = dst + of_nat n \<longleftrightarrow> unat (b - dst) = n" "b = src + of_nat n \<longleftrightarrow> unat (b - src) = n"
    using n by (simp_all only: offset_eq_iff)
  have ne: "dst \<noteq> src" using Suc.prems by auto
  have IH: "rd ?m b = (if unat (b - src) < n then take_bit 8 (f (unat (b - src)))
       else if unat (b - dst) < n then rd m (src + (b - dst)) else rd m b)"
    using Suc by simp
  consider "b = src + of_nat n" | "b = dst + of_nat n" "b \<noteq> src + of_nat n"
    | "b \<noteq> src + of_nat n" "b \<noteq> dst + of_nat n" by blast
  then show ?case
  proof cases
    case 1
    then show ?thesis using eqs by (simp add: rd_wr)
  next
    case 2
    have "n \<le> unat (dst + of_nat n - src)" using Suc.prems(2) by (rule behind_offset)
    with 2 eqs have "\<not> unat (b - src) < Suc n" by auto
    moreover from 2 have "src + (b - dst) = src + of_nat n" by simp
    ultimately show ?thesis using 2 eqs ne src by (simp add: rd_wr rd_byte)
  next
    case 3
    with IH eqs show ?thesis by (simp add: rd_wr less_Suc_eq)
  qed
qed

end

locale byte_word_memory = byte_memory rd wr
  for rd :: "'m \<Rightarrow> u32 \<Rightarrow> u32" and wr :: "'m \<Rightarrow> u32 \<Rightarrow> u32 \<Rightarrow> 'm" +
  fixes rdw :: "'m \<Rightarrow> u32 \<Rightarrow> u32"
    and wrw :: "'m \<Rightarrow> u32 \<Rightarrow> u32 \<Rightarrow> 'm"
  assumes wrw_aligned: "wrw m a w = wrw m (walign a) w"
    and rdw_aligned: "rdw m a = rdw m (walign a)"
    and wrw_bytes: "a AND 3 = 0 \<Longrightarrow> wrw m a w =
      wr (wr (wr (wr m a (drop_bit 24 w)) (a + 1) (drop_bit 16 w)) (a + 2) (drop_bit 8 w)) (a + 3) w"
    and rdw_bytes: "a AND 3 = 0 \<Longrightarrow> rdw m a =
      push_bit 24 (rd m a) OR push_bit 16 (rd m (a + 1)) OR push_bit 8 (rd m (a + 2)) OR rd m (a + 3)"
begin

lemma rdw_wrw: "a AND 3 = 0 \<Longrightarrow> rdw (wrw m a w) a = w"
  by (simp only: rdw_bytes wrw_bytes rd_wr offsets_ne if_True if_False refl bytes_of_word)

end

lemma mem_rd_wr:
  "mem_iord_byte (mem_iowr_byte m a v) b = (if b = a then take_bit 8 v else mem_iord_byte m b)"
proof (cases "buff_idx a = buff_idx b")
  case True
  show ?thesis
  proof (cases "lane a = lane b")
    case same: True
    with True have "a = b" by (simp add: addr_eq_iff)
    moreover have "lane a \<le> 24" using lane_cases [of a] by auto
    ultimately show ?thesis
      by (simp add: mem_iord_byte_alt mem_iowr_byte_alt get_put_byte_same)
  next
    case False
    then have "a \<noteq> b" by auto
    moreover have "lane b + 8 \<le> lane a \<or> lane a + 8 \<le> lane b"
      using lane_cases [of a] lane_cases [of b] False by auto
    ultimately show ?thesis using True
      by (simp add: mem_iord_byte_alt mem_iowr_byte_alt get_put_byte_other)
  qed
next
  case False
  then have "a \<noteq> b" by auto
  with False show ?thesis by (simp add: mem_iord_byte_alt mem_iowr_byte_alt)
qed

lemma mem_rd_byte: "take_bit 8 (mem_iord_byte m a) = mem_iord_byte m a"
  by (simp add: mem_iord_byte_alt get_byte_def)

text \<open>\<open>mem_iord\<close>'s signed shift reaches the same word as the unsigned one of the other three.\<close>

lemma mem_iord_alt: "mem_iord m a = m (buff_idx a)"
proof -
  have "(ucast (signed_drop_bit 2 a) :: widx) = buff_idx a"
    by (rule bit_word_eqI)
      (auto simp: buff_idx_def bit_ucast_iff bit_signed_drop_bit_iff bit_drop_bit_eq)
  then show ?thesis by (simp add: mem_iord_def)
qed

lemma buff_idx_align: "buff_idx (walign a) = buff_idx a"
  by (rule bit_word_eqI) (auto simp: buff_idx_def walign_def bits)

lemma aligned_lanes:
  assumes "a AND 3 = 0"
  shows "lane a = 24" "lane (a + 1) = 16" "lane (a + 2) = 8" "lane (a + 3) = 0"
    "buff_idx (a + 1) = buff_idx a" "buff_idx (a + 2) = buff_idx a" "buff_idx (a + 3) = buff_idx a"
proof -
  have disj: "a + k = a OR k" if "k = take_bit 2 k" for k :: u32
  proof (rule disjunctive_add)
    fix n
    from assms have "\<not> bit (a AND 3) n" by simp
    moreover have "bit k n \<Longrightarrow> n < 2" by (subst (asm) that) (simp add: bits)
    ultimately show "\<not> bit a n \<or> \<not> bit k n" by (auto simp: bits dest: bit_lt_len)
  qed
  have low: "(a OR k) AND 3 = k AND 3" for k
    using assms by (simp add: bit.conj_disj_distrib2)
  have high: "buff_idx (a OR k) = buff_idx a" if "k = take_bit 2 k" for k
  proof (rule bit_word_eqI)
    fix n
    have "\<not> bit k (Suc (Suc n))" by (subst that) (simp add: bits)
    then show "bit (buff_idx (a OR k)) n = bit (buff_idx a) n" by (simp add: buff_idx_def bits)
  qed
  show "lane a = 24" "lane (a + 1) = 16" "lane (a + 2) = 8" "lane (a + 3) = 0"
    using assms by (simp_all add: lane_def disj low)
  show "buff_idx (a + 1) = buff_idx a" "buff_idx (a + 2) = buff_idx a" "buff_idx (a + 3) = buff_idx a"
    by (simp_all add: disj high)
qed

interpretation eb: byte_word_memory mem_iord_byte mem_iowr_byte mem_iord mem_iowr
proof unfold_locales
  fix m :: ethbuf and a b v w :: u32
  show "mem_iord_byte (mem_iowr_byte m a v) b = (if b = a then take_bit 8 v else mem_iord_byte m b)"
    by (rule mem_rd_wr)
  show "take_bit 8 (mem_iord_byte m a) = mem_iord_byte m a"
    by (rule mem_rd_byte)
  show "mem_iowr m a w = mem_iowr m (walign a) w"
    by (simp add: mem_iowr_def buff_idx_align)
  show "mem_iord m a = mem_iord m (walign a)"
    by (simp add: mem_iord_alt buff_idx_align)
  assume al: "a AND 3 = 0"
  show "mem_iowr m a w =
      mem_iowr_byte (mem_iowr_byte (mem_iowr_byte (mem_iowr_byte m a (drop_bit 24 w)) (a + 1) (drop_bit 16 w))
        (a + 2) (drop_bit 8 w)) (a + 3) w"
    by (simp add: mem_iowr_def mem_iowr_byte_alt aligned_lanes [OF al] put_bytes)
  show "mem_iord m a = push_bit 24 (mem_iord_byte m a) OR push_bit 16 (mem_iord_byte m (a + 1))
      OR push_bit 8 (mem_iord_byte m (a + 2)) OR mem_iord_byte m (a + 3)"
    by (simp only: mem_iord_alt mem_iord_byte_alt aligned_lanes [OF al] get_byte_def bytes_of_word
        drop_bit_0 id_apply)
qed

text \<open>Byte reads after word and byte writes at constant offsets of an aligned packet address.\<close>

lemma buff_idx_eq_iff: "buff_idx a = buff_idx b \<longleftrightarrow> walign a = walign b"
proof -
  have up: "walign c = push_bit 2 (ucast (buff_idx c))" for c
    by (rule bit_word_eqI) (auto simp: walign_def buff_idx_def bits)
  show ?thesis
  proof
    assume "buff_idx a = buff_idx b"
    then show "walign a = walign b" by (simp add: up)
  next
    assume "walign a = walign b"
    then have "buff_idx (walign a) = buff_idx (walign b)" by simp
    then show "buff_idx a = buff_idx b" by (simp only: buff_idx_align)
  qed
qed

lemma lane_offset: "a AND 3 = 0 \<Longrightarrow> lane (a + l) = lane l"
  unfolding lane_def by (simp only: add_and_3)

lemma rd_wrw:
  assumes "a AND 3 = 0" "k AND 3 = 0"
  shows "mem_iord_byte (mem_iowr m (a + k) w) (a + l)
    = (if walign l = k then get_byte (lane l) w else mem_iord_byte m (a + l))"
proof -
  have "buff_idx (a + l) = buff_idx (a + k) \<longleftrightarrow> walign (a + l) = walign (a + k)"
    by (simp add: buff_idx_eq_iff)
  also have "\<dots> \<longleftrightarrow> walign l = k"
    using assms by (simp add: walign_offset walign_id)
  finally show ?thesis
    using assms by (simp add: mem_iord_byte_alt mem_iowr_def lane_offset)
qed

section \<open>Registers and device activity\<close>

text \<open>
  The controller behind the registers is not part of the C code. It is a value of type
  \<open>'d eth_if\<close>: what a register read returns and what the controller does by then
  (received frames reach the packet buffer by DMA, so a read may change the buffer), what a
  register write does, and the microsecond clock \<open>get_cpu_usecs\<close>.
\<close>

record 'd eth_if =
  dev_read :: "widx \<Rightarrow> 'd \<Rightarrow> ethbuf \<Rightarrow> u32 \<times> 'd \<times> ethbuf"
  dev_write :: "widx \<Rightarrow> u32 \<Rightarrow> 'd \<Rightarrow> ethbuf \<Rightarrow> 'd \<times> ethbuf"
  dev_usecs :: "'d \<Rightarrow> ethbuf \<Rightarrow> u64 \<times> 'd \<times> ethbuf"

record 'd eth_mach =
  eth_dev :: 'd
  eth_buf :: ethbuf

definition eth_iowr :: "'d eth_if \<Rightarrow> u32 \<Rightarrow> u32 \<Rightarrow> ('d, 'z) eth_mach_scheme \<Rightarrow> ('d, 'z) eth_mach_scheme" where
  "eth_iowr io addr data s =
     (case dev_write io (buff_idx addr) data (eth_dev s) (eth_buf s) of
        (d, m) \<Rightarrow> s\<lparr>eth_dev := d, eth_buf := m\<rparr>)"

definition eth_iord :: "'d eth_if \<Rightarrow> u32 \<Rightarrow> ('d, 'z) eth_mach_scheme \<Rightarrow> u32 \<times> ('d, 'z) eth_mach_scheme" where
  "eth_iord io addr s =
     (case dev_read io (buff_idx addr) (eth_dev s) (eth_buf s) of
        (v, d, m) \<Rightarrow> (v, s\<lparr>eth_dev := d, eth_buf := m\<rparr>))"

definition get_cpu_usecs :: "'d eth_if \<Rightarrow> ('d, 'z) eth_mach_scheme \<Rightarrow> u64 \<times> ('d, 'z) eth_mach_scheme" where
  "get_cpu_usecs io s =
     (case dev_usecs io (eth_dev s) (eth_buf s) of
        (t, d, m) \<Rightarrow> (t, s\<lparr>eth_dev := d, eth_buf := m\<rparr>))"

section \<open>The second controller\<close>

text \<open>The same accesses on the buffer and the registers of the second controller.\<close>

definition eth_iowr1 :: "'d eth_if \<Rightarrow> u32 \<Rightarrow> u32 \<Rightarrow> ('d, 'z) eth_mach_scheme \<Rightarrow> ('d, 'z) eth_mach_scheme" where
  "eth_iowr1 io1 addr data s1 =
     (case dev_write io1 (buff_idx addr) data (eth_dev s1) (eth_buf s1) of
        (d, m) \<Rightarrow> s1\<lparr>eth_dev := d, eth_buf := m\<rparr>)"

definition eth_iord1 :: "'d eth_if \<Rightarrow> u32 \<Rightarrow> ('d, 'z) eth_mach_scheme \<Rightarrow> u32 \<times> ('d, 'z) eth_mach_scheme" where
  "eth_iord1 io1 addr s1 =
     (case dev_read io1 (buff_idx addr) (eth_dev s1) (eth_buf s1) of
        (v, d, m) \<Rightarrow> (v, s1\<lparr>eth_dev := d, eth_buf := m\<rparr>))"

definition mem_iowr1 :: "ethbuf \<Rightarrow> u32 \<Rightarrow> u32 \<Rightarrow> ethbuf" where
  "mem_iowr1 m1 addr data = m1(buff_idx addr := data)"

definition mem_iowr1_byte :: "ethbuf \<Rightarrow> u32 \<Rightarrow> u32 \<Rightarrow> ethbuf" where
  "mem_iowr1_byte m1 addr data =
     (let previous_data = m1 (buff_idx addr);
          shift_factor = 24 - 8 * (addr AND 3);
          msk = NOT (push_bit (unat shift_factor) 0xFF);
          data = push_bit (unat shift_factor) (0xFF AND data);
          data = (previous_data AND msk) + data
      in m1(buff_idx addr := data))"

definition mem_iord1 :: "ethbuf \<Rightarrow> u32 \<Rightarrow> u32" where
  "mem_iord1 m1 addr = m1 (ucast (signed_drop_bit 2 addr))"

definition mem_iord_byte1 :: "ethbuf \<Rightarrow> u32 \<Rightarrow> u32" where
  "mem_iord_byte1 m1 addr =
     (let full_data = m1 (buff_idx addr);
          shift_factor = 24 - 8 * (addr AND 3);
          msk = push_bit (unat shift_factor) 0xFF
      in drop_bit (unat shift_factor) (full_data AND msk))"

lemma second_controller:
  "mem_iowr1 = mem_iowr" "mem_iowr1_byte = mem_iowr_byte"
  "mem_iord1 = mem_iord" "mem_iord_byte1 = mem_iord_byte"
  by (simp_all add: fun_eq_iff mem_iowr1_def mem_iowr_def mem_iowr1_byte_def mem_iowr_byte_def
      mem_iord1_def mem_iord_def mem_iord_byte1_def mem_iord_byte_def)

interpretation eb1: byte_word_memory mem_iord_byte1 mem_iowr1_byte mem_iord1 mem_iowr1
  unfolding second_controller by (rule eb.byte_word_memory_axioms)

section \<open>Byte arrays in the buffer\<close>

text \<open>The loop \<open>for (i = 0; i < n; i++) dst[i] = mem_iord_byte(addr + i)\<close>.\<close>

definition rd_bytes :: "ethbuf \<Rightarrow> u32 \<Rightarrow> nat \<Rightarrow> u8 list" where
  "rd_bytes m addr n = map (\<lambda>i. ucast (mem_iord_byte m (addr + of_nat i))) [0..<n]"

lemma rd_bytes_4:
  "rd_bytes m a 4 = [ucast (mem_iord_byte m a), ucast (mem_iord_byte m (a + 1)),
     ucast (mem_iord_byte m (a + 2)), ucast (mem_iord_byte m (a + 3))]"
  by (simp add: rd_bytes_def upt_small)

lemma rd_bytes_6:
  "rd_bytes m a 6 = [ucast (mem_iord_byte m a), ucast (mem_iord_byte m (a + 1)),
     ucast (mem_iord_byte m (a + 2)), ucast (mem_iord_byte m (a + 3)),
     ucast (mem_iord_byte m (a + 4)), ucast (mem_iord_byte m (a + 5))]"
  by (simp add: rd_bytes_def upt_small)

text \<open>The loop \<open>for (i = 0; i < n; i++) mem_iowr_byte(addr + i, data[i])\<close>.\<close>

definition wr_bytes :: "ethbuf \<Rightarrow> u32 \<Rightarrow> u8 list \<Rightarrow> nat \<Rightarrow> ethbuf" where
  "wr_bytes m addr data n = fold (\<lambda>i m. mem_iowr_byte m (addr + of_nat i) (ucast (data ! i))) [0..<n] m"

lemma rd_wr_bytes:
  assumes "n \<le> 2 ^ 32"
  shows "mem_iord_byte (wr_bytes m a d n) b
    = (if unat (b - a) < n then ucast (d ! unat (b - a)) else mem_iord_byte m b)"
  using eb.rd_wr_loop [OF assms, of a "\<lambda>i. ucast (d ! i)" m b]
  by (simp add: wr_bytes_def take_bit_ucast_u8)

lemma rd_bytes_wr_bytes:
  assumes "n \<le> 2 ^ 32" "n \<le> length d"
  shows "rd_bytes (wr_bytes m a d n) a n = take n d"
proof (rule nth_equalityI)
  show "length (rd_bytes (wr_bytes m a d n) a n) = length (take n d)"
    using assms by (simp add: rd_bytes_def)
  fix i assume "i < length (rd_bytes (wr_bytes m a d n) a n)"
  then have "i < n" by (simp add: rd_bytes_def)
  then show "rd_bytes (wr_bytes m a d n) a n ! i = take n d ! i"
    using assms by (simp add: rd_bytes_def rd_wr_bytes unat_of_nat take_bit_nat_eq_self ucast_u8_u32)
qed

section \<open>Bytes of assembled words\<close>

text \<open>
  The senders assemble the words of a header from bytes and half words by shifts and disjunctions;
  these rules read the bytes back.
\<close>

named_theorems fields

lemma get_byte_or [fields]: "get_byte k (x OR y) = get_byte k x OR get_byte k y"
  by (rule bit_word_eqI) (auto simp: bits)

lemma get_byte_push [fields]:
  "j \<le> k \<Longrightarrow> k \<le> 24 \<Longrightarrow> get_byte k (push_bit j x) = get_byte (k - j) x"
  "k + 8 \<le> j \<Longrightarrow> get_byte k (push_bit j x) = 0"
  by (rule bit_word_eqI; auto simp: bits)+

lemma get_byte_drop [fields]: "get_byte k (drop_bit j x) = get_byte (j + k) x"
  by (rule bit_word_eqI) (auto simp: bits ac_simps)

lemma get_byte_take [fields]:
  "get_byte 0 (take_bit 8 x) = get_byte 0 x" "8 \<le> k \<Longrightarrow> get_byte k (take_bit 8 x) = 0"
  by (rule bit_word_eqI; auto simp: bits)+

lemma get_byte_beyond [fields]: "32 \<le> k \<Longrightarrow> get_byte k x = 0"
  by (rule bit_word_eqI) (auto simp: bits dest: bit_lt_len)

lemma get_byte_u8 [fields]:
  "k \<in> {0, 8, 16, 24} \<Longrightarrow> get_byte k (ucast (b :: u8)) = (if k = 0 then ucast b else 0)"
  by (rule bit_word_eqI) (auto simp: bits dest: bit_lt_len)

lemma get_byte_u16 [fields]:
  "get_byte 24 (ucast (h :: u16)) = 0" "get_byte 16 (ucast (h :: u16)) = 0"
  "get_byte 8 (ucast (h :: u16)) = ucast (drop_bit 8 h)" "get_byte 0 (ucast (h :: u16)) = ucast (take_bit 8 h)"
  by (rule bit_word_eqI; auto simp: bits dest: bit_lt_len)+

lemma get_byte_numeral [fields]:
  "get_byte k (numeral n) = take_bit 8 (drop_bit k (numeral n))" "get_byte k 0 = 0"
  by (simp_all add: get_byte_def)

lemma word_of_get_bytes:
  "push_bit 24 (get_byte 24 w) + push_bit 16 (get_byte 16 w) + push_bit 8 (get_byte 8 w) + get_byte 0 w = w"
proof -
  have "push_bit 24 (get_byte 24 w) + push_bit 16 (get_byte 16 w) = push_bit 24 (get_byte 24 w) OR push_bit 16 (get_byte 16 w)"
    by (rule disjunctive_add) (auto simp: bits)
  moreover have "(push_bit 24 (get_byte 24 w) OR push_bit 16 (get_byte 16 w)) + push_bit 8 (get_byte 8 w)
      = push_bit 24 (get_byte 24 w) OR push_bit 16 (get_byte 16 w) OR push_bit 8 (get_byte 8 w)"
    unfolding or.assoc [symmetric] by (rule disjunctive_add) (auto simp: bits)
  moreover have "(push_bit 24 (get_byte 24 w) OR push_bit 16 (get_byte 16 w) OR push_bit 8 (get_byte 8 w)) + get_byte 0 w
      = push_bit 24 (get_byte 24 w) OR push_bit 16 (get_byte 16 w) OR push_bit 8 (get_byte 8 w) OR get_byte 0 w"
    unfolding or.assoc [symmetric] by (rule disjunctive_add) (auto simp: bits)
  ultimately show ?thesis by (simp only: get_byte_def bytes_of_word drop_bit_0 id_apply)
qed

text \<open>A word write at the packet address itself.\<close>

lemma rd_wrw_base:
  assumes "a AND 3 = 0"
  shows "mem_iord_byte (mem_iowr m a w) (a + l) = (if walign l = 0 then get_byte (lane l) w else mem_iord_byte m (a + l))"
    "mem_iord_byte (mem_iowr m a w) a = get_byte 24 w"
    "k AND 3 = 0 \<Longrightarrow> k \<noteq> 0 \<Longrightarrow> mem_iord_byte (mem_iowr m (a + k) w) a = mem_iord_byte m a"
  using rd_wrw [OF assms, of 0 m w l] rd_wrw [OF assms, of 0 m w 0] rd_wrw [OF assms, of k m w 0]
  by (auto simp: walign_def lane_def)

lemma rd_wr_bytes_before:
  assumes "n \<le> 65536" "unat k < 1024" "unat k < unat c" "unat c < 1024"
  shows "mem_iord_byte (wr_bytes m (a + c) d n) (a + k) = mem_iord_byte m (a + k)"
proof -
  have "unat (k - c) = 2 ^ 32 + unat k - unat c"
    using assms by (simp add: unat_sub_if' word_le_nat_alt)
  with assms have "\<not> unat (k - c) < n" by simp
  with assms show ?thesis by (subst rd_wr_bytes) simp_all
qed

lemma rd_wr_bytes_base:
  assumes "n \<le> 65536" "0 < unat c" "unat c < 1024"
  shows "mem_iord_byte (wr_bytes m (a + c) d n) a = mem_iord_byte m a"
  using rd_wr_bytes_before [of n 0 c m a d] assms by simp

lemmas frame_rd = rd_wrw rd_wrw_base rd_wr_bytes_before rd_wr_bytes_base mem_rd_wr walign_def lane_def fields

text \<open>Evaluation of reads from a concrete buffer.\<close>

lemmas buf_eval = mem_iord_byte_def mem_iord_def Let_def buff_idx_def

end
