(* ===== verification/Eth_Mac.thy ===== *)
theory Eth_Mac
  imports Eth_IO
begin

text \<open>
  \<open>c/ethlib/eth_mac_driver.c\<close> and \<open>c/ethlib/mac.c\<close>: sending and receiving frames through the
  buffer descriptors of the controller, the register accessors, and the Ethernet header.
  The driver polls registers until the controller is done. A polling loop need not end, so
  it is a partial function into \<open>option\<close>: \<open>None\<close> stands for not returning. The names of the
  register addresses and bits are those of \<open>eth_mac_driver.h\<close>.
\<close>

abbreviation (input) MODER_ADDR :: u32 where "MODER_ADDR \<equiv> 0x00"
abbreviation (input) INT_SOURCE_ADDR :: u32 where "INT_SOURCE_ADDR \<equiv> 0x04"
abbreviation (input) TX_BD_NUM_ADDR :: u32 where "TX_BD_NUM_ADDR \<equiv> 0x20"
abbreviation (input) MIICOMMAND_ADDR :: u32 where "MIICOMMAND_ADDR \<equiv> 0x2C"
abbreviation (input) MIIADDRESS_ADDR :: u32 where "MIIADDRESS_ADDR \<equiv> 0x30"
abbreviation (input) MIITX_DATA_ADDR :: u32 where "MIITX_DATA_ADDR \<equiv> 0x34"
abbreviation (input) MIISTATUS :: u32 where "MIISTATUS \<equiv> 0x3C"
abbreviation (input) WCTRLDATA_BIT :: u32 where "WCTRLDATA_BIT \<equiv> 0x4"
abbreviation (input) BUSY_BIT :: u32 where "BUSY_BIT \<equiv> 0x2"
abbreviation (input) TX_BD_ADDR_BASE :: u32 where "TX_BD_ADDR_BASE \<equiv> 0x400"
abbreviation (input) INT_SOURCE_RXB_BIT :: u32 where "INT_SOURCE_RXB_BIT \<equiv> 0x0004"
abbreviation (input) INT_SOURCE_TXB_BIT :: u32 where "INT_SOURCE_TXB_BIT \<equiv> 0x0001"
abbreviation (input) RX_BD_EMPTY_BIT :: u32 where "RX_BD_EMPTY_BIT \<equiv> 0x8000"
abbreviation (input) RX_BD_IRQEN_BIT :: u32 where "RX_BD_IRQEN_BIT \<equiv> 0x4000"
abbreviation (input) RX_BD_WRAP_BIT :: u32 where "RX_BD_WRAP_BIT \<equiv> 0x2000"
abbreviation (input) TX_BD_READY_BIT :: u32 where "TX_BD_READY_BIT \<equiv> 0x8000"
abbreviation (input) TX_BD_IRQEN_BIT :: u32 where "TX_BD_IRQEN_BIT \<equiv> 0x4000"
abbreviation (input) TX_BD_WRAP_BIT :: u32 where "TX_BD_WRAP_BIT \<equiv> 0x2000"
abbreviation (input) TX_BD_PAD_EN_BIT :: u32 where "TX_BD_PAD_EN_BIT \<equiv> 0x1000"

definition RX_BD_ADDR_BASE :: "u32 \<Rightarrow> u32" where
  "RX_BD_ADDR_BASE tx_bd_num = TX_BD_ADDR_BASE + tx_bd_num * 8"

section \<open>Sending and receiving\<close>

text \<open>
  The two loops of \<open>eth_mac_send\<close>. Both flags are of type \<open>unsigned char\<close>, so what is
  assigned to them is cut to eight bits.
\<close>

partial_function (option) eth_send_wait_free ::
    "'d eth_if \<Rightarrow> u8 \<Rightarrow> ('d, 'z) eth_mach_scheme \<Rightarrow> ('d, 'z) eth_mach_scheme option" where
  "eth_send_wait_free io free s =
     (if free = 1
      then (case eth_iord io TX_BD_ADDR_BASE s of (v, s) \<Rightarrow> eth_send_wait_free io (ucast (v AND 0x8000)) s)
      else Some s)"

partial_function (option) eth_send_wait_done ::
    "'d eth_if \<Rightarrow> u8 \<Rightarrow> ('d, 'z) eth_mach_scheme \<Rightarrow> ('d, 'z) eth_mach_scheme option" where
  "eth_send_wait_done io done s =
     (if done = 0
      then (case eth_iord io INT_SOURCE_ADDR s of (v, s) \<Rightarrow> eth_send_wait_done io (ucast (v AND 1)) s)
      else Some s)"

definition eth_mac_send ::
    "'d eth_if \<Rightarrow> u32 \<Rightarrow> u32 \<Rightarrow> ('d, 'z) eth_mach_scheme \<Rightarrow> ('d, 'z) eth_mach_scheme option" where
  "eth_mac_send io tx_addr frame_length s =
     do {
       s \<leftarrow> eth_send_wait_free io 1 s;
       let s = eth_iowr io INT_SOURCE_ADDR 0x00000001 s;
       let s = eth_iowr io (TX_BD_ADDR_BASE + 4) tx_addr s;
       let s = eth_iowr io TX_BD_ADDR_BASE (push_bit 16 frame_length OR 0xF000) s;
       eth_send_wait_done io 0 s
     }"

definition eth_mac_send_nb ::
    "'d eth_if \<Rightarrow> u32 \<Rightarrow> u32 \<Rightarrow> ('d, 'z) eth_mach_scheme \<Rightarrow> u32 \<times> ('d, 'z) eth_mach_scheme" where
  "eth_mac_send_nb io tx_addr frame_length s =
     (case eth_iord io TX_BD_ADDR_BASE s of (v, s) \<Rightarrow>
        if v AND TX_BD_READY_BIT = 1 then (0, s)
        else let s = eth_iowr io (TX_BD_ADDR_BASE + 4) tx_addr s;
                 s = eth_iowr io TX_BD_ADDR_BASE (push_bit 16 frame_length OR 0xF000) s;
                 s = eth_iowr io INT_SOURCE_ADDR INT_SOURCE_TXB_BIT s;
                 s = eth_iowr io TX_BD_ADDR_BASE
                       (TX_BD_READY_BIT OR TX_BD_IRQEN_BIT OR TX_BD_WRAP_BIT OR TX_BD_PAD_EN_BIT) s
             in (1, s))"

text \<open>The two polling loops of \<open>eth_mac_receive\<close>: without and with a timeout. The second returns
  \<open>True\<close> when a frame came in and \<open>False\<close> when the time is up.\<close>

partial_function (option) eth_receive_wait ::
    "'d eth_if \<Rightarrow> ('d, 'z) eth_mach_scheme \<Rightarrow> ('d, 'z) eth_mach_scheme option" where
  "eth_receive_wait io s =
     (case eth_iord io INT_SOURCE_ADDR s of (v, s) \<Rightarrow>
        if v AND INT_SOURCE_RXB_BIT = 0 then eth_receive_wait io s else Some s)"

partial_function (option) eth_receive_wait_timeout ::
    "'d eth_if \<Rightarrow> u64 \<Rightarrow> u64 \<Rightarrow> ('d, 'z) eth_mach_scheme \<Rightarrow> (bool \<times> ('d, 'z) eth_mach_scheme) option" where
  "eth_receive_wait_timeout io start_time timeout s =
     (case eth_iord io INT_SOURCE_ADDR s of (v, s) \<Rightarrow>
        if v AND INT_SOURCE_RXB_BIT = 0
        then (case get_cpu_usecs io s of (now, s) \<Rightarrow>
                if now - start_time \<ge> timeout then Some (False, s)
                else eth_receive_wait_timeout io start_time timeout s)
        else Some (True, s))"

definition eth_receive_ack :: "'d eth_if \<Rightarrow> ('d, 'z) eth_mach_scheme \<Rightarrow> ('d, 'z) eth_mach_scheme" where
  "eth_receive_ack io s =
     (let s = eth_iowr io INT_SOURCE_ADDR INT_SOURCE_RXB_BIT s;
          (n, s) = eth_iord io TX_BD_NUM_ADDR s
      in eth_iowr io (RX_BD_ADDR_BASE n) (RX_BD_EMPTY_BIT OR RX_BD_IRQEN_BIT OR RX_BD_WRAP_BIT) s)"

definition eth_mac_receive ::
    "'d eth_if \<Rightarrow> u32 \<Rightarrow> u64 \<Rightarrow> ('d, 'z) eth_mach_scheme \<Rightarrow> (u32 \<times> ('d, 'z) eth_mach_scheme) option" where
  "eth_mac_receive io rx_addr timeout s =
     (let (n, s) = eth_iord io TX_BD_NUM_ADDR s;
          s = eth_iowr io (RX_BD_ADDR_BASE n + 4) rx_addr s
      in if timeout = 0
         then do { s \<leftarrow> eth_receive_wait io s; Some (1, eth_receive_ack io s) }
         else let (start_time, s) = get_cpu_usecs io s
              in do {
                   (got, s) \<leftarrow> eth_receive_wait_timeout io start_time timeout s;
                   Some (if got then (1, eth_receive_ack io s) else (0, s))
                 })"

definition eth_mac_receive_nb ::
    "'d eth_if \<Rightarrow> u32 \<Rightarrow> ('d, 'z) eth_mach_scheme \<Rightarrow> u32 \<times> ('d, 'z) eth_mach_scheme" where
  "eth_mac_receive_nb io rx_addr s =
     (let (n, s) = eth_iord io TX_BD_NUM_ADDR s;
          s = eth_iowr io (RX_BD_ADDR_BASE n + 4) rx_addr s;
          (v, s) = eth_iord io INT_SOURCE_ADDR s;
          ans = (if v AND INT_SOURCE_RXB_BIT = 0 then 0 else 1)
      in (ans, eth_receive_ack io s))"

definition eth_mac_has_frame ::
    "'d eth_if \<Rightarrow> u32 \<Rightarrow> ('d, 'z) eth_mach_scheme \<Rightarrow> u32 \<times> ('d, 'z) eth_mach_scheme" where
  "eth_mac_has_frame io rx_addr s =
     (case eth_iord io INT_SOURCE_ADDR s of (v, s) \<Rightarrow>
        (if v AND INT_SOURCE_RXB_BIT = 0 then 0 else 1, s))"

definition eth_mac_isready_rx_buffer ::
    "'d eth_if \<Rightarrow> u32 \<Rightarrow> u32 \<Rightarrow> ('d, 'z) eth_mach_scheme \<Rightarrow> u32 \<times> ('d, 'z) eth_mach_scheme" where
  "eth_mac_isready_rx_buffer io rx_buff rx_bd s =
     (case eth_iord io rx_bd s of (v, s) \<Rightarrow>
        (if v AND RX_BD_EMPTY_BIT = 0 then 0 else 1, s))"

definition eth_mac_clear_rx_buffer ::
    "'d eth_if \<Rightarrow> u32 \<Rightarrow> u32 \<Rightarrow> ('d, 'z) eth_mach_scheme \<Rightarrow> ('d, 'z) eth_mach_scheme" where
  "eth_mac_clear_rx_buffer io rx_buff rx_bd s =
     (let (temp_config, s) = eth_iord io INT_SOURCE_ADDR s;
          s = eth_iowr io INT_SOURCE_ADDR (temp_config OR INT_SOURCE_RXB_BIT) s;
          (temp_config, s) = eth_iord io rx_bd s
      in eth_iowr io rx_bd
           (temp_config OR (RX_BD_EMPTY_BIT OR RX_BD_IRQEN_BIT OR RX_BD_WRAP_BIT)) s)"

definition eth_mac_initialize :: "'d eth_if \<Rightarrow> ('d, 'z) eth_mach_scheme \<Rightarrow> ('d, 'z) eth_mach_scheme" where
  "eth_mac_initialize io s =
     (let s = eth_iowr io 0x40 0xEEF0DA42 s;
          s = eth_iowr io 0x44 0x000000FF s;
          s = eth_iowr io 0x00 0x0000A423 s;
          (n, s) = eth_iord io TX_BD_NUM_ADDR s
      in eth_iowr io (RX_BD_ADDR_BASE n) (RX_BD_EMPTY_BIT OR RX_BD_IRQEN_BIT OR RX_BD_WRAP_BIT) s)"

section \<open>Register accessors\<close>

definition set_tx_enable :: "'d eth_if \<Rightarrow> ('d, 'z) eth_mach_scheme \<Rightarrow> ('d, 'z) eth_mach_scheme" where
  "set_tx_enable io s = (case eth_iord io 0x00 s of (data, s) \<Rightarrow> eth_iowr io 0x00 (data OR 0x0002) s)"

definition get_tx_enable :: "'d eth_if \<Rightarrow> ('d, 'z) eth_mach_scheme \<Rightarrow> u32 \<times> ('d, 'z) eth_mach_scheme" where
  "get_tx_enable io s = (case eth_iord io 0x00 s of (data, s) \<Rightarrow> (data AND 0x0002, s))"

definition set_rx_enable :: "'d eth_if \<Rightarrow> ('d, 'z) eth_mach_scheme \<Rightarrow> ('d, 'z) eth_mach_scheme" where
  "set_rx_enable io s = (case eth_iord io 0x00 s of (data, s) \<Rightarrow> eth_iowr io 0x00 (data OR 0x0001) s)"

definition get_rx_enable :: "'d eth_if \<Rightarrow> ('d, 'z) eth_mach_scheme \<Rightarrow> u32 \<times> ('d, 'z) eth_mach_scheme" where
  "get_rx_enable io s = (case eth_iord io 0x00 s of (data, s) \<Rightarrow> (data AND 0x0001, s))"

definition set_int_source_rxb :: "'d eth_if \<Rightarrow> ('d, 'z) eth_mach_scheme \<Rightarrow> ('d, 'z) eth_mach_scheme" where
  "set_int_source_rxb io s = (case eth_iord io 0x04 s of (data, s) \<Rightarrow> eth_iowr io 0x04 (data OR push_bit 3 1) s)"

definition get_int_source_rxb :: "'d eth_if \<Rightarrow> ('d, 'z) eth_mach_scheme \<Rightarrow> u32 \<times> ('d, 'z) eth_mach_scheme" where
  "get_int_source_rxb io s = (case eth_iord io 0x04 s of (data, s) \<Rightarrow> (drop_bit 3 data AND 1, s))"

definition set_tx_db_num :: "'d eth_if \<Rightarrow> u32 \<Rightarrow> ('d, 'z) eth_mach_scheme \<Rightarrow> ('d, 'z) eth_mach_scheme" where
  "set_tx_db_num io data s = (if data < 0x80 then eth_iowr io 0x20 data s else s)"

definition get_tx_db_num :: "'d eth_if \<Rightarrow> ('d, 'z) eth_mach_scheme \<Rightarrow> u32 \<times> ('d, 'z) eth_mach_scheme" where
  "get_tx_db_num io s = eth_iord io 0x20 s"

definition set_mac_address :: "'d eth_if \<Rightarrow> u32 \<Rightarrow> u32 \<Rightarrow> ('d, 'z) eth_mach_scheme \<Rightarrow> ('d, 'z) eth_mach_scheme" where
  "set_mac_address io my_mac0 my_mac1 s = eth_iowr io 0x44 my_mac1 (eth_iowr io 0x40 my_mac0 s)"

definition get_mac_address :: "'d eth_if \<Rightarrow> ('d, 'z) eth_mach_scheme \<Rightarrow> u64 \<times> ('d, 'z) eth_mach_scheme" where
  "get_mac_address io s =
     (let (hi, s) = eth_iord io 0x44 s;
          my_mac = (ucast hi :: u64);
          (lo, s) = eth_iord io 0x40 s
      in (push_bit 32 my_mac + ucast lo, s))"

definition set_tx_bd :: "'d eth_if \<Rightarrow> u32 \<Rightarrow> ('d, 'z) eth_mach_scheme \<Rightarrow> ('d, 'z) eth_mach_scheme" where
  "set_tx_bd io data s = eth_iowr io 0x400 data s"

definition get_tx_db :: "'d eth_if \<Rightarrow> ('d, 'z) eth_mach_scheme \<Rightarrow> u32 \<times> ('d, 'z) eth_mach_scheme" where
  "get_tx_db io s = eth_iord io 0x400 s"

definition get_tx_db_mem_pointer :: "'d eth_if \<Rightarrow> ('d, 'z) eth_mach_scheme \<Rightarrow> u32 \<times> ('d, 'z) eth_mach_scheme" where
  "get_tx_db_mem_pointer io s = eth_iord io (0x400 + 0x04) s"

definition set_rx_bd :: "'d eth_if \<Rightarrow> u32 \<Rightarrow> ('d, 'z) eth_mach_scheme \<Rightarrow> ('d, 'z) eth_mach_scheme" where
  "set_rx_bd io data s =
     (case get_tx_db_num io s of (tx_db_num, s) \<Rightarrow> eth_iowr io (0x400 + tx_db_num * 0x08) data s)"

definition get_rx_db :: "'d eth_if \<Rightarrow> ('d, 'z) eth_mach_scheme \<Rightarrow> u32 \<times> ('d, 'z) eth_mach_scheme" where
  "get_rx_db io s = (case get_tx_db_num io s of (tx_db_num, s) \<Rightarrow> eth_iord io (0x400 + tx_db_num * 0x08) s)"

text \<open>\<open>get_rx_db_length\<close> reads the descriptor number twice: once itself, once in \<open>get_rx_db\<close>.\<close>

definition get_rx_db_length :: "'d eth_if \<Rightarrow> ('d, 'z) eth_mach_scheme \<Rightarrow> u32 \<times> ('d, 'z) eth_mach_scheme" where
  "get_rx_db_length io s =
     (let (tx_db_num, s) = get_tx_db_num io s; (rx_db, s) = get_rx_db io s in (drop_bit 16 rx_db, s))"

definition get_rx_db_mem_pointer :: "'d eth_if \<Rightarrow> ('d, 'z) eth_mach_scheme \<Rightarrow> u32 \<times> ('d, 'z) eth_mach_scheme" where
  "get_rx_db_mem_pointer io s =
     (case get_tx_db_num io s of (tx_db_num, s) \<Rightarrow> eth_iord io (0x400 + tx_db_num * 0x08 + 0x04) s)"

definition set_rx_db_empty :: "'d eth_if \<Rightarrow> ('d, 'z) eth_mach_scheme \<Rightarrow> ('d, 'z) eth_mach_scheme" where
  "set_rx_db_empty io s =
     (let (tx_db_num, s) = get_tx_db_num io s;
          cur_addr_rx_db = 0x400 + tx_db_num * 0x08;
          (cur_data, s) = eth_iord io cur_addr_rx_db s
      in eth_iowr io cur_addr_rx_db (cur_data OR push_bit 15 1) s)"

definition get_rx_db_empty :: "'d eth_if \<Rightarrow> ('d, 'z) eth_mach_scheme \<Rightarrow> u32 \<times> ('d, 'z) eth_mach_scheme" where
  "get_rx_db_empty io s =
     (let (tx_db_num, s) = get_tx_db_num io s;
          cur_addr_rx_db = 0x400 + tx_db_num * 0x08;
          (cur_data, s) = eth_iord io cur_addr_rx_db s
      in (drop_bit 15 cur_data AND 1, s))"

definition set_rx_db_irq :: "'d eth_if \<Rightarrow> ('d, 'z) eth_mach_scheme \<Rightarrow> ('d, 'z) eth_mach_scheme" where
  "set_rx_db_irq io s =
     (let (tx_db_num, s) = get_tx_db_num io s;
          cur_addr_rx_db = 0x400 + tx_db_num * 0x08;
          (cur_data, s) = eth_iord io cur_addr_rx_db s
      in eth_iowr io cur_addr_rx_db (cur_data OR push_bit 14 1) s)"

definition get_rx_db_irq :: "'d eth_if \<Rightarrow> ('d, 'z) eth_mach_scheme \<Rightarrow> u32 \<times> ('d, 'z) eth_mach_scheme" where
  "get_rx_db_irq io s =
     (let (tx_db_num, s) = get_tx_db_num io s;
          cur_addr_rx_db = 0x400 + tx_db_num * 0x08;
          (cur_data, s) = eth_iord io cur_addr_rx_db s
      in (drop_bit 14 cur_data AND 1, s))"

definition send_phy_command :: "'d eth_if \<Rightarrow> u16 \<Rightarrow> u8 \<Rightarrow> u8 \<Rightarrow> ('d, 'z) eth_mach_scheme \<Rightarrow> u32 \<times> ('d, 'z) eth_mach_scheme" where
  "send_phy_command io cmd reg_addr phy_addr s =
     (case eth_iord io MIISTATUS s of (v, s) \<Rightarrow>
        if v AND BUSY_BIT \<noteq> BUSY_BIT
        then let s = eth_iowr io MIITX_DATA_ADDR (ucast cmd) s;
                 s = eth_iowr io MIIADDRESS_ADDR
                       (push_bit 8 (ucast reg_addr AND 0xF) OR (ucast phy_addr AND 0xF)) s;
                 s = eth_iowr io MIICOMMAND_ADDR WCTRLDATA_BIT s
             in (1, s)
        else (0, s))"

section \<open>The Ethernet header\<close>

datatype eth_protocol =
  TIMEOUT | UNSUPPORTED | IP | ICMP | UDP | TCP | PTP | ARP | LLDP | MDNS | TTE_PCF | TTE_MSG | INTERNOC_MSG

definition mac_packet_type :: "ethbuf \<Rightarrow> u32 \<Rightarrow> eth_protocol" where
  "mac_packet_type m addr =
     (let b = (ucast (mem_iord_byte m (addr + 13)) :: u8) in
      if mem_iord_byte m (addr + 12) = 0x08 then
        if b = 0x00 then
          let b = (ucast (mem_iord_byte m (addr + 23)) :: u8) in
          if b = 0x01 then ICMP
          else if b = 0x11 then UDP
          else if b = 0x06 then TCP
          else UNSUPPORTED
        else if b = 0x06 then ARP
        else UNSUPPORTED
      else if mem_iord_byte m (addr + 12) = 0x88 then
        if b = 0xc then LLDP
        else if b = 0xf7 then PTP
        else UNSUPPORTED
      else if mem_iord_byte m (addr + 12) = 0x89 then
        if b = 0x1d then TTE_PCF
        else UNSUPPORTED
      else UNSUPPORTED)"

definition mac_addr_sender :: "ethbuf \<Rightarrow> u32 \<Rightarrow> u8 list" where
  "mac_addr_sender m rx_addr =
     [ucast (mem_iord_byte m (rx_addr + 6 + 0)), ucast (mem_iord_byte m (rx_addr + 6 + 1)),
      ucast (mem_iord_byte m (rx_addr + 6 + 2)), ucast (mem_iord_byte m (rx_addr + 6 + 3)),
      ucast (mem_iord_byte m (rx_addr + 6 + 4)), ucast (mem_iord_byte m (rx_addr + 6 + 5))]"

definition mac_addr_dest :: "ethbuf \<Rightarrow> u32 \<Rightarrow> u8 list" where
  "mac_addr_dest m rx_addr =
     [ucast (mem_iord_byte m (rx_addr + 0)), ucast (mem_iord_byte m (rx_addr + 1)),
      ucast (mem_iord_byte m (rx_addr + 2)), ucast (mem_iord_byte m (rx_addr + 3)),
      ucast (mem_iord_byte m (rx_addr + 4)), ucast (mem_iord_byte m (rx_addr + 5))]"

definition mac_compare_mac :: "u8 list \<Rightarrow> u8 list \<Rightarrow> u8" where
  "mac_compare_mac mac1 mac2 =
     (if mac1 ! 0 = mac2 ! 0 \<and> mac1 ! 1 = mac2 ! 1 \<and> mac1 ! 2 = mac2 ! 2 \<and>
         mac1 ! 3 = mac2 ! 3 \<and> mac1 ! 4 = mac2 ! 4 \<and> mac1 ! 5 = mac2 ! 5
      then 1 else 0)"

section \<open>Properties of the driver\<close>

lemma ucast_bit15_u8: "(ucast (v AND 0x8000 :: u32) :: u8) = 0"
proof -
  have "(0x8000 :: u32) = push_bit 15 1" by simp
  then show ?thesis
    by (intro bit_word_eqI) (simp only: bits bit_1_iff, simp)
qed

lemma eth_send_wait_free_once: "eth_send_wait_free io 1 s = Some (snd (eth_iord io TX_BD_ADDR_BASE s))"
  by (subst eth_send_wait_free.simps)
    (simp add: eth_send_wait_free.simps [of io 0] ucast_bit15_u8 split: prod.split)

text \<open>
  C37. The first loop of \<open>eth_mac_send\<close> never waits: bit 15 of the descriptor status does not
  fit the eight-bit variable \<open>free\<close>, so the loop ends after one read whatever the status is,
  and the descriptor is overwritten even while the previous frame is being sent.
\<close>

theorem eth_mac_send_never_waits_for_descriptor:
  "eth_mac_send io tx_addr frame_length s =
     eth_send_wait_done io 0
       (eth_iowr io TX_BD_ADDR_BASE (push_bit 16 frame_length OR 0xF000)
         (eth_iowr io (TX_BD_ADDR_BASE + 4) tx_addr
           (eth_iowr io INT_SOURCE_ADDR 1 (snd (eth_iord io TX_BD_ADDR_BASE s)))))"
  by (simp add: eth_mac_send_def eth_send_wait_free_once)

text \<open>
  C38. \<open>eth_mac_send_nb\<close> never refuses: the ready bit is compared with 1 although it is
  \<open>0x8000\<close>. Whatever the controller is doing, the frame is queued, and the last write to the
  descriptor replaces the frame length by 0.
\<close>

theorem eth_mac_send_nb_never_refuses:
  "eth_mac_send_nb io tx_addr frame_length s =
     (1, eth_iowr io TX_BD_ADDR_BASE 0xF000
          (eth_iowr io INT_SOURCE_ADDR 1
            (eth_iowr io TX_BD_ADDR_BASE (push_bit 16 frame_length OR 0xF000)
              (eth_iowr io (TX_BD_ADDR_BASE + 4) tx_addr (snd (eth_iord io TX_BD_ADDR_BASE s))))))"
proof -
  have "v AND TX_BD_READY_BIT \<noteq> 1" for v :: u32
  proof
    assume "v AND TX_BD_READY_BIT = 1"
    then have "bit (v AND TX_BD_READY_BIT) 0 = bit (1 :: u32) 0" by simp
    then show False by (simp add: bit_and_iff)
  qed
  then show ?thesis
    by (simp add: eth_mac_send_nb_def split: prod.split)
qed

text \<open>
  A clock for the controller: every reading of \<open>get_cpu_usecs\<close> is later than the last one, and
  no two accesses are more than \<open>2 ^ 62\<close> microseconds apart.
\<close>

definition ticking :: "'d eth_if \<Rightarrow> ('d \<Rightarrow> nat) \<Rightarrow> bool" where
  "ticking io clk \<longleftrightarrow>
     (\<forall>i d m v d' m'. dev_read io i d m = (v, d', m') \<longrightarrow> clk d \<le> clk d' \<and> clk d' \<le> clk d + 2 ^ 62) \<and>
     (\<forall>d m t d' m'. dev_usecs io d m = (t, d', m') \<longrightarrow>
        t = of_nat (clk d') \<and> clk d < clk d' \<and> clk d' \<le> clk d + 2 ^ 62)"

lemma ticking_iord:
  assumes "ticking io clk" "eth_iord io a s = (v, s')"
  shows "clk (eth_dev s) \<le> clk (eth_dev s') \<and> clk (eth_dev s') \<le> clk (eth_dev s) + 2 ^ 62"
proof -
  obtain d' m' where rd: "dev_read io (buff_idx a) (eth_dev s) (eth_buf s) = (v, d', m')"
    and s': "s' = s\<lparr>eth_dev := d', eth_buf := m'\<rparr>"
    using assms(2) by (auto simp: eth_iord_def split: prod.splits)
  from assms(1) rd have "clk (eth_dev s) \<le> clk d' \<and> clk d' \<le> clk (eth_dev s) + 2 ^ 62"
    unfolding ticking_def by blast
  with s' show ?thesis by simp
qed

lemma ticking_usecs:
  assumes "ticking io clk" "get_cpu_usecs io s = (t, s')"
  shows "t = of_nat (clk (eth_dev s')) \<and> clk (eth_dev s) < clk (eth_dev s')
       \<and> clk (eth_dev s') \<le> clk (eth_dev s) + 2 ^ 62"
proof -
  obtain d' m' where rd: "dev_usecs io (eth_dev s) (eth_buf s) = (t, d', m')"
    and s': "s' = s\<lparr>eth_dev := d', eth_buf := m'\<rparr>"
    using assms(2) by (auto simp: get_cpu_usecs_def split: prod.splits)
  from assms(1) rd have "t = of_nat (clk d') \<and> clk (eth_dev s) < clk d' \<and> clk d' \<le> clk (eth_dev s) + 2 ^ 62"
    unfolding ticking_def by blast
  with s' show ?thesis by simp
qed

lemma eth_receive_wait_timeout_returns:
  assumes tick: "ticking io clk" and T: "unat timeout \<le> 2 ^ 63"
  shows "t0 \<le> clk (eth_dev s) \<Longrightarrow> clk (eth_dev s) - t0 < unat timeout \<Longrightarrow>
    \<exists>r. eth_receive_wait_timeout io (of_nat t0) timeout s = Some r"
proof (induction "unat timeout - (clk (eth_dev s) - t0)" arbitrary: s rule: less_induct)
  case less
  obtain v s1 where rd: "eth_iord io INT_SOURCE_ADDR s = (v, s1)" by fastforce
  obtain now s2 where us: "get_cpu_usecs io s1 = (now, s2)" by fastforce
  note rd' = ticking_iord [OF tick rd] and us' = ticking_usecs [OF tick us]
  have le: "clk (eth_dev s2) - t0 < 2 ^ 64" "t0 \<le> clk (eth_dev s2)"
    "clk (eth_dev s) < clk (eth_dev s2)"
    using less.prems T rd' us' by auto
  have now: "unat (now - of_nat t0) = clk (eth_dev s2) - t0"
  proof -
    have "now - of_nat t0 = of_nat (clk (eth_dev s2) - t0)"
      using us' le by (simp add: of_nat_diff)
    then show ?thesis using le(1) by (simp only: unat_of_nat) (simp add: take_bit_nat_eq_self)
  qed
  show ?case
  proof (cases "v AND INT_SOURCE_RXB_BIT = 0 \<and> \<not> timeout \<le> now - of_nat t0")
    case True
    then have "clk (eth_dev s2) - t0 < unat timeout"
      by (simp add: word_le_nat_alt now)
    with less.hyps [of s2] less.prems le True show ?thesis
      by (subst eth_receive_wait_timeout.simps) (auto simp: rd us)
  next
    case False
    then show ?thesis
      by (subst eth_receive_wait_timeout.simps) (auto simp: rd us)
  qed
qed

text \<open>
  C25. A receive with a timeout always returns: with a clock that advances, the polling loop ends
  by a frame or by the timeout, however the controller answers.
\<close>

theorem eth_mac_receive_returns:
  assumes "ticking io clk" "timeout \<noteq> 0" "unat timeout \<le> 2 ^ 63"
  shows "\<exists>r s'. eth_mac_receive io rx_addr timeout s = Some (r, s') \<and> (r = 0 \<or> r = 1)"
proof -
  obtain n s1 where 1: "eth_iord io TX_BD_NUM_ADDR s = (n, s1)" by fastforce
  define s2 where "s2 = eth_iowr io (RX_BD_ADDR_BASE n + 4) rx_addr s1"
  obtain t s3 where 3: "get_cpu_usecs io s2 = (t, s3)" by fastforce
  from assms(2) have "0 < unat timeout" by (simp add: unat_gt_0)
  then obtain g s4 where "eth_receive_wait_timeout io t timeout s3 = Some (g, s4)"
    using eth_receive_wait_timeout_returns [OF assms(1,3), of "clk (eth_dev s3)" s3]
      ticking_usecs [OF assms(1) 3] by auto
  then show ?thesis
    using assms(2) by (simp add: eth_mac_receive_def 1 3 flip: s2_def)
qed

text \<open>A controller with a clock that ticks at every access and that never receives.\<close>

definition silent_if :: "nat eth_if" where
  "silent_if = \<lparr>dev_read = (\<lambda>i d m. (0, d + 1, m)), dev_write = (\<lambda>i v d m. (d + 1, m)),
     dev_usecs = (\<lambda>d m. (of_nat (d + 1), d + 1, m))\<rparr>"

theorem eth_mac_receive_returns_witness:
  "\<exists>r s'. eth_mac_receive silent_if 0x800 3 \<lparr>eth_dev = 0, eth_buf = (\<lambda>_. 0)\<rparr> = Some (r, s') \<and> (r = 0 \<or> r = 1)"
  by (rule eth_mac_receive_returns [where clk = id])
    (simp_all add: ticking_def silent_if_def)

end
