(* ===== verification/Eth_IPv4.thy ===== *)
theory Eth_IPv4
  imports Eth_Mac
begin

text \<open>
  \<open>c/ethlib/ipv4.c\<close>: the IPv4 header fields and the header checksum. \<open>char\<close> is signed on this
  platform, so a shift of a \<open>char\<close> is arithmetic; its value is kept as the eight bits.
  The second half relates the source's checksum arithmetic (32-bit sums, carries folded in three
  times) to the ones' complement sum of RFC 1071 over natural numbers; the UDP and TCP theories
  reuse it.
\<close>

section \<open>Header fields\<close>

record iphead_t =
  ver_headlen :: u8
  dscp_ecn :: u8
  ip_length :: u16
  identification :: u16
  flags_fragmentoff :: u16
  ttl :: u8
  protocol :: u8
  head_checksum :: u16
  source_ip :: "u8 list"
  destination_ip :: "u8 list"

definition ipv4_get_version :: "ethbuf \<Rightarrow> u32 \<Rightarrow> u8" where
  "ipv4_get_version m pkt_addr = signed_drop_bit 4 (ucast (mem_iord_byte m (pkt_addr + 14)))"

definition ipv4_get_type_of_service :: "ethbuf \<Rightarrow> u32 \<Rightarrow> u8" where
  "ipv4_get_type_of_service m pkt_addr = signed_drop_bit 2 (ucast (mem_iord_byte m (pkt_addr + 14 + 1)))"

definition ipv4_get_length :: "ethbuf \<Rightarrow> u32 \<Rightarrow> u16" where
  "ipv4_get_length m pkt_addr =
     (let len = (ucast (mem_iord_byte m (pkt_addr + 14 + 2)) :: u16);
          len = push_bit 8 len
      in ucast (ucast len + mem_iord_byte m (pkt_addr + 14 + 3)))"

definition ipv4_get_identification :: "ethbuf \<Rightarrow> u32 \<Rightarrow> u32" where
  "ipv4_get_identification m pkt_addr =
     (let ident = mem_iord_byte m (pkt_addr + 14 + 4);
          ident = push_bit 8 ident
      in ident + mem_iord_byte m (pkt_addr + 14 + 5))"

definition ipv4_get_flags :: "ethbuf \<Rightarrow> u32 \<Rightarrow> u8" where
  "ipv4_get_flags m pkt_addr = signed_drop_bit 5 (ucast (mem_iord_byte m (pkt_addr + 14 + 6)))"

definition ipv4_get_ttl :: "ethbuf \<Rightarrow> u32 \<Rightarrow> u8" where
  "ipv4_get_ttl m pkt_addr = ucast (mem_iord_byte m (pkt_addr + 14 + 8))"

definition ipv4_get_protocol :: "ethbuf \<Rightarrow> u32 \<Rightarrow> u8" where
  "ipv4_get_protocol m pkt_addr = ucast (mem_iord_byte m (pkt_addr + 14 + 9))"

definition ipv4_get_checksum :: "ethbuf \<Rightarrow> u32 \<Rightarrow> u32" where
  "ipv4_get_checksum m pkt_addr =
     push_bit 8 (mem_iord_byte m (pkt_addr + 24)) + (mem_iord_byte m (pkt_addr + 25) AND 0xFF)"

definition ipv4_get_source_ip :: "ethbuf \<Rightarrow> u32 \<Rightarrow> u8 list" where
  "ipv4_get_source_ip m pkt_addr = rd_bytes m (pkt_addr + 26) 4"

definition ipv4_get_destination_ip :: "ethbuf \<Rightarrow> u32 \<Rightarrow> u8 list" where
  "ipv4_get_destination_ip m pkt_addr = rd_bytes m (pkt_addr + 30) 4"

section \<open>Addresses\<close>

definition ipv4_compare_ip :: "u8 list \<Rightarrow> u8 list \<Rightarrow> int" where
  "ipv4_compare_ip ip1 ip2 =
     (if ip1 ! 0 = ip2 ! 0 \<and> ip1 ! 1 = ip2 ! 1 \<and> ip1 ! 2 = ip2 ! 2 \<and> ip1 ! 3 = ip2 ! 3 then 1 else 0)"

text \<open>The new value of the array \<open>my_ip\<close>.\<close>

definition ipv4_set_my_ip :: "u8 list \<Rightarrow> u8 list \<Rightarrow> u8 list" where
  "ipv4_set_my_ip new_ip my_ip = fold (\<lambda>i ip. ip[i := new_ip ! i]) [0..<4] my_ip"

lemma list_eq_4:
  "length xs = 4 \<Longrightarrow> length ys = 4 \<Longrightarrow>
    xs = ys \<longleftrightarrow> xs ! 0 = ys ! 0 \<and> xs ! 1 = ys ! 1 \<and> xs ! 2 = ys ! 2 \<and> xs ! 3 = ys ! 3"
  by (clarsimp simp: eval_nat_numeral length_Suc_conv)

lemma list_eq_6:
  "length xs = 6 \<Longrightarrow> length ys = 6 \<Longrightarrow>
    xs = ys \<longleftrightarrow> xs ! 0 = ys ! 0 \<and> xs ! 1 = ys ! 1 \<and> xs ! 2 = ys ! 2 \<and> xs ! 3 = ys ! 3
      \<and> xs ! 4 = ys ! 4 \<and> xs ! 5 = ys ! 5"
  by (clarsimp simp: eval_nat_numeral length_Suc_conv)

lemma ipv4_compare_ip_iff:
  "length ip1 = 4 \<Longrightarrow> length ip2 = 4 \<Longrightarrow> ipv4_compare_ip ip1 ip2 = (if ip1 = ip2 then 1 else 0)"
  by (simp add: ipv4_compare_ip_def list_eq_4)

lemma mac_compare_mac_iff:
  "length m1 = 6 \<Longrightarrow> length m2 = 6 \<Longrightarrow> mac_compare_mac m1 m2 = (if m1 = m2 then 1 else 0)"
  by (simp add: mac_compare_mac_def list_eq_6)

lemma ipv4_set_my_ip_eq:
  "length new_ip = 4 \<Longrightarrow> length my_ip = 4 \<Longrightarrow> ipv4_set_my_ip new_ip my_ip = new_ip"
  by (clarsimp simp: ipv4_set_my_ip_def eval_nat_numeral length_Suc_conv)

section \<open>Checksum arithmetic\<close>

text \<open>One statement \<open>if ((checksum & 0xFFFF0000) > 0) checksum = (checksum & 0xFFFF) + (checksum >> 16)\<close>.\<close>

definition csum_carry :: "u32 \<Rightarrow> u32" where
  "csum_carry c = (if c AND 0xFFFF0000 > 0 then (c AND 0xFFFF) + drop_bit 16 c else c)"

text \<open>The summation loop over \<open>n\<close> byte pairs whose high bytes start at \<open>hi\<close> and low bytes at \<open>lo\<close>.\<close>

definition csum_words :: "ethbuf \<Rightarrow> u32 \<Rightarrow> u32 \<Rightarrow> nat \<Rightarrow> u32 \<Rightarrow> u32" where
  "csum_words m hi lo n c =
     fold (\<lambda>k c. c + push_bit 8 (mem_iord_byte m (hi + of_nat (2 * k)))
                   + (mem_iord_byte m (lo + of_nat (2 * k)) AND 0xFF)) [0..<n] c"

definition csum_finish :: "u32 \<Rightarrow> u32" where
  "csum_finish c = NOT (csum_carry (csum_carry (csum_carry c))) AND 0xFFFF"

definition ipv4_compute_checksum :: "ethbuf \<Rightarrow> u32 \<Rightarrow> u16" where
  "ipv4_compute_checksum m pkt_addr =
     (let checksum = csum_words m (pkt_addr + 14) (pkt_addr + 15) 10 0;
          checksum = checksum - push_bit 8 (mem_iord_byte m (pkt_addr + 24))
                       + (mem_iord_byte m (pkt_addr + 25) AND 0xFF)
      in ucast (csum_finish checksum))"

definition ipv4_verify_checksum :: "ethbuf \<Rightarrow> u32 \<Rightarrow> int" where
  "ipv4_verify_checksum m pkt_addr =
     (let checksum = csum_words m (pkt_addr + 14) (pkt_addr + 15) 10 0
      in if csum_finish checksum = 0 then 1 else 0)"

section \<open>The ones' complement sum\<close>

definition oc_sum :: "nat \<Rightarrow> nat" where
  "oc_sum x = (if x = 0 then 0 else (x - 1) mod 65535 + 1)"

lemma oc_sum_simps: "oc_sum 0 = 0" "oc_sum (Suc x) = Suc (x mod 65535)"
  by (simp_all add: oc_sum_def)

lemma oc_sum_le: "oc_sum x \<le> 65535"
  by (cases x) (simp_all add: oc_sum_simps Suc_le_eq)

lemma oc_sum_unique:
  assumes "y \<le> 65535" "y mod 65535 = x mod 65535" "y = 0 \<longleftrightarrow> x = 0"
  shows "y = oc_sum x"
proof (cases x; cases y)
  fix x' y' assume xy: "x = Suc x'" "y = Suc y'"
  with assms(2) have "y' mod 65535 = x' mod 65535" by (simp add: mod_Suc split: if_splits)
  moreover have "y' mod 65535 = y'" using assms(1) xy by simp
  ultimately show ?thesis by (simp add: oc_sum_simps xy)
qed (use assms in \<open>auto simp: oc_sum_simps\<close>)

lemma oc_sum_65535_iff: "oc_sum x = 65535 \<longleftrightarrow> x \<noteq> 0 \<and> x mod 65535 = 0"
  by (cases x) (auto simp: oc_sum_simps mod_Suc)

lemma oc_sum_cong: "oc_sum x mod 65535 = x mod 65535"
  by (cases x) (simp_all add: oc_sum_simps mod_Suc_eq)

lemma oc_sum_0_iff: "oc_sum x = 0 \<longleftrightarrow> x = 0"
  unfolding oc_sum_def by simp

lemma unat_and_FFFF: "unat (c AND 0xFFFF :: u32) = unat c mod 65536"
  unfolding u32_masks take_bit_eq_mask [symmetric]
  by (simp only: unsigned_take_bit_eq) (simp add: take_bit_eq_mod)

lemma unat_drop_16: "unat (drop_bit 16 c :: u32) = unat c div 65536"
  using unat_u32_lt [of c]
  by (simp only: unsigned_drop_bit_eq) (simp add: drop_bit_eq_div take_bit_nat_eq_self)

lemma high_half_pos_iff: "c AND 0xFFFF0000 > 0 \<longleftrightarrow> drop_bit 16 c \<noteq> 0" for c :: u32
proof -
  have "c AND 0xFFFF0000 = push_bit 16 (drop_bit 16 c)"
  proof (rule bit_word_eqI)
    fix n assume n: "n < LENGTH(32)"
    have m: "(0xFFFF0000 :: u32) = push_bit 16 0xFFFF" by simp
    have "16 \<le> n \<Longrightarrow> 16 + (n - 16) = n" by simp
    then show "bit (c AND 0xFFFF0000) n = bit (push_bit 16 (drop_bit 16 c)) n"
      unfolding m using n by (cases "16 \<le> n") (simp_all only: bits u32_masks bit_mask_word, auto)
  qed
  moreover have "push_bit 16 (drop_bit 16 c) = 0 \<longleftrightarrow> drop_bit 16 c = 0"
  proof
    assume *: "push_bit 16 (drop_bit 16 c) = 0"
    show "drop_bit 16 c = 0"
    proof (rule bit_word_eqI)
      fix n assume "n < LENGTH(32)"
      have "\<not> bit (push_bit 16 (drop_bit 16 c)) (16 + n)" by (simp add: *)
      then show "bit (drop_bit 16 c) n = bit (0 :: u32) n" by (auto simp: bits dest: bit_lt_len)
    qed
  qed simp
  ultimately show ?thesis by (simp add: word_gt_0)
qed

lemma unat_csum_carry: "unat (csum_carry c) = unat c mod 65536 + unat c div 65536"
proof (cases "drop_bit 16 c = 0")
  case True
  then have "unat c div 65536 = 0" by (simp flip: unat_drop_16)
  with True show ?thesis by (simp add: csum_carry_def high_half_pos_iff)
next
  case False
  have "unat c < 2 ^ 32" using unat_u32_lt [of c] by simp
  then have "unat c mod 65536 + unat c div 65536 < 2 ^ 32" 
    using mod_less_divisor [of 65536 "unat c"] div_le_dividend [of "unat c" 65536] by (simp add: div_less_iff_less_mult)
  with False show ?thesis
    by (simp add: csum_carry_def high_half_pos_iff unat_word_ariths unat_and_FFFF unat_drop_16)
qed

lemma oc_complement_iff:
  assumes "d < 65535"
  shows "oc_sum (x + (65535 - oc_sum (x + d))) = 65535 \<longleftrightarrow> d = 0"
proof -
  let ?o = "oc_sum (x + d)"
  have o: "?o \<le> 65535" "?o mod 65535 = (x + d) mod 65535" "?o = 0 \<longleftrightarrow> x + d = 0"
    by (simp_all add: oc_sum_le oc_sum_cong oc_sum_0_iff)
  have "(x + (65535 - ?o) + d) mod 65535 = ((x + d) mod 65535 + (65535 - ?o)) mod 65535"
    by (simp add: mod_add_left_eq ac_simps)
  also have "\<dots> = (?o + (65535 - ?o)) mod 65535" by (simp add: mod_add_left_eq flip: o(2))
  also have "\<dots> = 0" using o(1) by simp
  finally have z: "(x + (65535 - ?o) + d) mod 65535 = 0" .
  show ?thesis
  proof
    assume "oc_sum (x + (65535 - ?o)) = 65535"
    then have "(x + (65535 - ?o)) mod 65535 = 0" by (simp add: oc_sum_65535_iff)
    with z have "d mod 65535 = 0" by (metis add_0 mod_add_left_eq)
    with assms show "d = 0" by simp
  next
    assume d: "d = 0"
    have "x + (65535 - ?o) \<noteq> 0"
      using o(3) d oc_sum_65535_iff [of x] by (cases "x = 0") (auto simp: oc_sum_simps)
    with z d show "oc_sum (x + (65535 - ?o)) = 65535" by (simp add: oc_sum_65535_iff)
  qed
qed

text \<open>Three carries are enough for every 32-bit sum.\<close>

lemma unat_csum_fold: "unat (csum_carry (csum_carry (csum_carry c))) = oc_sum (unat c)"
proof (rule oc_sum_unique)
  have mod: "(x mod 65536 + x div 65536) mod 65535 = x mod 65535" for x :: nat
  proof -
    have "x = (x mod 65536 + x div 65536) + 65535 * (x div 65536)"
      using mod_mult_div_eq [of x 65536] by linarith
    then show ?thesis by (metis mod_mult_self2)
  qed
  have zero: "x mod 65536 + x div 65536 = 0 \<longleftrightarrow> x = 0" for x :: nat
    using mod_mult_div_eq [of x 65536] by linarith
  have lt: "unat c < 65536 * 65536" using unat_u32_lt [of c] by simp
  have "unat (csum_carry c) \<le> 65535 + 65535"
    using less_mult_imp_div_less [OF lt] mod_less_divisor [of 65536 "unat c"]
    by (simp add: unat_csum_carry)
  then have "unat (csum_carry (csum_carry c)) \<le> 65535"
    using mod_mult_div_eq [of "unat (csum_carry c)" 65536] mod_less_divisor [of 65536 "unat (csum_carry c)"]
    unfolding unat_csum_carry [of "csum_carry c"] by linarith
  then show "unat (csum_carry (csum_carry (csum_carry c))) \<le> 65535"
    unfolding unat_csum_carry [of "csum_carry (csum_carry c)"] by simp
  show "unat (csum_carry (csum_carry (csum_carry c))) mod 65535 = unat c mod 65535"
    by (simp only: unat_csum_carry mod)
  show "unat (csum_carry (csum_carry (csum_carry c))) = 0 \<longleftrightarrow> unat c = 0"
    by (simp only: unat_csum_carry zero)
qed

lemma unat_csum_finish: "unat (csum_finish c) = 65535 - oc_sum (unat c)"
proof -
  define f where "f = csum_carry (csum_carry (csum_carry c))"
  have f: "unat f = oc_sum (unat c)" unfolding f_def by (rule unat_csum_fold)
  then have le: "unat f \<le> 65535" by (simp add: oc_sum_le)
  have "NOT f = - 1 - f" by (simp only: not_eq_complement minus_diff_commute)
  moreover have "unat (- 1 - f) = unat (- 1 :: u32) - unat f"
    by (rule unat_sub) (rule word_order.extremum)
  moreover note unat_minus_1_u32
  ultimately have "unat (NOT f AND 0xFFFF) = (0xFFFFFFFF - unat f) mod 65536"
    by (simp only: unat_and_FFFF)
  also have "0xFFFFFFFF - unat f = (65535 - unat f) + 65535 * 65536" using le by simp
  also have "\<dots> mod 65536 = (65535 - unat f) mod 65536" by (rule mod_mult_self1)
  also have "\<dots> = 65535 - unat f" by (rule mod_less) simp
  finally show ?thesis by (simp only: csum_finish_def f_def [symmetric] f)
qed

text \<open>The 16-bit word at an address and the sum of \<open>n\<close> consecutive ones.\<close>

definition be16 :: "ethbuf \<Rightarrow> u32 \<Rightarrow> nat" where
  "be16 m a = 256 * unat (mem_iord_byte m a) + unat (mem_iord_byte m (a + 1))"

definition be16_sum :: "ethbuf \<Rightarrow> u32 \<Rightarrow> nat \<Rightarrow> nat" where
  "be16_sum m a n = (\<Sum>k<n. be16 m (a + of_nat (2 * k)))"

lemma mem_iord_byte_lt: "unat (mem_iord_byte m a) < 256"
  by (metis mem_rd_byte take_bit_8_le)

lemma be16_le: "be16 m a \<le> 65535"
  using mem_iord_byte_lt [of m a] mem_iord_byte_lt [of m "a + 1"] by (simp add: be16_def)

lemma unat_push_8: "unat x < 256 \<Longrightarrow> unat (push_bit 8 x :: u32) = 256 * unat x"
  by (simp add: push_bit_eq_mult unat_word_ariths mult.commute)

lemma be16_sum_le: "be16_sum m a n \<le> n * 65535"
  unfolding be16_sum_def using sum_bounded_above [of "{..<n}" _ "65535 :: nat"] be16_le by fastforce

lemma be16_sum_cong_rd:
  assumes "\<And>j. j < 2 * n \<Longrightarrow> mem_iord_byte m (a + of_nat j) = mem_iord_byte m' (b + of_nat j)"
  shows "be16_sum m a n = be16_sum m' b n"
proof -
  have "be16 m (a + of_nat (2 * k)) = be16 m' (b + of_nat (2 * k))" if "k < n" for k
    using assms [of "2 * k"] assms [of "2 * k + 1"] that by (simp add: be16_def add.assoc add.commute [of 1])
  then show ?thesis by (simp add: be16_sum_def)
qed

lemma unat_add_be16:
  assumes "unat c + be16 m a < 2 ^ 32"
  shows "unat (c + push_bit 8 (mem_iord_byte m a) + (mem_iord_byte m (a + 1) AND 0xFF)) = unat c + be16 m a"
  using assms by (simp add: unat_word_ariths unat_push_8 mem_iord_byte_lt be16_def mem_rd_byte)

lemma unat_csum_words:
  assumes "unat c + n * 65535 < 2 ^ 32"
  shows "unat (csum_words m a (a + 1) n c) = unat c + be16_sum m a n"
  using assms
proof (induction n)
  case 0
  then show ?case by (simp add: csum_words_def be16_sum_def)
next
  case (Suc n)
  let ?a = "a + of_nat (2 * n)" and ?c = "csum_words m a (a + 1) n c"
  have step: "csum_words m a (a + 1) (Suc n) c = ?c + push_bit 8 (mem_iord_byte m ?a) + (mem_iord_byte m (?a + 1) AND 0xFF)"
    by (simp add: csum_words_def ac_simps)
  have IH: "unat ?c = unat c + be16_sum m a n" using Suc by simp
  have "Suc n * 65535 = n * 65535 + 65535" by simp
  then have "unat ?c + be16 m ?a < 2 ^ 32"
    using Suc.prems be16_le [of m ?a] be16_sum_le [of m a n] unfolding IH by linarith
  then show ?case unfolding step IH [symmetric] by (simp only: unat_add_be16) (simp add: IH be16_sum_def)
qed

section \<open>The header checksum\<close>

lemma ucast_u16_finish: "unat (ucast (csum_finish c) :: u16) = 65535 - oc_sum (unat c)"
  using unat_csum_finish [of c] by (simp only: unsigned_ucast_eq) (simp add: take_bit_nat_eq_self)

text \<open>The sum of the ten words of a header other than its checksum field.\<close>

definition ipv4_body_sum :: "ethbuf \<Rightarrow> u32 \<Rightarrow> nat" where
  "ipv4_body_sum m a = be16_sum m (a + 14) 5 + be16_sum m (a + 26) 4"

lemma be16_sum_header: "be16_sum m (a + 14) 10 = ipv4_body_sum m a + be16 m (a + 24)"
  by (simp add: ipv4_body_sum_def be16_sum_def lessThan_nat_numeral lessThan_Suc ac_simps)

lemma unat_header_sum: "unat (csum_words m (a + 14) (a + 15) 10 0) = be16_sum m (a + 14) 10"
proof -
  have "unat (csum_words m (a + 14) (a + 14 + 1) 10 0) = unat (0 :: u32) + be16_sum m (a + 14) 10"
    by (rule unat_csum_words) simp
  then show ?thesis by simp
qed

lemma ipv4_verify_checksum_oc:
  "ipv4_verify_checksum m a = (if oc_sum (be16_sum m (a + 14) 10) = 0xFFFF then 1 else 0)"
proof -
  have "unat (csum_finish (csum_words m (a + 14) (a + 15) 10 0)) = 0xFFFF - oc_sum (be16_sum m (a + 14) 10)"
    by (simp only: unat_csum_finish unat_header_sum)
  then show ?thesis
    using oc_sum_le [of "be16_sum m (a + 14) 10"]
    by (auto simp: ipv4_verify_checksum_def simp flip: unat_eq_zero)
qed

text \<open>
  C17. The received-header check of \<open>ipv4_verify_checksum\<close> is the one of RFC 791: it accepts exactly
  the headers whose ten 16-bit words have ones' complement sum \<open>0xFFFF\<close>.
\<close>

theorem ipv4_verify_checksum_rfc791:
  "ipv4_verify_checksum m a = (if oc_sum (be16_sum m (a + 14) 10) = 0xFFFF then 1 else 0)"
  by (rule ipv4_verify_checksum_oc)

lemma unat_compute_sum:
  "unat (csum_words m (a + 14) (a + 15) 10 0 - push_bit 8 (mem_iord_byte m (a + 24))
     + (mem_iord_byte m (a + 25) AND 0xFF)) = ipv4_body_sum m a + 2 * unat (mem_iord_byte m (a + 25))"
proof -
  let ?x = "csum_words m (a + 14) (a + 15) 10 0"
  let ?h = "mem_iord_byte m (a + 24)" and ?l = "mem_iord_byte m (a + 25)"
  have field: "be16 m (a + 24) = 256 * unat ?h + unat ?l" by (simp add: be16_def)
  have x: "unat ?x = ipv4_body_sum m a + (256 * unat ?h + unat ?l)"
    by (simp only: unat_header_sum be16_sum_header field)
  have h: "unat (push_bit 8 ?h) = 256 * unat ?h" by (rule unat_push_8) (rule mem_iord_byte_lt)
  have "unat (?x - push_bit 8 ?h) = unat ?x - unat (push_bit 8 ?h)"
    by (rule unat_sub) (simp add: word_le_nat_alt x h)
  then have d: "unat (?x - push_bit 8 ?h) = ipv4_body_sum m a + unat ?l" by (simp add: x h)
  from be16_sum_le [of m "a + 14" 5] be16_sum_le [of m "a + 26" 4]
  have "ipv4_body_sum m a + unat ?l + unat ?l < 2 ^ 32"
    using mem_iord_byte_lt [of m "a + 25"] by (simp add: ipv4_body_sum_def)
  then have "unat (?x - push_bit 8 ?h + ?l) = ipv4_body_sum m a + unat ?l + unat ?l"
    by (simp only: unat_word_ariths d) simp
  then show ?thesis by (simp add: mem_rd_byte)
qed

text \<open>A 16-bit value stored most significant byte first, as the senders store a checksum.\<close>

definition wr_be16 :: "ethbuf \<Rightarrow> u32 \<Rightarrow> u16 \<Rightarrow> ethbuf" where
  "wr_be16 m a v = mem_iowr_byte (mem_iowr_byte m a (ucast (drop_bit 8 v))) (a + 1) (ucast (v AND 0xFF))"

lemma rd_wr_be16:
  "mem_iord_byte (wr_be16 m a v) b =
     (if b = a then ucast (drop_bit 8 v) else if b = a + 1 then ucast (take_bit 8 v) else mem_iord_byte m b)"
proof -
  have "take_bit 8 (ucast (drop_bit 8 v)) = (ucast (drop_bit 8 v) :: u32)"
    by (rule bit_word_eqI) (auto simp: bits dest: bit_lt_len)
  moreover have "take_bit 8 (ucast (v AND 0xFF)) = (ucast (take_bit 8 v) :: u32)"
    by (rule bit_word_eqI) (auto simp: bits)
  ultimately show ?thesis by (simp only: wr_be16_def mem_rd_wr offsets_ne split: if_split) auto
qed

lemma unat_u16_split: "256 * unat (drop_bit 8 v) + unat (take_bit 8 v) = unat (v :: u16)"
proof -
  have "unat (drop_bit 8 v) = unat v div 256"
    using unat_u16_lt [of v] by (simp only: unsigned_drop_bit_eq) (simp add: take_bit_nat_eq_self drop_bit_eq_div)
  moreover have "unat (take_bit 8 v) = unat v mod 256"
    by (simp only: unsigned_take_bit_eq) (simp add: take_bit_eq_mod)
  ultimately show ?thesis by simp
qed

lemma be16_wr_be16: "be16 (wr_be16 m a v) a = unat v"
  by (simp only: be16_def rd_wr_be16 offsets_ne if_True if_False refl unat_ucast_u16 unat_u16_split)

lemma be16_wr_be16_other: "b \<noteq> a \<Longrightarrow> b \<noteq> a + 1 \<Longrightarrow> b + 1 \<noteq> a \<Longrightarrow> be16 (wr_be16 m a v) b = be16 m b"
  by (simp add: be16_def rd_wr_be16)

lemma ipv4_body_sum_wr: "ipv4_body_sum (wr_be16 m (a + 24) v) a = ipv4_body_sum m a"
  by (simp add: ipv4_body_sum_def be16_sum_def lessThan_nat_numeral lessThan_Suc be16_wr_be16_other)

lemma ipv4_store_checksum:
  "ipv4_verify_checksum (wr_be16 m (a + 24) (ipv4_compute_checksum m a)) a
     = (if mem_iord_byte m (a + 25) = 0 then 1 else 0)"
proof -
  let ?l = "unat (mem_iord_byte m (a + 25))" and ?S = "ipv4_body_sum m a"
  let ?c = "65535 - oc_sum (?S + 2 * ?l)"
  have c: "unat (ipv4_compute_checksum m a) = ?c"
    by (simp only: ipv4_compute_checksum_def Let_def ucast_u16_finish unat_compute_sum)
  have l: "2 * ?l < 65535" using mem_iord_byte_lt [of m "a + 25"] by simp
  have "be16_sum (wr_be16 m (a + 24) (ipv4_compute_checksum m a)) (a + 14) 10 = ?S + ?c"
    by (simp only: be16_sum_header ipv4_body_sum_wr be16_wr_be16 c)
  moreover have "oc_sum (?S + ?c) = 0xFFFF \<longleftrightarrow> ?l = 0"
    using oc_complement_iff [OF l] by simp
  ultimately show ?thesis
    by (simp add: ipv4_verify_checksum_oc unat_eq_zero)
qed

text \<open>
  C29. Storing the computed checksum yields a header that verifies exactly when the low byte of the
  checksum field was zero before: \<open>ipv4_compute_checksum\<close> adds that byte a second time instead of
  leaving the field out of the sum. The senders of this stack clear the field first.
\<close>

theorem ipv4_checksum_roundtrip:
  "ipv4_verify_checksum (wr_be16 m (a + 24) (ipv4_compute_checksum m a)) a
     = (if mem_iord_byte m (a + 25) = 0 then 1 else 0)"
  by (rule ipv4_store_checksum)

section \<open>Halves of aligned words\<close>

lemma bit_mem_iord_byte: "bit (mem_iord_byte m a) n \<Longrightarrow> n < 8"
  using mem_rd_byte [of m a] by (metis bit_take_bit_iff)

lemma be16_word: "unat (push_bit 8 (mem_iord_byte m a) OR mem_iord_byte m (a + 1)) = be16 m a"
proof -
  have "push_bit 8 (mem_iord_byte m a) OR mem_iord_byte m (a + 1) = push_bit 8 (mem_iord_byte m a) + mem_iord_byte m (a + 1)"
    by (rule disjunctive_add [symmetric]) (auto simp: bits dest: bit_mem_iord_byte)
  then show ?thesis
    using mem_iord_byte_lt [of m a] mem_iord_byte_lt [of m "a + 1"]
    by (simp add: unat_word_ariths unat_push_8 be16_def)
qed

lemma be16_u16: "unat (ucast (push_bit 8 (mem_iord_byte m a) OR mem_iord_byte m (a + 1)) :: u16) = be16 m a"
  using be16_word [of m a] be16_le [of m a] by (simp only: unsigned_ucast_eq) (simp add: take_bit_nat_eq_self)

lemma mem_iord_halves:
  assumes "a AND 3 = 0"
  shows "mem_iord m a AND 0xFFFF = push_bit 8 (mem_iord_byte m (a + 2)) OR mem_iord_byte m (a + 3)"
    "drop_bit 16 (mem_iord m a) = push_bit 8 (mem_iord_byte m a) OR mem_iord_byte m (a + 1)"
  unfolding eb.rdw_bytes [OF assms]
  by (rule bit_word_eqI; auto simp: bits dest: bit_mem_iord_byte)+

lemma unat_mem_iord_halves:
  assumes "a AND 3 = 0"
  shows "unat (ucast (mem_iord m a AND 0xFFFF) :: u16) = be16 m (a + 2)"
    "unat (ucast (drop_bit 16 (mem_iord m a)) :: u16) = be16 m a"
  using be16_u16 [of m "a + 2"] be16_u16 [of m a] by (simp_all only: mem_iord_halves [OF assms] addr_offset(4)) simp_all

lemma ipv4_get_length_be16: "unat (ipv4_get_length m a) = be16 m (a + 16)"
proof -
  have h: "unat (ucast (mem_iord_byte m (a + 16)) :: u16) = unat (mem_iord_byte m (a + 16))"
    using mem_iord_byte_lt [of m "a + 16"] by (simp only: unsigned_ucast_eq) (simp add: take_bit_nat_eq_self)
  have "unat (push_bit 8 (ucast (mem_iord_byte m (a + 16)) :: u16)) = 256 * unat (mem_iord_byte m (a + 16))"
    using mem_iord_byte_lt [of m "a + 16"] h by (simp add: push_bit_eq_mult unat_word_ariths)
  then have "unat (ucast (push_bit 8 (ucast (mem_iord_byte m (a + 16)) :: u16)) + mem_iord_byte m (a + 17)) = be16 m (a + 16)"
    using be16_le [of m "a + 16"] by (simp add: unat_word_ariths unat_ucast_u16 be16_def)
  then show ?thesis
    using be16_le [of m "a + 16"] unfolding ipv4_get_length_def Let_def addr_offset
    by (simp only: unsigned_ucast_eq) (simp add: take_bit_nat_eq_self)
qed

end
