(* ===== verification/Eth_ICMP.thy ===== *)
theory Eth_ICMP
  imports Eth_IPv4
begin

text \<open>
  \<open>c/ethlib/icmp.c\<close>: answering echo requests. The node's own addresses \<open>my_mac\<close> and \<open>my_ip\<close> are
  globals of \<open>mac.c\<close> and \<open>ipv4.c\<close>; they extend the machine state here.
\<close>

record 'd eth_node = "'d eth_mach" +
  my_mac :: "u8 list"
  my_ip :: "u8 list"

section \<open>Fields\<close>

definition icmp_get_type :: "ethbuf \<Rightarrow> u32 \<Rightarrow> u8" where
  "icmp_get_type m pkt_addr = ucast (mem_iord_byte m (pkt_addr + 34))"

definition icmp_get_code :: "ethbuf \<Rightarrow> u32 \<Rightarrow> u8" where
  "icmp_get_code m pkt_addr = ucast (mem_iord_byte m (pkt_addr + 35))"

definition icmp_get_quench :: "ethbuf \<Rightarrow> u32 \<Rightarrow> u32" where
  "icmp_get_quench m pkt_addr = mem_iord m (pkt_addr + 38)"

section \<open>The echo reply\<close>

text \<open>The loop that copies \<open>n\<close> bytes of a frame from \<open>rx_addr\<close> to \<open>tx_addr\<close>.\<close>

definition frame_copy :: "ethbuf \<Rightarrow> u32 \<Rightarrow> u32 \<Rightarrow> nat \<Rightarrow> ethbuf" where
  "frame_copy m rx_addr tx_addr n =
     fold (\<lambda>i m. mem_iowr_byte m (tx_addr + of_nat i) (mem_iord_byte m (rx_addr + of_nat i))) [0..<n] m"

text \<open>A loop that moves the \<open>n\<close> bytes at \<open>from\<close> to \<open>to\<close> and puts an own address in their place.\<close>

definition swap_addr :: "u32 \<Rightarrow> u32 \<Rightarrow> u8 list \<Rightarrow> nat \<Rightarrow> ethbuf \<Rightarrow> ethbuf" where
  "swap_addr to from own n m =
     fold (\<lambda>i m. mem_iowr_byte (mem_iowr_byte m (to + of_nat i) (mem_iord_byte m (from + of_nat i)))
                   (from + of_nat i) (ucast (own ! i))) [0..<n] m"

definition icmp_build_ping_reply ::
    "u8 list \<Rightarrow> u8 list \<Rightarrow> u32 \<Rightarrow> u32 \<Rightarrow> ethbuf \<Rightarrow> u32 \<times> ethbuf" where
  "icmp_build_ping_reply mac ip rx_addr tx_addr m =
     (let frame_length = 14 + (push_bit 8 (mem_iord_byte m (rx_addr + 16)) OR mem_iord_byte m (rx_addr + 17));
          m = (if rx_addr \<noteq> tx_addr then frame_copy m rx_addr tx_addr (unat frame_length) else m);
          m = swap_addr tx_addr (tx_addr + 6) mac 6 m;
          m = swap_addr (tx_addr + 30) (tx_addr + 26) ip 4 m;
          m = mem_iowr_byte m (tx_addr + 34) 0x00;
          checksum = (ucast (push_bit 8 (mem_iord_byte m (tx_addr + 36)) OR mem_iord_byte m (tx_addr + 37)) :: u16);
          checksum = (ucast (NOT ((NOT (ucast checksum :: u32)) - 0x0800)) :: u16);
          m = mem_iowr_byte m (tx_addr + 36) (ucast (drop_bit 8 checksum));
          m = mem_iowr_byte m (tx_addr + 37) (ucast (checksum AND 0xff))
      in (frame_length, m))"

definition icmp_process_received ::
    "'d eth_if \<Rightarrow> u32 \<Rightarrow> u32 \<Rightarrow> ('d, 'z) eth_node_scheme \<Rightarrow> (int \<times> ('d, 'z) eth_node_scheme) option" where
  "icmp_process_received io rx_addr tx_addr s =
     (if icmp_get_type (eth_buf s) rx_addr = 0x08
      then let destination_ip = ipv4_get_destination_ip (eth_buf s) rx_addr
           in if ipv4_compare_ip destination_ip (my_ip s) \<noteq> 0
              then let (frame_length, m) = icmp_build_ping_reply (my_mac s) (my_ip s) rx_addr tx_addr (eth_buf s)
                   in do {
                        s \<leftarrow> eth_mac_send io tx_addr frame_length (s\<lparr>eth_buf := m\<rparr>);
                        Some (1, s)
                      }
              else Some (0, s)
      else Some (0, s))"

section \<open>Contents of the reply\<close>

text \<open>The bytes of a frame that a copy at \<open>tx_addr\<close> may take from \<open>rx_addr\<close>.\<close>

definition copy_safe :: "u32 \<Rightarrow> u32 \<Rightarrow> nat \<Rightarrow> bool" where
  "copy_safe rx_addr tx_addr n \<longleftrightarrow> rx_addr = tx_addr \<or> n \<le> unat (tx_addr - rx_addr)"

lemma frame_copy_rd:
  assumes "copy_safe rx tx n" "unat o' < n"
  shows "mem_iord_byte (if rx \<noteq> tx then frame_copy m rx tx n else m) (tx + o') = mem_iord_byte m (rx + o')"
  using assms eb.copy_loop [of n tx rx m "tx + o'"]
  by (auto simp: copy_safe_def frame_copy_def)

lemma swap_addr_rd:
  assumes "n \<le> unat (to - from)" "n \<le> unat (from - to)"
  shows "mem_iord_byte (swap_addr to from own n m) b
    = (if unat (b - from) < n then ucast (own ! unat (b - from))
       else if unat (b - to) < n then mem_iord_byte m (from + (b - to)) else mem_iord_byte m b)"
  using eb.swap_loop [OF assms, of "\<lambda>i. ucast (own ! i)" m b] by (simp add: swap_addr_def)

text \<open>The checksum field of the reply: \<open>0x0800\<close> more than the request's, modulo \<open>2 ^ 16\<close>.\<close>

lemma icmp_checksum_update:
  "(ucast (NOT (NOT (ucast (c :: u16) :: u32) - 0x0800)) :: u16) = c + 0x0800"
proof -
  have "NOT (NOT x - 0x0800) = x + 0x0800" for x :: u32
    by (simp add: not_eq_complement)
  moreover have "(ucast (ucast c + 0x0800 :: u32) :: u16) = c + 0x0800"
    by (simp add: unsigned_ucast_eq word_unat_eq_iff unat_word_ariths take_bit_eq_mod
        mod_mod_cancel mod_add_left_eq)
  ultimately show ?thesis by (simp only:)
qed

lemma reply_offsets:
  "tx + o1 - (tx + o2) = o1 - (o2 :: u32)" "tx + o1 - tx = (o1 :: u32)"
  by simp_all

definition icmp_checksum :: "ethbuf \<Rightarrow> u32 \<Rightarrow> u16" where
  "icmp_checksum m a = ucast (push_bit 8 (mem_iord_byte m (a + 36)) OR mem_iord_byte m (a + 37))"

lemma icmp_reply_length:
  "fst (icmp_build_ping_reply mac ip rx tx m)
     = 14 + (push_bit 8 (mem_iord_byte m (rx + 16)) OR mem_iord_byte m (rx + 17))"
  by (simp add: icmp_build_ping_reply_def Let_def)

lemma icmp_reply_rd:
  assumes "copy_safe rx tx (unat (fst (icmp_build_ping_reply mac ip rx tx m)))"
    and "38 \<le> unat (fst (icmp_build_ping_reply mac ip rx tx m))"
    and "unat k < unat (fst (icmp_build_ping_reply mac ip rx tx m))"
  shows "mem_iord_byte (snd (icmp_build_ping_reply mac ip rx tx m)) (tx + k) =
    (if k = 36 then ucast (drop_bit 8 (icmp_checksum m rx + 0x0800))
     else if k = 37 then ucast (take_bit 8 (icmp_checksum m rx + 0x0800))
     else if k = 34 then 0
     else if unat (k - 26) < 4 then ucast (ip ! unat (k - 26))
     else if unat (k - 30) < 4 then mem_iord_byte m (rx + (26 + (k - 30)))
     else if unat (k - 6) < 6 then ucast (mac ! unat (k - 6))
     else if unat k < 6 then mem_iord_byte m (rx + (6 + k))
     else mem_iord_byte m (rx + k))"
proof -
  define L where "L = fst (icmp_build_ping_reply mac ip rx tx m)"
  define m1 where "m1 = (if rx \<noteq> tx then frame_copy m rx tx (unat L) else m)"
  define m2 where "m2 = swap_addr tx (tx + 6) mac 6 m1"
  define m3 where "m3 = swap_addr (tx + 30) (tx + 26) ip 4 m2"
  have L: "L = 14 + (push_bit 8 (mem_iord_byte m (rx + 16)) OR mem_iord_byte m (rx + 17))"
    by (simp only: L_def icmp_reply_length)
  have m1: "mem_iord_byte m1 (tx + j) = mem_iord_byte m (rx + j)" if "unat j < unat L" for j
    using frame_copy_rd [OF assms(1) [folded L_def] that] by (simp add: m1_def)
  have m2: "mem_iord_byte m2 (tx + j) =
    (if unat (j - 6) < 6 then ucast (mac ! unat (j - 6))
     else if unat j < 6 then mem_iord_byte m1 (tx + (6 + j))
     else mem_iord_byte m1 (tx + j))" for j
    unfolding m2_def by (subst swap_addr_rd) (simp_all add: add.assoc)
  have m3: "mem_iord_byte m3 (tx + j) =
    (if unat (j - 26) < 4 then ucast (ip ! unat (j - 26))
     else if unat (j - 30) < 4 then mem_iord_byte m2 (tx + (26 + (j - 30)))
     else mem_iord_byte m2 (tx + j))" for j
    unfolding m3_def by (subst swap_addr_rd) (simp_all add: add.assoc)
  have low: "\<not> unat (26 + i - 6) < 6" "\<not> unat (26 + i) < 6" if "unat i < 4" for i :: u32
    using that by (simp_all add: unat_word_ariths)
  have m3': "mem_iord_byte m3 (tx + j) =
    (if unat (j - 26) < 4 then ucast (ip ! unat (j - 26))
     else if unat (j - 30) < 4 then mem_iord_byte m1 (tx + (26 + (j - 30)))
     else if unat (j - 6) < 6 then ucast (mac ! unat (j - 6))
     else if unat j < 6 then mem_iord_byte m1 (tx + (6 + j))
     else mem_iord_byte m1 (tx + j))" for j
    unfolding m3 m2 using low [of "j - 30"] by simp
  have L12: "14 \<le> unat L" using assms(2) by (simp flip: L_def)
  have small: "unat (6 + k) < unat L" if "unat k < 6"
    using that L12 by (simp add: unat_word_ariths)
  have mid': "unat (26 + i) < unat L" if "unat i < 4" for i :: u32
    using that assms(2) by (simp add: unat_word_ariths flip: L_def)
  note mid = mid' [of "k - 30"]
  have c: "mem_iord_byte m3 (tx + 36) = mem_iord_byte m (rx + 36)" "mem_iord_byte m3 (tx + 37) = mem_iord_byte m (rx + 37)"
    using assms(2) by (simp_all add: m3' m1 flip: L_def)
  have "snd (icmp_build_ping_reply mac ip rx tx m) =
      (let m4 = mem_iowr_byte m3 (tx + 34) 0;
           c = ucast (push_bit 8 (mem_iord_byte m4 (tx + 36)) OR mem_iord_byte m4 (tx + 37)) + 0x0800
       in wr_be16 m4 (tx + 36) c)"
    by (simp add: icmp_build_ping_reply_def Let_def icmp_checksum_update wr_be16_def m3_def m2_def m1_def L)
  then have "snd (icmp_build_ping_reply mac ip rx tx m) =
      wr_be16 (mem_iowr_byte m3 (tx + 34) 0) (tx + 36) (icmp_checksum m rx + 0x0800)"
    by (simp add: mem_rd_wr c icmp_checksum_def)
  then show ?thesis
    using assms(3) small mid by (simp add: rd_wr_be16 mem_rd_wr m3' m1 flip: L_def)
qed

lemma icmp_reply_rd_payload:
  assumes "copy_safe rx tx (unat (fst (icmp_build_ping_reply mac ip rx tx m)))"
    and "38 \<le> j" "j < unat (fst (icmp_build_ping_reply mac ip rx tx m))"
  shows "mem_iord_byte (snd (icmp_build_ping_reply mac ip rx tx m)) (tx + of_nat j) = mem_iord_byte m (rx + of_nat j)"
proof -
  let ?k = "of_nat j :: u32"
  have j: "unat ?k = j"
    using assms(3) unat_u32_lt [of "fst (icmp_build_ping_reply mac ip rx tx m)"]
    by (simp add: unat_of_nat take_bit_nat_eq_self)
  have sub: "unat (?k - c) = j - unat c" if "unat c \<le> 38" for c
    using assms(2) that by (simp add: unat_sub word_le_nat_alt j)
  have ne: "?k \<noteq> 36" "?k \<noteq> 37" "?k \<noteq> 34"
    using assms(2) by (simp_all add: word_unat_eq_iff j)
  have "\<not> unat (?k - 26) < 4" "\<not> unat (?k - 30) < 4" "\<not> unat (?k - 6) < 6" "\<not> unat ?k < 6"
    using assms(2) by (simp_all add: sub j)
  then show ?thesis
    using icmp_reply_rd [OF assms(1), of ?k] assms ne j by simp
qed

lemma unat_icmp_checksum: "unat (icmp_checksum m a) = be16 m (a + 36)"
  using be16_u16 [of m "a + 36"] by (simp add: icmp_checksum_def)

text \<open>
  C24. The echo reply goes back to the sender of the request: the Ethernet and IP addresses are
  swapped for the node's own, the type becomes 0, and code, identifier, sequence number and
  data are those of the request.
\<close>

theorem icmp_build_ping_reply_frame:
  assumes "icmp_build_ping_reply mac ip rx tx m = (len, m')" "copy_safe rx tx (unat len)" "38 \<le> unat len"
    and "length mac = 6" "length ip = 4"
  shows "mac_addr_dest m' tx = mac_addr_sender m rx \<and> mac_addr_sender m' tx = mac
    \<and> ipv4_get_destination_ip m' tx = ipv4_get_source_ip m rx \<and> ipv4_get_source_ip m' tx = ip
    \<and> icmp_get_type m' tx = 0 \<and> icmp_get_code m' tx = icmp_get_code m rx
    \<and> rd_bytes m' (tx + 38) (unat len - 38) = rd_bytes m (rx + 38) (unat len - 38)"
proof (intro conjI)
  have r: "icmp_build_ping_reply mac ip rx tx m = (fst (icmp_build_ping_reply mac ip rx tx m), m')"
    "len = fst (icmp_build_ping_reply mac ip rx tx m)" "m' = snd (icmp_build_ping_reply mac ip rx tx m)"
    using assms(1) by simp_all
  note rd = icmp_reply_rd [of rx tx mac ip m, folded r(2,3), OF assms(2,3)]
  have rd0: "mem_iord_byte m' tx = mem_iord_byte m (rx + 6)"
    using rd [of 0] assms(3) by simp
  show "mac_addr_dest m' tx = mac_addr_sender m rx"
    using assms(3) by (simp add: mac_addr_dest_def mac_addr_sender_def rd rd0)
  show "mac_addr_sender m' tx = mac"
    using assms(3,4) by (simp add: mac_addr_sender_def rd list_eq_6)
  show "ipv4_get_destination_ip m' tx = ipv4_get_source_ip m rx" "ipv4_get_source_ip m' tx = ip"
    using assms(3,5) by (simp_all add: ipv4_get_destination_ip_def ipv4_get_source_ip_def rd_bytes_4 rd list_eq_4)
  show "icmp_get_type m' tx = 0" "icmp_get_code m' tx = icmp_get_code m rx"
    using assms(3) by (simp_all add: icmp_get_type_def icmp_get_code_def rd)
  have "mem_iord_byte m' (tx + 38 + of_nat i) = mem_iord_byte m (rx + 38 + of_nat i)"
    if "i < unat len - 38" for i
    using icmp_reply_rd_payload [of rx tx mac ip m "38 + i", folded r(2,3), OF assms(2)] that
    by (simp add: add.assoc)
  then show "rd_bytes m' (tx + 38) (unat len - 38) = rd_bytes m (rx + 38) (unat len - 38)"
    by (simp add: rd_bytes_def)
qed

lemma icmp_reply_sum:
  assumes "icmp_build_ping_reply mac ip rx tx m = (len, m')" "copy_safe rx tx (unat len)"
    and "2 \<le> n" "34 + 2 * n \<le> unat len" "icmp_get_type m rx = 8"
  shows "be16_sum m' (tx + 34) n + 0x0800 + be16 m (rx + 36)
    = be16_sum m (rx + 34) n + unat (icmp_checksum m rx + 0x0800)"
proof -
  have r: "len = fst (icmp_build_ping_reply mac ip rx tx m)" "m' = snd (icmp_build_ping_reply mac ip rx tx m)"
    using assms(1) by simp_all
  have len: "38 \<le> unat len" using assms(3,4) by simp
  note rd = icmp_reply_rd [of rx tx mac ip m, folded r, OF assms(2) len]
  have ty: "unat (mem_iord_byte m (rx + 34)) = 8"
    using assms(5) mem_iord_byte_lt [of m "rx + 34"]
    by (simp add: icmp_get_type_def word_unat_eq_iff unsigned_ucast_eq take_bit_nat_eq_self)
  have first: "be16 m' (tx + 34) + 0x0800 = be16 m (rx + 34)"
    using len by (simp add: be16_def rd ty)
  have second: "be16 m' (tx + 36) = unat (icmp_checksum m rx + 0x0800)"
    using len by (simp add: be16_def rd unat_u16_split)
  obtain k where n: "n = k + 2" using assms(3) by (metis add.commute le_Suc_ex)
  have rest: "be16 m' (tx + 34 + of_nat (2 * (j + 2))) = be16 m (rx + 34 + of_nat (2 * (j + 2)))" if "j < k" for j
    using icmp_reply_rd_payload [of rx tx mac ip m "38 + 2 * j", folded r, OF assms(2)]
      icmp_reply_rd_payload [of rx tx mac ip m "39 + 2 * j", folded r, OF assms(2)] that assms(4) n
    by (simp add: be16_def add.assoc)
  have split: "be16_sum mm (a + 34) n = be16 mm (a + 34) + be16 mm (a + 36)
      + (\<Sum>j<k. be16 mm (a + 34 + of_nat (2 * (j + 2))))" for mm a
    unfolding n be16_sum_def by (simp only: add_2_eq_Suc' sum.lessThan_Suc_shift) simp
  show ?thesis
    unfolding split [of m' tx] split [of m rx] using first second rest by (simp add: be16_def)
qed

text \<open>
  C31. The checksum of the reply. For a request whose ICMP message has a valid checksum, the reply has
  a valid one exactly when the request's checksum field is below \<open>0xF800\<close>: the update adds
  \<open>0x0800\<close> without the end-around carry.
\<close>

theorem icmp_reply_checksum_valid_iff:
  assumes "icmp_build_ping_reply mac ip rx tx m = (len, m')" "copy_safe rx tx (unat len)"
    and "2 \<le> n" "34 + 2 * n \<le> unat len" "icmp_get_type m rx = 8"
    and valid: "oc_sum (be16_sum m (rx + 34) n) = 0xFFFF"
  shows "oc_sum (be16_sum m' (tx + 34) n) = 0xFFFF \<longleftrightarrow> be16 m (rx + 36) < 0xF800"
proof -
  let ?S = "be16_sum m (rx + 34) n" and ?S' = "be16_sum m' (tx + 34) n" and ?c = "be16 m (rx + 36)"
  note eq = icmp_reply_sum [OF assms(1-5)]
  have c: "?c < 65536" using be16_le [of m "rx + 36"] by simp
  have c': "unat (icmp_checksum m rx + 0x0800) = (if ?c < 0xF800 then ?c + 0x0800 else ?c + 0x0800 - 65536)"
    using c by (simp add: unat_word_ariths unat_icmp_checksum mod_if)
  have "?S \<noteq> 0" "?S mod 65535 = 0" using valid by (simp_all add: oc_sum_65535_iff)
  show ?thesis
  proof (cases "?c < 0xF800")
    case True
    then have "?S' = ?S" using eq c' by simp
    with True valid show ?thesis by simp
  next
    case False
    then have "?S = ?S' + 65536" using eq c' by simp
    then have "?S = Suc ?S' + 65535" by simp
    then have "Suc ?S' mod 65535 = 0" using \<open>?S mod 65535 = 0\<close> by (simp only: mod_add_self2)
    then have "?S' mod 65535 \<noteq> 0" by (auto simp: mod_Suc split: if_splits)
    with False show ?thesis by (simp add: oc_sum_65535_iff)
  qed
qed

section \<open>A concrete request\<close>

text \<open>An echo request of eight ICMP bytes at address 0, from 192.168.24.1 to 192.168.24.50.\<close>

definition ping_request :: ethbuf where
  "ping_request i =
     (let ws = [0x00806EF0, 0xDA420011, 0x22334455, 0x08004500, 0x001C0001, 0x00004001,
                0x0000C0A8, 0x1801C0A8, 0x18320800, 0xE5CA1234, 0x00010000]
      in if unat i < 11 then ws ! unat i else 0)"

abbreviation (input) "ping_mac \<equiv> [0x00, 0x80, 0x6e, 0xF0, 0xDA, 0x42 :: u8]"
abbreviation (input) "ping_ip \<equiv> [192, 168, 24, 50 :: u8]"

lemma ping_reply_length: "fst (icmp_build_ping_reply ping_mac ping_ip 0 0x800 ping_request) = 42"
  by (simp add: icmp_reply_length buf_eval ping_request_def)

lemma ping_copy_safe: "copy_safe 0 0x800 42"
  by (simp add: copy_safe_def)

lemma ping_request_valid: "icmp_get_type ping_request 0 = 8" "oc_sum (be16_sum ping_request 34 4) = 0xFFFF"
    "be16 ping_request 36 < 0xF800"
  by (simp_all add: icmp_get_type_def oc_sum_def be16_sum_def lessThan_nat_numeral lessThan_Suc be16_def
      buf_eval ping_request_def)

theorem icmp_build_ping_reply_frame_witness:
  "mac_addr_dest (snd (icmp_build_ping_reply ping_mac ping_ip 0 0x800 ping_request)) 0x800 = [0x00, 0x11, 0x22, 0x33, 0x44, 0x55]"
proof -
  have "mac_addr_sender ping_request 0 = [0x00, 0x11, 0x22, 0x33, 0x44, 0x55]"
    by (simp add: mac_addr_sender_def buf_eval ping_request_def)
  then show ?thesis
    using icmp_build_ping_reply_frame [OF prod.collapse [symmetric], of 0 "0x800" ping_mac ping_ip ping_request]
    by (simp add: ping_reply_length ping_copy_safe)
qed

theorem icmp_reply_checksum_valid_iff_witness:
  "oc_sum (be16_sum (snd (icmp_build_ping_reply ping_mac ping_ip 0 0x800 ping_request)) (0x800 + 34) 4) = 0xFFFF"
  using icmp_reply_checksum_valid_iff [OF prod.collapse [symmetric], of 0 "0x800" ping_mac ping_ip ping_request 4]
    ping_request_valid
  by (simp add: ping_reply_length ping_copy_safe)

end
