(* ===== verification/Eth_ARP.thy ===== *)
theory Eth_ARP
  imports Eth_ICMP
begin

text \<open>
  \<open>c/ethlib/arp.c\<close>: the ARP table, an array of \<open>ARP_TABLE_SIZE\<close> entries searched linearly, and the
  ARP protocol on top of it. The table is specified as a bounded map from IP to MAC addresses
  (locale \<open>address_map\<close>), which the array operations implement.
\<close>

section \<open>The table\<close>

record arp_table_entry =
  used :: u8
  ip_addr :: "u8 list"
  mac_addr :: "u8 list"

abbreviation (input) ARP_TABLE_SIZE :: nat where "ARP_TABLE_SIZE \<equiv> 8"

record 'd arp_node = "'d eth_node" +
  arp_table :: "arp_table_entry list"

text \<open>The condition of the \<open>if\<close> in the search and delete loops.\<close>

definition arp_entry_match :: "arp_table_entry \<Rightarrow> u8 list \<Rightarrow> bool" where
  "arp_entry_match e ip \<longleftrightarrow> used e = 1 \<and> ip_addr e ! 0 = ip ! 0 \<and> ip_addr e ! 1 = ip ! 1
     \<and> ip_addr e ! 2 = ip ! 2 \<and> ip_addr e ! 3 = ip ! 3"

definition arp_table_init :: "arp_table_entry list \<Rightarrow> arp_table_entry list" where
  "arp_table_init tab = fold (\<lambda>i t. t[i := (t ! i)\<lparr>used := 0\<rparr>]) [0..<ARP_TABLE_SIZE] tab"

fun arp_search_loop :: "arp_table_entry list \<Rightarrow> u8 list \<Rightarrow> u8 list \<Rightarrow> nat list \<Rightarrow> int \<times> u8 list" where
  "arp_search_loop tab ip mac [] = (0, mac)"
| "arp_search_loop tab ip mac (i # is) =
     (if arp_entry_match (tab ! i) ip
      then (1, fold (\<lambda>j mac. mac[j := mac_addr (tab ! i) ! j]) [0..<6] mac)
      else arp_search_loop tab ip mac is)"

definition arp_table_search :: "arp_table_entry list \<Rightarrow> u8 list \<Rightarrow> u8 list \<Rightarrow> int \<times> u8 list" where
  "arp_table_search tab ip mac = arp_search_loop tab ip mac [0..<ARP_TABLE_SIZE]"

definition arp_table_delete_entry :: "arp_table_entry list \<Rightarrow> u8 list \<Rightarrow> int \<times> arp_table_entry list" where
  "arp_table_delete_entry tab ip =
     fold (\<lambda>i (ans, t). if arp_entry_match (t ! i) ip then (1, t[i := (t ! i)\<lparr>used := 0\<rparr>]) else (ans, t))
       [0..<ARP_TABLE_SIZE] (0, tab)"

text \<open>
  The loop \<open>while (arp_table[i].used == 1 && i < ARP_TABLE_SIZE) i++\<close>. The source reads the entry
  before it tests the index: for a full table it reads one entry past the array, and the loop ends
  there whatever that entry holds.
\<close>

function arp_free_slot :: "arp_table_entry list \<Rightarrow> nat \<Rightarrow> nat" where
  "arp_free_slot tab i = (if i < ARP_TABLE_SIZE \<and> used (tab ! i) = 1 then arp_free_slot tab (i + 1) else i)"
  by auto
termination
  by (relation "measure (\<lambda>(tab, i). ARP_TABLE_SIZE - i)") auto

declare arp_free_slot.simps [simp del]

definition arp_table_new_entry :: "arp_table_entry list \<Rightarrow> u8 list \<Rightarrow> u8 list \<Rightarrow> arp_table_entry list" where
  "arp_table_new_entry tab ip mac =
     (let previous_mac = replicate 6 0;
          tab = (if fst (arp_table_search tab ip previous_mac) = 1 then snd (arp_table_delete_entry tab ip) else tab);
          i = arp_free_slot tab 0;
          i = (if i = ARP_TABLE_SIZE then 0 else i);
          tab = tab[i := (tab ! i)\<lparr>used := 1\<rparr>];
          tab = fold (\<lambda>j t. t[i := (t ! i)\<lparr>ip_addr := (ip_addr (t ! i))[j := ip ! j]\<rparr>]) [0..<4] tab
      in fold (\<lambda>j t. t[i := (t ! i)\<lparr>mac_addr := (mac_addr (t ! i))[j := mac ! j]\<rparr>]) [0..<6] tab)"

section \<open>The table as a map\<close>

text \<open>
  The invariant: the array has its size, the address arrays have theirs, and no two entries in
  use have the same IP address.
\<close>

definition arp_inv :: "arp_table_entry list \<Rightarrow> bool" where
  "arp_inv tab \<longleftrightarrow> length tab = ARP_TABLE_SIZE
     \<and> (\<forall>e\<in>set tab. length (ip_addr e) = 4 \<and> length (mac_addr e) = 6)
     \<and> (\<forall>i<ARP_TABLE_SIZE. \<forall>j<ARP_TABLE_SIZE. used (tab ! i) = 1 \<and> used (tab ! j) = 1
           \<and> ip_addr (tab ! i) = ip_addr (tab ! j) \<longrightarrow> i = j)"

definition arp_lookup :: "arp_table_entry list \<Rightarrow> u8 list \<Rightarrow> u8 list option" where
  "arp_lookup tab ip =
     (case arp_table_search tab ip (replicate 6 0) of (r, mac) \<Rightarrow> if r = 1 then Some mac else None)"

text \<open>
  The contract: what a search finds after an insertion or a deletion. An insertion may evict one
  other address; it never invents or changes one.
\<close>

locale address_map =
  fixes lookup :: "'t \<Rightarrow> 'ip \<Rightarrow> 'mac option"
    and insert :: "'t \<Rightarrow> 'ip \<Rightarrow> 'mac \<Rightarrow> 't"
    and delete :: "'t \<Rightarrow> 'ip \<Rightarrow> 't"
    and inv :: "'t \<Rightarrow> bool"
    and ip_ok :: "'ip \<Rightarrow> bool"
    and mac_ok :: "'mac \<Rightarrow> bool"
  assumes insert_inv: "inv t \<Longrightarrow> ip_ok i \<Longrightarrow> mac_ok x \<Longrightarrow> inv (insert t i x)"
    and delete_inv: "inv t \<Longrightarrow> ip_ok i \<Longrightarrow> inv (delete t i)"
    and lookup_insert: "inv t \<Longrightarrow> ip_ok i \<Longrightarrow> mac_ok x \<Longrightarrow> lookup (insert t i x) i = Some x"
    and lookup_insert_other: "inv t \<Longrightarrow> ip_ok i \<Longrightarrow> ip_ok j \<Longrightarrow> mac_ok x \<Longrightarrow> j \<noteq> i \<Longrightarrow>
      lookup (insert t i x) j = lookup t j \<or> lookup (insert t i x) j = None"
    and lookup_delete: "inv t \<Longrightarrow> ip_ok i \<Longrightarrow> ip_ok j \<Longrightarrow>
      lookup (delete t i) j = (if j = i then None else lookup t j)"
begin

text \<open>After any sequence of insertions a search finds the last address inserted for the IP, or nothing.\<close>

lemma inserts_inv:
  "inv t \<Longrightarrow> \<forall>(i, x)\<in>set xs. ip_ok i \<and> mac_ok x \<Longrightarrow> inv (fold (\<lambda>(i, x) t. insert t i x) xs t)"
  by (induction xs arbitrary: t) (auto simp: insert_inv)

lemma lookup_inserts:
  assumes "inv t" "\<forall>(i, x)\<in>set xs. ip_ok i \<and> mac_ok x" "ip_ok j" "lookup t j = None"
  shows "lookup (fold (\<lambda>(i, x) t. insert t i x) xs t) j \<in> {None, map_of (rev xs) j}"
  using assms(2)
proof (induction xs rule: rev_induct)
  case Nil
  then show ?case using assms by simp
next
  case (snoc p xs)
  obtain i x where p: "p = (i, x)" by fastforce
  let ?t = "fold (\<lambda>(i, x) t. insert t i x) xs t"
  have inv: "inv ?t" using snoc.prems assms(1) by (intro inserts_inv) auto
  show ?case
  proof (cases "j = i")
    case True
    then show ?thesis using inv snoc.prems by (simp add: p lookup_insert)
  next
    case False
    then show ?thesis
      using snoc lookup_insert_other [OF inv _ assms(3), of i x] by (auto simp: p)
  qed
qed

end

text \<open>The array operations over lists.\<close>

lemma fold_upd_array:
  "length xs = n \<Longrightarrow> length ys = n \<Longrightarrow> fold (\<lambda>j xs. xs[j := ys ! j]) [0..<n] xs = ys"
proof -
  have "fold (\<lambda>j xs. xs[j := ys ! j]) [0..<k] xs = take k ys @ drop k xs"
    if "k \<le> n" "length xs = n" "length ys = n" for k
    using that
    by (induction k) (auto simp: take_Suc_conv_app_nth list_update_append upd_conv_take_nth_drop
        simp flip: Cons_nth_drop_Suc)
  then show "length xs = n \<Longrightarrow> length ys = n \<Longrightarrow> ?thesis" by simp
qed

lemma arp_entry_match_iff:
  "length (ip_addr e) = 4 \<Longrightarrow> length ip = 4 \<Longrightarrow> arp_entry_match e ip \<longleftrightarrow> used e = 1 \<and> ip_addr e = ip"
  by (simp add: arp_entry_match_def list_eq_4)

lemma arp_search_loop_find:
  assumes "\<forall>i\<in>set is. i < length tab" "\<forall>e\<in>set tab. length (mac_addr e) = 6" "length mac = 6"
  shows "arp_search_loop tab ip mac is =
    (case find (\<lambda>e. arp_entry_match e ip) (map ((!) tab) is) of None \<Rightarrow> (0, mac) | Some e \<Rightarrow> (1, mac_addr e))"
  using assms by (induction "is") (auto simp: fold_upd_array)

lemma arp_table_search_find:
  assumes "length tab = ARP_TABLE_SIZE" "\<forall>e\<in>set tab. length (mac_addr e) = 6" "length mac = 6"
  shows "arp_table_search tab ip mac =
    (case find (\<lambda>e. arp_entry_match e ip) tab of None \<Rightarrow> (0, mac) | Some e \<Rightarrow> (1, mac_addr e))"
proof -
  have "map ((!) tab) [0..<ARP_TABLE_SIZE] = tab" using assms(1) by (metis map_nth)
  then show ?thesis
    using arp_search_loop_find [of "[0..<ARP_TABLE_SIZE]" tab mac ip] assms by (simp add: arp_table_search_def)
qed

lemma arp_lookup_find:
  "arp_inv tab \<Longrightarrow> arp_lookup tab ip = map_option mac_addr (find (\<lambda>e. arp_entry_match e ip) tab)"
  by (simp add: arp_lookup_def arp_inv_def arp_table_search_find split: option.split)

definition arp_unuse :: "u8 list \<Rightarrow> arp_table_entry \<Rightarrow> arp_table_entry" where
  "arp_unuse ip e = (if arp_entry_match e ip then e\<lparr>used := 0\<rparr> else e)"

lemma arp_delete_fold:
  assumes "k \<le> length tab"
  shows "fold (\<lambda>i (ans, t). if arp_entry_match (t ! i) ip then (1, t[i := (t ! i)\<lparr>used := 0\<rparr>]) else (ans, t))
       [0..<k] (0 :: int, tab)
    = (if \<exists>e\<in>set (take k tab). arp_entry_match e ip then 1 else 0, map (arp_unuse ip) (take k tab) @ drop k tab)"
  using assms
proof (induction k)
  case 0
  then show ?case by simp
next
  case (Suc k)
  then have k: "k < length tab" by simp
  let ?t = "map (arp_unuse ip) (take k tab) @ tab ! k # drop (Suc k) tab"
  have nth: "?t ! k = tab ! k" using k by (simp add: nth_append)
  have upd: "?t[k := x] = map (arp_unuse ip) (take k tab) @ x # drop (Suc k) tab" for x
    using k by (simp add: list_update_append)
  have drop: "drop k tab = tab ! k # drop (Suc k) tab" using k by (simp add: Cons_nth_drop_Suc)
  show ?case
    using Suc k by (simp add: nth upd take_Suc_conv_app_nth arp_unuse_def [of ip "tab ! k"] drop)
qed

lemma arp_table_delete_entry_eq:
  "length tab = ARP_TABLE_SIZE \<Longrightarrow> arp_table_delete_entry tab ip
    = (if \<exists>e\<in>set tab. arp_entry_match e ip then 1 else 0, map (arp_unuse ip) tab)"
  using arp_delete_fold [of ARP_TABLE_SIZE tab ip] by (simp add: arp_table_delete_entry_def)

lemma find_map_restrict:
  "\<forall>e\<in>set xs. P (f e) \<longleftrightarrow> Q \<and> P e \<Longrightarrow> \<forall>e\<in>set xs. Q \<and> P e \<longrightarrow> f e = e \<Longrightarrow>
    find P (map f xs) = (if Q then find P xs else None)"
  by (induction xs) auto

lemma find_map_unuse:
  assumes "\<forall>e\<in>set tab. length (ip_addr e) = 4" "length ip = 4" "length jp = 4"
  shows "find (\<lambda>e. arp_entry_match e jp) (map (arp_unuse ip) tab)
    = (if jp \<noteq> ip then find (\<lambda>e. arp_entry_match e jp) tab else None)"
  by (rule find_map_restrict) (use assms in \<open>auto simp: arp_unuse_def arp_entry_match_iff\<close>)

lemma find_update_hit:
  "i < length xs \<Longrightarrow> P y \<Longrightarrow> \<forall>x\<in>set xs. \<not> P x \<Longrightarrow> find P (xs[i := y]) = Some y"
proof (induction xs arbitrary: i)
  case (Cons x xs)
  then show ?case by (cases i) simp_all
qed simp

lemma find_update_miss:
  "i < length xs \<Longrightarrow> \<not> P y \<Longrightarrow> \<not> P (xs ! i) \<Longrightarrow> find P (xs[i := y]) = find P xs"
proof (induction xs arbitrary: i)
  case (Cons x xs)
  then show ?case by (cases i) simp_all
qed simp

lemma find_SomeD: "find P xs = Some x \<Longrightarrow> x \<in> set xs \<and> P x"
  by (induction xs) (auto split: if_splits)

lemma arp_free_slot_first:
  "i \<le> ARP_TABLE_SIZE \<Longrightarrow> i \<le> arp_free_slot tab i \<and> arp_free_slot tab i \<le> ARP_TABLE_SIZE
     \<and> (\<forall>k. i \<le> k \<and> k < arp_free_slot tab i \<longrightarrow> used (tab ! k) = 1)
     \<and> (arp_free_slot tab i < ARP_TABLE_SIZE \<longrightarrow> used (tab ! arp_free_slot tab i) \<noteq> 1)"
proof (induction tab i rule: arp_free_slot.induct)
  case (1 tab i)
  show ?case
  proof (cases "i < ARP_TABLE_SIZE \<and> used (tab ! i) = 1")
    case True
    with 1 have "Suc i \<le> arp_free_slot tab (Suc i) \<and> arp_free_slot tab (Suc i) \<le> ARP_TABLE_SIZE
     \<and> (\<forall>k. Suc i \<le> k \<and> k < arp_free_slot tab (Suc i) \<longrightarrow> used (tab ! k) = 1)
     \<and> (arp_free_slot tab (Suc i) < ARP_TABLE_SIZE \<longrightarrow> used (tab ! arp_free_slot tab (Suc i)) \<noteq> 1)"
      by simp
    moreover have "arp_free_slot tab i = arp_free_slot tab (Suc i)"
      using True by (subst arp_free_slot.simps) simp
    moreover have "k = i \<or> Suc i \<le> k" if "i \<le> k" for k using that by auto
    ultimately show ?thesis using True by (metis Suc_leD)
  next
    case False
    then have "arp_free_slot tab i = i" by (subst arp_free_slot.simps) auto
    with False 1(2) show ?thesis by auto
  qed
qed

text \<open>The slot an insertion takes, and the entry it writes there.\<close>

definition arp_slot :: "arp_table_entry list \<Rightarrow> nat" where
  "arp_slot tab = (let i = arp_free_slot tab 0 in if i = ARP_TABLE_SIZE then 0 else i)"

lemma arp_slot_lt: "arp_slot tab < ARP_TABLE_SIZE"
  using arp_free_slot_first [of 0 tab] by (auto simp: arp_slot_def Let_def)

lemma arp_slot_used: "used (tab ! arp_slot tab) = 1 \<Longrightarrow> arp_slot tab = 0 \<and> (\<forall>k<ARP_TABLE_SIZE. used (tab ! k) = 1)"
  using arp_free_slot_first [of 0 tab] by (auto simp: arp_slot_def Let_def split: if_splits)

lemma fold_update_slot:
  assumes "i < length tab"
  shows "fold (\<lambda>j t. t[i := g j (t ! i)]) js tab = tab[i := fold g js (tab ! i)]"
  using assms by (induction js arbitrary: tab) auto

lemma fold_ip_addr:
  "fold (\<lambda>j e. e\<lparr>ip_addr := (ip_addr e)[j := ip ! j]\<rparr>) js e
    = e\<lparr>ip_addr := fold (\<lambda>j xs. xs[j := ip ! j]) js (ip_addr e)\<rparr>"
  by (induction js arbitrary: e) auto

lemma fold_mac_addr:
  "fold (\<lambda>j e. e\<lparr>mac_addr := (mac_addr e)[j := mac ! j]\<rparr>) js e
    = e\<lparr>mac_addr := fold (\<lambda>j xs. xs[j := mac ! j]) js (mac_addr e)\<rparr>"
  by (induction js arbitrary: e) auto

lemma arp_entry_upd:
  "e\<lparr>used := u, ip_addr := ip, mac_addr := mac\<rparr> = \<lparr>used = u, ip_addr = ip, mac_addr = mac\<rparr>"
  by (cases e) simp

text \<open>The table an insertion starts from: no entry in use has the new IP address.\<close>

definition arp_cleared :: "arp_table_entry list \<Rightarrow> u8 list \<Rightarrow> arp_table_entry list" where
  "arp_cleared tab ip = (if \<exists>e\<in>set tab. arp_entry_match e ip then map (arp_unuse ip) tab else tab)"

lemma arp_table_new_entry_eq:
  assumes "arp_inv tab" "length ip = 4" "length mac = 6"
  shows "arp_table_new_entry tab ip mac
    = (arp_cleared tab ip)[arp_slot (arp_cleared tab ip) := \<lparr>used = 1, ip_addr = ip, mac_addr = mac\<rparr>]"
proof -
  have len: "length tab = ARP_TABLE_SIZE" and sizes: "\<forall>e\<in>set tab. length (ip_addr e) = 4 \<and> length (mac_addr e) = 6"
    using assms(1) by (auto simp: arp_inv_def)
  have "fst (arp_table_search tab ip (replicate 6 0)) = 1 \<longleftrightarrow> (\<exists>e\<in>set tab. arp_entry_match e ip)"
    using len sizes by (auto simp: arp_table_search_find find_None_iff split: option.split dest!: find_SomeD)
  then have cl: "(if fst (arp_table_search tab ip (replicate 6 0)) = 1 then snd (arp_table_delete_entry tab ip) else tab)
      = arp_cleared tab ip"
    by (simp add: arp_cleared_def arp_table_delete_entry_eq len)
  let ?t = "arp_cleared tab ip" and ?i = "arp_slot (arp_cleared tab ip)"
  have t: "length ?t = ARP_TABLE_SIZE" using len by (simp add: arp_cleared_def)
  have e: "length (ip_addr (?t ! ?i)) = 4" "length (mac_addr (?t ! ?i)) = 6"
  proof -
    have "\<forall>e\<in>set ?t. length (ip_addr e) = 4 \<and> length (mac_addr e) = 6"
      using sizes by (auto simp: arp_cleared_def arp_unuse_def)
    then show "length (ip_addr (?t ! ?i)) = 4" "length (mac_addr (?t ! ?i)) = 6"
      using arp_slot_lt [of ?t] t by simp_all
  qed
  show ?thesis
    unfolding arp_table_new_entry_def Let_def cl arp_slot_def [unfolded Let_def, symmetric]
    using t e arp_slot_lt [of ?t] assms(2,3)
    by (simp add: fold_update_slot [where g = "\<lambda>j e. e\<lparr>ip_addr := (ip_addr e)[j := ip ! j]\<rparr>"]
        fold_update_slot [where g = "\<lambda>j e. e\<lparr>mac_addr := (mac_addr e)[j := mac ! j]\<rparr>"]
        fold_ip_addr fold_mac_addr fold_upd_array arp_entry_upd)
qed

lemma arp_inv_match:
  assumes "arp_inv tab" "length ip = 4" "e \<in> set tab"
  shows "arp_entry_match e ip \<longleftrightarrow> used e = 1 \<and> ip_addr e = ip"
  using assms by (intro arp_entry_match_iff) (auto simp: arp_inv_def)

lemma arp_inv_unique:
  "arp_inv tab \<Longrightarrow> i < ARP_TABLE_SIZE \<Longrightarrow> j < ARP_TABLE_SIZE \<Longrightarrow> used (tab ! i) = 1 \<Longrightarrow> used (tab ! j) = 1 \<Longrightarrow>
    ip_addr (tab ! i) = ip_addr (tab ! j) \<Longrightarrow> i = j"
  by (simp add: arp_inv_def)

lemma arp_inv_unuse: "arp_inv tab \<Longrightarrow> arp_inv (map (arp_unuse ip) tab)"
  by (auto simp: arp_inv_def arp_unuse_def split: if_splits)

lemma arp_inv_cleared: "arp_inv tab \<Longrightarrow> arp_inv (arp_cleared tab ip)"
  by (simp add: arp_cleared_def arp_inv_unuse)

lemma arp_cleared_no_match:
  assumes "arp_inv tab" "length ip = 4" "e \<in> set (arp_cleared tab ip)"
  shows "\<not> arp_entry_match e ip"
  using assms arp_inv_match [OF assms(1,2)]
  by (auto simp: arp_cleared_def arp_unuse_def arp_inv_def arp_entry_match_iff split: if_splits)

lemma arp_inv_new_entry:
  assumes "arp_inv tab" "length ip = 4" "length mac = 6"
  shows "arp_inv (arp_table_new_entry tab ip mac)"
proof -
  let ?t = "arp_cleared tab ip" and ?x = "\<lparr>used = 1, ip_addr = ip, mac_addr = mac\<rparr>"
  have t: "arp_inv ?t" using assms(1) by (rule arp_inv_cleared)
  have "\<forall>e\<in>set ?t. used e = 1 \<longrightarrow> ip_addr e \<noteq> ip"
    using arp_cleared_no_match [OF assms(1,2)] arp_inv_match [OF t assms(2)] by blast
  then have "\<forall>i<ARP_TABLE_SIZE. used (?t ! i) = 1 \<longrightarrow> ip_addr (?t ! i) \<noteq> ip"
    using t by (simp add: arp_inv_def)
  then show ?thesis
    using t assms(2,3) set_update_subset_insert [of ?t "arp_slot ?t" ?x] arp_slot_lt [of ?t]
    by (auto simp: arp_table_new_entry_eq [OF assms] arp_inv_def nth_list_update split: if_splits)
qed

lemma arp_cleared_all_used:
  assumes "\<forall>e\<in>set (arp_cleared tab ip). used e = 1"
  shows "\<forall>e\<in>set tab. \<not> arp_entry_match e ip"
proof (intro ballI notI)
  fix e assume e: "e \<in> set tab" "arp_entry_match e ip"
  then have "arp_unuse ip e \<in> set (arp_cleared tab ip)" by (auto simp: arp_cleared_def)
  with assms have "used (arp_unuse ip e) = 1" by blast
  with e(2) show False by (simp add: arp_unuse_def)
qed

text \<open>What a search finds after an insertion, exactly.\<close>

definition arp_evicts :: "arp_table_entry list \<Rightarrow> u8 list \<Rightarrow> u8 list \<Rightarrow> bool" where
  "arp_evicts tab ip jp \<longleftrightarrow> (\<forall>e\<in>set tab. used e = 1) \<and> arp_lookup tab ip = None \<and> ip_addr (tab ! 0) = jp"

lemma arp_lookup_new_entry:
  assumes "arp_inv tab" "length ip = 4" "length mac = 6" "length jp = 4"
  shows "arp_lookup (arp_table_new_entry tab ip mac) jp
    = (if jp = ip then Some mac else if arp_evicts tab ip jp then None else arp_lookup tab jp)"
proof -
  let ?t = "arp_cleared tab ip" and ?x = "\<lparr>used = 1, ip_addr = ip, mac_addr = mac\<rparr>"
  let ?P = "\<lambda>e. arp_entry_match e jp"
  have t: "arp_inv ?t" using assms(1) by (rule arp_inv_cleared)
  then have len: "length ?t = ARP_TABLE_SIZE" by (simp add: arp_inv_def)
  have slot: "arp_slot ?t < length ?t" by (simp add: len arp_slot_lt)
  have find: "arp_lookup (arp_table_new_entry tab ip mac) jp = map_option mac_addr (find ?P (?t[arp_slot ?t := ?x]))"
    using arp_lookup_find [OF arp_inv_new_entry [OF assms(1-3)]] by (simp add: arp_table_new_entry_eq [OF assms(1-3)])
  have x: "?P ?x \<longleftrightarrow> jp = ip" using assms by (auto simp: arp_entry_match_iff)
  show ?thesis
  proof (cases "jp = ip")
    case True
    then show ?thesis
      unfolding find using arp_cleared_no_match [OF assms(1,2)] x slot by (simp add: find_update_hit)
  next
    case ne: False
    show ?thesis
    proof (cases "?P (?t ! arp_slot ?t)")
      case True
      then have "used (?t ! arp_slot ?t) = 1" by (simp add: arp_entry_match_def)
      then have full: "arp_slot ?t = 0" "\<forall>k<ARP_TABLE_SIZE. used (?t ! k) = 1" using arp_slot_used by blast+
      then have "\<forall>e\<in>set ?t. used e = 1" using len by (auto simp: in_set_conv_nth)
      then have none: "\<forall>e\<in>set tab. \<not> arp_entry_match e ip" by (rule arp_cleared_all_used)
      then have same: "?t = tab" by (auto simp: arp_cleared_def)
      note same = same none
      have "arp_lookup tab ip = None"
        using none assms(1) by (simp add: arp_lookup_find find_None_iff)
      moreover have "ip_addr (tab ! 0) = jp"
        using True full(1) same(1) len arp_inv_match [OF assms(1,4), of "tab ! 0"] by simp
      ultimately have "arp_evicts tab ip jp"
        using \<open>\<forall>e\<in>set ?t. used e = 1\<close> same(1) by (simp add: arp_evicts_def)
      have uniq: "\<not> ?P (tab ! i)" if "0 < i" "i < ARP_TABLE_SIZE" for i
      proof
        assume "?P (tab ! i)"
        then have "used (tab ! i) = 1 \<and> ip_addr (tab ! i) = jp" "used (tab ! 0) = 1 \<and> ip_addr (tab ! 0) = jp"
          using True full(1) same(1) len that arp_inv_match [OF assms(1,4)] by simp_all
        then have "i = 0" by (intro arp_inv_unique [OF assms(1) that(2)]) simp_all
        with that show False by simp
      qed
      have "find ?P (?t[arp_slot ?t := ?x]) = None"
        using full(1) same(1) len x ne uniq
        by (auto simp: find_None_iff in_set_conv_nth nth_list_update split: if_splits)
      then show ?thesis using ne \<open>arp_evicts tab ip jp\<close> by (simp add: find)
    next
      case False
      have "find ?P ?t = find ?P tab"
        using ne assms find_map_unuse [of tab ip jp] by (simp add: arp_cleared_def arp_inv_def)
      moreover have "\<not> arp_evicts tab ip jp"
      proof
        assume ev: "arp_evicts tab ip jp"
        then have "\<forall>e\<in>set tab. \<not> arp_entry_match e ip"
          using assms(1) by (simp add: arp_evicts_def arp_lookup_find find_None_iff)
        then have same: "?t = tab" by (auto simp: arp_cleared_def)
        then have "used (?t ! arp_slot ?t) = 1" using ev slot by (simp add: arp_evicts_def)
        then have "arp_slot ?t = 0" using arp_slot_used by blast
        then have "?P (?t ! arp_slot ?t)"
          using ev same len assms(4) arp_inv_match [OF assms(1,4), of "tab ! 0"] by (simp add: arp_evicts_def)
        with False show False by simp
      qed
      ultimately show ?thesis
        using False ne x slot assms(1) by (simp add: find find_update_miss arp_lookup_find)
    qed
  qed
qed

lemma arp_delete_inv: "arp_inv tab \<Longrightarrow> arp_inv (snd (arp_table_delete_entry tab ip))"
  by (simp add: arp_table_delete_entry_eq arp_inv_unuse arp_inv_def [of tab])

lemma arp_lookup_delete:
  assumes "arp_inv tab" "length ip = 4" "length jp = 4"
  shows "arp_lookup (snd (arp_table_delete_entry tab ip)) jp = (if jp = ip then None else arp_lookup tab jp)"
proof -
  have "snd (arp_table_delete_entry tab ip) = map (arp_unuse ip) tab"
    using assms(1) by (simp add: arp_table_delete_entry_eq arp_inv_def)
  then show ?thesis
    using assms find_map_unuse [of tab ip jp] arp_inv_unuse [OF assms(1), of ip]
    by (simp add: arp_lookup_find arp_inv_def [of tab])
qed

interpretation arp: address_map arp_lookup arp_table_new_entry "\<lambda>tab ip. snd (arp_table_delete_entry tab ip)"
  arp_inv "\<lambda>ip. length ip = 4" "\<lambda>mac. length mac = 6"
  by unfold_locales (simp_all add: arp_inv_new_entry arp_delete_inv arp_lookup_new_entry arp_lookup_delete)

text \<open>
  C13. Insertion into the ARP table: afterwards a search for the inserted IP finds the inserted MAC, and
  every other IP keeps its MAC, except that a new IP in a full table replaces the first entry.
\<close>

theorem arp_new_entry_then_search:
  assumes "arp_inv tab" "length ip = 4" "length mac = 6" "length jp = 4"
  shows "arp_inv (arp_table_new_entry tab ip mac) \<and>
    arp_lookup (arp_table_new_entry tab ip mac) jp
      = (if jp = ip then Some mac else if arp_evicts tab ip jp then None else arp_lookup tab jp)"
  using arp_inv_new_entry [OF assms(1-3)] arp_lookup_new_entry [OF assms] by simp

text \<open>A table of eight zeroed entries, as after start-up.\<close>

definition arp_empty :: "arp_table_entry list" where
  "arp_empty = replicate 8 \<lparr>used = 0, ip_addr = replicate 4 0, mac_addr = replicate 6 0\<rparr>"

lemma arp_empty_inv: "arp_inv arp_empty"
  by (simp add: arp_inv_def arp_empty_def)

theorem arp_new_entry_then_search_witness:
  "arp_inv (arp_table_new_entry arp_empty [10, 0, 0, 1] [1, 2, 3, 4, 5, 6]) \<and>
    arp_lookup (arp_table_new_entry arp_empty [10, 0, 0, 1] [1, 2, 3, 4, 5, 6]) [10, 0, 0, 1] = Some [1, 2, 3, 4, 5, 6]"
  using arp_new_entry_then_search [OF arp_empty_inv, of "[10, 0, 0, 1]" "[1, 2, 3, 4, 5, 6]" "[10, 0, 0, 1]"]
  by simp

text \<open>
  C14. After any sequence of insertions into a fresh table, a search finds the MAC inserted last for that
  IP or nothing; it never finds an older or a foreign MAC.
\<close>

theorem arp_table_latest_binding:
  assumes "\<forall>(ip, mac)\<in>set xs. length ip = 4 \<and> length mac = 6" "length jp = 4"
    and "arp_inv tab" "arp_lookup tab jp = None"
  shows "arp_lookup (fold (\<lambda>(ip, mac) tab. arp_table_new_entry tab ip mac) xs tab) jp \<in> {None, map_of (rev xs) jp}"
  using arp.lookup_inserts [OF assms(3) _ assms(2) assms(4)] assms(1) by blast

theorem arp_table_latest_binding_witness:
  "arp_lookup (fold (\<lambda>(ip, mac) tab. arp_table_new_entry tab ip mac)
      [([10, 0, 0, 1], [1, 2, 3, 4, 5, 6]), ([10, 0, 0, 1], [6, 5, 4, 3, 2, 1])] arp_empty) [10, 0, 0, 1]
    \<in> {None, Some [6, 5, 4, 3, 2, 1]}"
proof -
  have "arp_lookup arp_empty [10, 0, 0, 1] = None"
    by (simp add: arp_lookup_find [OF arp_empty_inv] find_None_iff) (simp add: arp_empty_def arp_entry_match_def)
  then show ?thesis
    using arp_table_latest_binding [of "[([10, 0, 0, 1], [1, 2, 3, 4, 5, 6]), ([10, 0, 0, 1], [6, 5, 4, 3, 2, 1])]"
        "[10, 0, 0, 1]" arp_empty] arp_empty_inv by simp
qed

section \<open>The protocol\<close>

definition arp_get_target_ip :: "ethbuf \<Rightarrow> u32 \<Rightarrow> u8 list" where
  "arp_get_target_ip m pkt_addr = rd_bytes m (pkt_addr + 38) 4"

definition arp_get_target_mac :: "ethbuf \<Rightarrow> u32 \<Rightarrow> u8 list" where
  "arp_get_target_mac m pkt_addr = rd_bytes m (pkt_addr + 32) 6"

definition arp_get_sender_ip :: "ethbuf \<Rightarrow> u32 \<Rightarrow> u8 list" where
  "arp_get_sender_ip m pkt_addr = rd_bytes m (pkt_addr + 28) 4"

definition arp_get_operation :: "ethbuf \<Rightarrow> u32 \<Rightarrow> u16" where
  "arp_get_operation m pkt_addr =
     ucast (push_bit 8 (mem_iord_byte m (pkt_addr + 20)) + (mem_iord_byte m (pkt_addr + 21) AND 0xFF))"

definition arp_get_sender_mac :: "ethbuf \<Rightarrow> u32 \<Rightarrow> u8 list" where
  "arp_get_sender_mac m pkt_addr = rd_bytes m (pkt_addr + 22) 6"

definition arp_build_reply :: "u8 list \<Rightarrow> u8 list \<Rightarrow> u32 \<Rightarrow> u32 \<Rightarrow> ethbuf \<Rightarrow> u32 \<times> ethbuf" where
  "arp_build_reply mac ip rx_addr tx_addr m =
     (let frame_length = 42;
          m = (if rx_addr \<noteq> tx_addr then frame_copy m rx_addr tx_addr (unat frame_length) else m);
          m = swap_addr tx_addr (tx_addr + 6) mac 6 m;
          m = mem_iowr_byte m (tx_addr + 21) 2;
          m = swap_addr (tx_addr + 32) (tx_addr + 22) mac 6 m;
          m = swap_addr (tx_addr + 38) (tx_addr + 28) ip 4 m
      in (frame_length, m))"

definition arp_process_received ::
    "'d eth_if \<Rightarrow> u32 \<Rightarrow> u32 \<Rightarrow> ('d, 'z) arp_node_scheme \<Rightarrow> (int \<times> ('d, 'z) arp_node_scheme) option" where
  "arp_process_received io rx_addr tx_addr s =
     (let m = eth_buf s; target_ip = arp_get_target_ip m rx_addr in
      if ipv4_compare_ip target_ip (my_ip s) = 1 then
        if mem_iord_byte m (rx_addr + 21) = 0x01 then
          let (frame_length, m) = arp_build_reply (my_mac s) (my_ip s) rx_addr tx_addr m
          in do {
               s \<leftarrow> eth_mac_send io tx_addr frame_length (s\<lparr>eth_buf := m\<rparr>);
               Some (1, s)
             }
        else if mem_iord_byte m (rx_addr + 21) = 0x02 then
          let target_mac = arp_get_target_mac m rx_addr in
          if mac_compare_mac target_mac (my_mac s) = 1 then
            let sender_ip = arp_get_sender_ip m rx_addr;
                sender_mac = arp_get_sender_mac m rx_addr
            in Some (2, s\<lparr>arp_table := arp_table_new_entry (arp_table s) sender_ip sender_mac\<rparr>)
          else Some (0, s)
        else Some (0, s)
      else Some (0, s))"

definition arp_build_request :: "u8 list \<Rightarrow> u8 list \<Rightarrow> u32 \<Rightarrow> u8 list \<Rightarrow> ethbuf \<Rightarrow> u32 \<times> ethbuf" where
  "arp_build_request mac ip tx_addr target_ip m =
     (let frame_length = 42;
          m = fold (\<lambda>i m.
                let m = mem_iowr_byte m (tx_addr + of_nat i) 0xFF;
                    m = mem_iowr_byte m (tx_addr + 6 + of_nat i) (ucast (mac ! i));
                    m = mem_iowr_byte m (tx_addr + 22 + of_nat i) (ucast (mac ! i))
                in mem_iowr_byte m (tx_addr + 32 + of_nat i) 0x00) [0..<6] m;
          m = fold (\<lambda>i m.
                let m = mem_iowr_byte m (tx_addr + 28 + of_nat i) (ucast (ip ! i))
                in mem_iowr_byte m (tx_addr + 38 + of_nat i) (ucast (target_ip ! i))) [0..<4] m;
          m = mem_iowr m (tx_addr + 12) 0x08060001;
          m = mem_iowr m (tx_addr + 16) 0x08000604;
          m = mem_iowr_byte m (tx_addr + 20) 0x00;
          m = mem_iowr_byte m (tx_addr + 21) 0x01
      in (frame_length, m))"

text \<open>
  The \<open>do\<close>-\<open>while\<close> loop of \<open>arp_resolve_ip\<close>; the body yields the flag \<open>ans\<close>. The clock is read in
  the loop condition only while there is no answer.
\<close>

definition arp_resolve_step ::
    "'d eth_if \<Rightarrow> u32 \<Rightarrow> u32 \<Rightarrow> u8 list \<Rightarrow> ('d, 'z) arp_node_scheme \<Rightarrow> (u8 \<times> ('d, 'z) arp_node_scheme) option" where
  "arp_resolve_step io rx_addr tx_addr target_ip s =
     (let (frame_length, m) = arp_build_request (my_mac s) (my_ip s) tx_addr target_ip (eth_buf s)
      in do {
           s \<leftarrow> eth_mac_send io tx_addr frame_length (s\<lparr>eth_buf := m\<rparr>);
           (r, s) \<leftarrow> eth_mac_receive io rx_addr 100000 s;
           if r = 1 \<and> mac_packet_type (eth_buf s) rx_addr = ARP
           then do {
             (p, s) \<leftarrow> arp_process_received io rx_addr tx_addr s;
             Some (if p = 2 \<and> fst (arp_table_search (arp_table s) target_ip (replicate 6 0)) = 1 then 1 else 0, s)
           }
           else Some (0, s)
         })"

partial_function (option) arp_resolve_loop ::
    "'d eth_if \<Rightarrow> u32 \<Rightarrow> u32 \<Rightarrow> u8 list \<Rightarrow> u64 \<Rightarrow> u64 \<Rightarrow> ('d, 'z) arp_node_scheme
      \<Rightarrow> (u8 \<times> ('d, 'z) arp_node_scheme) option" where
  "arp_resolve_loop io rx_addr tx_addr target_ip timeout start_time s =
     do {
       (ans, s) \<leftarrow> arp_resolve_step io rx_addr tx_addr target_ip s;
       if ans = 0
       then (case get_cpu_usecs io s of (now, s) \<Rightarrow>
               if now - start_time < timeout
               then arp_resolve_loop io rx_addr tx_addr target_ip timeout start_time s
               else Some (ans, s))
       else Some (ans, s)
     }"

definition arp_resolve_ip ::
    "'d eth_if \<Rightarrow> u32 \<Rightarrow> u32 \<Rightarrow> u8 list \<Rightarrow> u64 \<Rightarrow> ('d, 'z) arp_node_scheme
      \<Rightarrow> (u8 \<times> ('d, 'z) arp_node_scheme) option" where
  "arp_resolve_ip io rx_addr tx_addr target_ip timeout s =
     (case get_cpu_usecs io s of (start_time, s) \<Rightarrow>
        arp_resolve_loop io rx_addr tx_addr target_ip timeout start_time s)"

section \<open>Frames\<close>

lemma mac_packet_type_ARP:
  "mac_packet_type m a = ARP \<longleftrightarrow> mem_iord_byte m (a + 12) = 8 \<and> (ucast (mem_iord_byte m (a + 13)) :: u8) = 6"
  by (simp add: mac_packet_type_def Let_def)

lemma arp_build_reply_frame:
  assumes "copy_safe rx tx 42" "length mac = 6" "length ip = 4"
    and def: "m' = snd (arp_build_reply mac ip rx tx m)"
  shows "mac_addr_dest m' tx = mac_addr_sender m rx" "mac_addr_sender m' tx = mac"
    "mem_iord_byte m' (tx + 12) = mem_iord_byte m (rx + 12)"
    "mem_iord_byte m' (tx + 13) = mem_iord_byte m (rx + 13)"
    "mem_iord_byte m' (tx + 20) = mem_iord_byte m (rx + 20)" "mem_iord_byte m' (tx + 21) = 2"
    "arp_get_target_mac m' tx = arp_get_sender_mac m rx" "arp_get_target_ip m' tx = arp_get_sender_ip m rx"
    "arp_get_sender_mac m' tx = mac" "arp_get_sender_ip m' tx = ip"
proof -
  define m1 where "m1 = (if rx \<noteq> tx then frame_copy m rx tx 42 else m)"
  have m1: "mem_iord_byte m1 (tx + k) = mem_iord_byte m (rx + k)" if "unat k < 42" for k
    using frame_copy_rd [OF assms(1) that] by (simp add: m1_def)
  have m10: "mem_iord_byte m1 tx = mem_iord_byte m rx" using m1 [of 0] by simp
  have m': "m' = swap_addr (tx + 38) (tx + 28) ip 4 (swap_addr (tx + 32) (tx + 22) mac 6
      (mem_iowr_byte (swap_addr tx (tx + 6) mac 6 m1) (tx + 21) 2))"
    by (simp add: def arp_build_reply_def Let_def m1_def)
  note rd = m' swap_addr_rd mem_rd_wr m1 m10
  show "mac_addr_dest m' tx = mac_addr_sender m rx" "mac_addr_sender m' tx = mac"
    using assms(2) by (simp_all add: mac_addr_dest_def mac_addr_sender_def rd list_eq_6)
  show "mem_iord_byte m' (tx + 12) = mem_iord_byte m (rx + 12)"
    "mem_iord_byte m' (tx + 13) = mem_iord_byte m (rx + 13)"
    "mem_iord_byte m' (tx + 20) = mem_iord_byte m (rx + 20)" "mem_iord_byte m' (tx + 21) = 2"
    by (simp_all add: rd)
  show "arp_get_target_mac m' tx = arp_get_sender_mac m rx" "arp_get_target_ip m' tx = arp_get_sender_ip m rx"
    by (simp_all add: arp_get_target_mac_def arp_get_sender_mac_def arp_get_target_ip_def arp_get_sender_ip_def
        rd_bytes_4 rd_bytes_6 rd)
  show "arp_get_sender_mac m' tx = mac" "arp_get_sender_ip m' tx = ip"
    using assms(2,3) by (simp_all add: arp_get_sender_mac_def arp_get_sender_ip_def rd_bytes_4 rd_bytes_6 rd
        list_eq_6 list_eq_4)
qed

lemma arp_build_request_frame:
  assumes "tx AND 3 = 0" "length mac = 6" "length ip = 4" "length target = 4"
    and def: "m' = snd (arp_build_request mac ip tx target m)"
  shows "mac_addr_dest m' tx = [0xFF, 0xFF, 0xFF, 0xFF, 0xFF, 0xFF]" "mac_addr_sender m' tx = mac"
    "mac_packet_type m' tx = ARP" "arp_get_operation m' tx = 1"
    "arp_get_sender_mac m' tx = mac" "arp_get_sender_ip m' tx = ip"
    "arp_get_target_ip m' tx = target"
proof -
  have al: "tx + k AND 3 = 0" if "k AND 3 = 0" for k using assms(1) that by (rule aligned_add)
  note rd = def arp_build_request_def Let_def upt_small rd_wrw [OF assms(1)] mem_rd_wr get_byte_def lane_def walign_def
  have rd0: "mem_iord_byte (mem_iowr mm (tx + 12) w) tx = mem_iord_byte mm tx"
    "mem_iord_byte (mem_iowr mm (tx + 16) w) tx = mem_iord_byte mm tx" for mm w
    using rd_wrw [OF assms(1), of 12 mm w 0] rd_wrw [OF assms(1), of 16 mm w 0] by (simp_all add: walign_def)
  show "mac_addr_dest m' tx = [0xFF, 0xFF, 0xFF, 0xFF, 0xFF, 0xFF]" 
    using assms by (simp add: mac_addr_dest_def rd rd0)
  show "mac_addr_sender m' tx = mac"
    using assms by (simp add: mac_addr_sender_def rd rd0 list_eq_6)
  show "mac_packet_type m' tx = ARP"
    using assms by (simp add: mac_packet_type_def rd rd0)
  show "arp_get_operation m' tx = 1"
    using assms by (simp add: arp_get_operation_def rd rd0)
  show "arp_get_sender_mac m' tx = mac" "arp_get_sender_ip m' tx = ip"
    "arp_get_target_ip m' tx = target"
    using assms by (simp_all add: arp_get_sender_mac_def arp_get_sender_ip_def arp_get_target_ip_def
      rd_bytes_4 rd_bytes_6 rd rd0 list_eq_6 list_eq_4)
qed

text \<open>Two buffers hold the same frame of \<open>n\<close> bytes.\<close>

definition same_frame :: "ethbuf \<Rightarrow> u32 \<Rightarrow> ethbuf \<Rightarrow> u32 \<Rightarrow> nat \<Rightarrow> bool" where
  "same_frame m a m' a' n \<longleftrightarrow> (\<forall>k<n. mem_iord_byte m (a + of_nat k) = mem_iord_byte m' (a' + of_nat k))"

lemma same_frameD: "same_frame m a m' a' n \<Longrightarrow> unat k < n \<Longrightarrow> mem_iord_byte m (a + k) = mem_iord_byte m' (a' + k)"
proof -
  assume "same_frame m a m' a' n" "unat k < n"
  then have "mem_iord_byte m (a + of_nat (unat k)) = mem_iord_byte m' (a' + of_nat (unat k))"
    unfolding same_frame_def by blast
  then show ?thesis by simp
qed

lemma same_frame_arp:
  assumes "same_frame m a m' a' 42"
  shows "arp_get_target_ip m a = arp_get_target_ip m' a'" "arp_get_target_mac m a = arp_get_target_mac m' a'"
    "arp_get_sender_ip m a = arp_get_sender_ip m' a'" "arp_get_sender_mac m a = arp_get_sender_mac m' a'"
    "mem_iord_byte m (a + 21) = mem_iord_byte m' (a' + 21)"
  by (simp_all add: arp_get_target_ip_def arp_get_target_mac_def arp_get_sender_ip_def arp_get_sender_mac_def
      rd_bytes_4 rd_bytes_6 same_frameD [OF assms])

lemma arp_request_op:
  "tx AND 3 = 0 \<Longrightarrow> mem_iord_byte (snd (arp_build_request mac ip tx target m)) (tx + 21) = 1"
  by (simp add: arp_build_request_def Let_def mem_rd_wr)

lemma arp_process_request:
  assumes len: "length macA = 6" "length ipA = 4" "length (my_ip sB) = 4" and al: "txA AND 3 = 0"
    and req: "same_frame (eth_buf sB) rxB (snd (arp_build_request macA ipA txA (my_ip sB) mA)) txA 42"
  shows "arp_process_received io rxB txB sB = map_option (\<lambda>s. (1, s))
      (eth_mac_send io txB 42 (sB\<lparr>eth_buf := snd (arp_build_reply (my_mac sB) (my_ip sB) rxB txB (eth_buf sB))\<rparr>))"
proof -
  note fr = arp_build_request_frame [OF al len refl] and rq = same_frame_arp [OF req]
  have "arp_get_target_ip (eth_buf sB) rxB = my_ip sB" by (simp add: rq fr)
  moreover have "mem_iord_byte (eth_buf sB) (rxB + 21) = 1" by (simp add: rq arp_request_op [OF al])
  moreover have "fst (arp_build_reply (my_mac sB) (my_ip sB) rxB txB (eth_buf sB)) = 42"
    by (simp add: arp_build_reply_def Let_def)
  ultimately show ?thesis
    using len by (simp add: arp_process_received_def ipv4_compare_ip_iff case_prod_beta map_conv_bind_option comp_def)
qed

lemma arp_process_reply:
  assumes len: "length (my_mac sA) = 6" "length (my_ip sA) = 4" "length macB = 6" "length ipB = 4" and al: "txA AND 3 = 0"
    and req: "same_frame mB rxB (snd (arp_build_request (my_mac sA) (my_ip sA) txA ipB mA)) txA 42"
    and safe: "copy_safe rxB txB 42"
    and rep: "same_frame (eth_buf sA) rxA (snd (arp_build_reply macB ipB rxB txB mB)) txB 42"
  shows "arp_process_received io rxA tx sA
      = Some (2, sA\<lparr>arp_table := arp_table_new_entry (arp_table sA) ipB macB\<rparr>)"
proof -
  note fr = arp_build_request_frame [OF al len(1,2,4) refl] and fp = arp_build_reply_frame [OF safe len(3,4) refl]
  note rq = same_frame_arp [OF req] and rp = same_frame_arp [OF rep]
  have "arp_get_sender_ip (eth_buf sA) rxA = ipB" "arp_get_sender_mac (eth_buf sA) rxA = macB"
    "arp_get_target_ip (eth_buf sA) rxA = my_ip sA" "arp_get_target_mac (eth_buf sA) rxA = my_mac sA"
    "mem_iord_byte (eth_buf sA) (rxA + 21) = 2"
    by (simp_all add: rp fp rq fr)
  then show ?thesis
    using len by (simp add: arp_process_received_def ipv4_compare_ip_iff mac_compare_mac_iff)
qed

text \<open>
  C15. The ARP exchange. A node A builds a request for the IP address of B; B receives these bytes and
  processes them: it sends the reply it built and returns 1. A receives the bytes of the reply
  and processes them: it returns 2, and its table is updated with the address pair of B.
\<close>

theorem arp_exchange:
  assumes "length (my_mac sA) = 6" "length (my_ip sA) = 4" "length (my_mac sB) = 6" "length (my_ip sB) = 4"
    and "txA AND 3 = 0"
    and "same_frame (eth_buf sB) rxB (snd (arp_build_request (my_mac sA) (my_ip sA) txA (my_ip sB) mA)) txA 42"
    and "copy_safe rxB txB 42"
    and "same_frame (eth_buf sA) rxA (snd (arp_build_reply (my_mac sB) (my_ip sB) rxB txB (eth_buf sB))) txB 42"
  shows "arp_process_received io rxB txB sB = map_option (\<lambda>s. (1, s))
      (eth_mac_send io txB 42 (sB\<lparr>eth_buf := snd (arp_build_reply (my_mac sB) (my_ip sB) rxB txB (eth_buf sB))\<rparr>))
    \<and> arp_process_received io rxA txA sA
      = Some (2, sA\<lparr>arp_table := arp_table_new_entry (arp_table sA) (my_ip sB) (my_mac sB)\<rparr>)"
  using arp_process_request [OF assms(1,2,4,5,6)] arp_process_reply [OF assms] by blast

lemma arp_resolve_step_found:
  assumes "arp_resolve_step io rx_addr tx_addr target_ip s = Some (ans, s')" "ans \<noteq> 0"
  shows "fst (arp_table_search (arp_table s') target_ip (replicate 6 0)) = 1"
  using assms by (auto simp: arp_resolve_step_def Let_def split: prod.splits bind_splits if_splits)

lemma arp_resolve_loop_found:
  assumes "arp_resolve_loop io rx_addr tx_addr target_ip timeout start_time s = Some (ans, s')" "ans \<noteq> 0"
  shows "fst (arp_table_search (arp_table s') target_ip (replicate 6 0)) = 1"
proof -
  have "fst y \<noteq> 0 \<longrightarrow> fst (arp_table_search (arp_table (snd y)) target_ip (replicate 6 0)) = 1"
    if "arp_resolve_loop io rx_addr tx_addr target_ip timeout start_time s = Some y" for y
    by (rule arp_resolve_loop.raw_induct [where P = "\<lambda>io rx tx target_ip to st s y. fst y \<noteq> 0 \<longrightarrow>
        fst (arp_table_search (arp_table (snd y)) target_ip (replicate 6 0)) = 1", OF _ that])
      (auto dest: arp_resolve_step_found split: prod.splits bind_splits if_splits)
  from this [OF assms(1)] assms(2) show ?thesis by simp
qed

text \<open>
  C26. A successful resolution is backed by the table: when \<open>arp_resolve_ip\<close> returns 1, the IP address
  is in the ARP table.
\<close>

theorem arp_resolve_ip_found:
  assumes "arp_resolve_ip io rx_addr tx_addr target_ip timeout s = Some (ans, s')" "ans \<noteq> 0"
  shows "fst (arp_table_search (arp_table s') target_ip (replicate 6 0)) = 1"
  using assms unfolding arp_resolve_ip_def by (auto intro: arp_resolve_loop_found split: prod.splits)

section \<open>A concrete exchange\<close>

text \<open>A controller that reports every frame as sent and a frame as received at every poll.\<close>

definition ready_if :: "unit eth_if" where
  "ready_if = \<lparr>dev_read = (\<lambda>i d m. (5, d, m)), dev_write = (\<lambda>i v d m. (d, m)), dev_usecs = (\<lambda>d m. (0, d, m))\<rparr>"

lemma ready_iord: "eth_iord ready_if a s = (5, s)"
  by (simp add: eth_iord_def ready_if_def)

lemma ready_iowr: "eth_iowr ready_if a v s = s"
  by (simp add: eth_iowr_def ready_if_def)

lemma ready_usecs: "get_cpu_usecs ready_if s = (0, s)"
  by (simp add: get_cpu_usecs_def ready_if_def)

lemma ready_send: "eth_mac_send ready_if tx len s = Some s"
  by (simp add: eth_mac_send_def eth_send_wait_free_once ready_iord ready_iowr
      eth_send_wait_done.simps [of ready_if 0] eth_send_wait_done.simps [of ready_if 1])

lemma ready_receive: "timeout \<noteq> 0 \<Longrightarrow> eth_mac_receive ready_if rx timeout s = Some (1, s)"
  by (simp add: eth_mac_receive_def eth_receive_ack_def ready_iord ready_iowr ready_usecs
      eth_receive_wait_timeout.simps [of ready_if])

abbreviation (input) "host_mac \<equiv> [2, 0, 0, 0, 0, 9 :: u8]"
abbreviation (input) "host_ip \<equiv> [10, 0, 0, 9 :: u8]"
abbreviation (input) "peer_mac \<equiv> [2, 0, 0, 0, 0, 1 :: u8]"
abbreviation (input) "peer_ip \<equiv> [10, 0, 0, 1 :: u8]"

text \<open>The peer, the request of the host in its buffer, and the host with the peer's reply.\<close>

definition peer_node :: "unit arp_node" where
  "peer_node = \<lparr>eth_dev = (), eth_buf = snd (arp_build_request host_mac host_ip 0 peer_ip (\<lambda>_. 0)),
     my_mac = peer_mac, my_ip = peer_ip, arp_table = arp_empty\<rparr>"

definition host_node :: "unit arp_node" where
  "host_node = \<lparr>eth_dev = (), eth_buf = snd (arp_build_reply peer_mac peer_ip 0 0 (eth_buf peer_node)),
     my_mac = host_mac, my_ip = host_ip, arp_table = arp_empty\<rparr>"

lemma peer_node_simps: "eth_buf peer_node = snd (arp_build_request host_mac host_ip 0 peer_ip (\<lambda>_. 0))"
  "my_mac peer_node = peer_mac" "my_ip peer_node = peer_ip"
  by (simp_all add: peer_node_def)

lemma host_node_simps: "eth_buf host_node = snd (arp_build_reply peer_mac peer_ip 0 0 (eth_buf peer_node))"
  "my_mac host_node = host_mac" "my_ip host_node = host_ip" "arp_table host_node = arp_empty"
  by (simp_all add: host_node_def)

lemma same_frame_refl: "same_frame m a m a n"
  by (simp add: same_frame_def)

theorem arp_exchange_witness:
  "arp_process_received ready_if 0 0 host_node
    = Some (2, host_node\<lparr>arp_table := arp_table_new_entry arp_empty peer_ip peer_mac\<rparr>)"
  using arp_exchange [of host_node peer_node 0 0 "\<lambda>_. 0" 0 0 ready_if]
  by (simp add: peer_node_simps host_node_simps same_frame_refl copy_safe_def)

lemma request_elsewhere:
  assumes "unat l < 0x800"
  shows "mem_iord_byte (snd (arp_build_request mac ip 0x800 target m)) l = mem_iord_byte m l"
proof -
  have ne: "(l = c) = False" "(walign l = c) = False" if "0x800 \<le> unat c" for c
    using that assms unat_walign_le [of l] by auto
  have w: "mem_iord_byte (mem_iowr mm 0x80C w) l = mem_iord_byte mm l"
    "mem_iord_byte (mem_iowr mm 0x810 w) l = mem_iord_byte mm l" for mm w
    using rd_wrw [of 0 "0x80C" mm w l] rd_wrw [of 0 "0x810" mm w l] by (simp_all add: ne)
  show ?thesis
    by (simp add: arp_build_request_def Let_def upt_small mem_rd_wr w ne)
qed

lemma host_resolves:
  "arp_resolve_ip ready_if 0 0x800 peer_ip 1000 host_node
    = Some (1, host_node\<lparr>eth_buf := snd (arp_build_request host_mac host_ip 0x800 peer_ip (eth_buf host_node)),
        arp_table := arp_table_new_entry arp_empty peer_ip peer_mac\<rparr>)"
proof -
  let ?m = "snd (arp_build_request host_mac host_ip 0x800 peer_ip (eth_buf host_node))"
  let ?s = "host_node\<lparr>eth_buf := ?m\<rparr>"
  have fr: "same_frame ?m 0 (eth_buf host_node) 0 42"
    unfolding same_frame_def by (auto intro!: request_elsewhere simp: unat_of_nat take_bit_nat_eq_self)
  then have "same_frame (eth_buf ?s) 0 (snd (arp_build_reply peer_mac peer_ip 0 0 (eth_buf peer_node))) 0 42"
    by (simp add: host_node_simps)
  then have p: "arp_process_received ready_if 0 0x800 ?s
      = Some (2, ?s\<lparr>arp_table := arp_table_new_entry arp_empty peer_ip peer_mac\<rparr>)"
    using arp_process_reply [of ?s peer_mac peer_ip 0 "eth_buf peer_node" 0 "\<lambda>_. 0" 0 0 ready_if "0x800"]
    by (simp add: host_node_simps peer_node_simps same_frame_refl copy_safe_def)
  have "mac_packet_type ?m 0 = ARP"
  proof -
    have "mac_packet_type (eth_buf peer_node) 0 = ARP"
      using arp_build_request_frame(3) [OF _ _ _ _ refl, of 0 host_mac host_ip peer_ip] by (simp add: peer_node_simps)
    moreover have "mem_iord_byte ?m 12 = mem_iord_byte (eth_buf peer_node) 12" "mem_iord_byte ?m 13 = mem_iord_byte (eth_buf peer_node) 13"
      using arp_build_reply_frame(3,4) [OF _ _ _ refl, of 0 0 peer_mac peer_ip "eth_buf peer_node"]
      by (simp_all add: request_elsewhere host_node_simps copy_safe_def)
    ultimately show ?thesis by (simp add: mac_packet_type_ARP)
  qed
  moreover have "fst (arp_table_search (arp_table_new_entry arp_empty peer_ip peer_mac) peer_ip (replicate 6 0)) = 1"
    using arp_lookup_new_entry [OF arp_empty_inv, of peer_ip peer_mac peer_ip]
    by (simp add: arp_lookup_def split: prod.splits if_splits)
  ultimately show ?thesis
    using p
    by (simp add: arp_resolve_ip_def ready_usecs arp_resolve_loop.simps [of ready_if] arp_resolve_step_def
        ready_send ready_receive case_prod_beta host_node_simps)
qed

theorem arp_resolve_ip_found_witness:
  "fst (arp_table_search (arp_table_new_entry arp_empty peer_ip peer_mac) peer_ip (replicate 6 0)) = 1"
  using arp_resolve_ip_found [OF host_resolves] by simp

end
