(* ===== verification/Eth_UDP.thy ===== *)
theory Eth_UDP
  imports Eth_ARP
begin

text \<open>
  \<open>c/ethlib/udp.c\<close>: the fields of UDP packets, the UDP checksum, and the three senders. The senders
  share the code that fills in a frame; it is \<open>udp_fill\<close> here. The node state gets the
  global \<open>ipv4_id\<close>.
\<close>

record udphead_t =
  source_port :: u16
  destination_port :: u16
  data_length :: u16
  udp_checksum :: u16

record udp_t =
  ip_head :: iphead_t
  udp_head :: udphead_t
  udp_data :: "u8 list"

record 'd udp_node = "'d arp_node" +
  ipv4_id :: u16

section \<open>Fields\<close>

definition udp_get_source_port :: "ethbuf \<Rightarrow> u32 \<Rightarrow> u16" where
  "udp_get_source_port m pkt_addr = ucast (mem_iord m (pkt_addr + 32) AND 0x0000FFFF)"

definition udp_get_destination_port :: "ethbuf \<Rightarrow> u32 \<Rightarrow> u16" where
  "udp_get_destination_port m pkt_addr = ucast (drop_bit 16 (mem_iord m (pkt_addr + 36)))"

definition udp_get_packet_length :: "ethbuf \<Rightarrow> u32 \<Rightarrow> u16" where
  "udp_get_packet_length m pkt_addr = ucast (mem_iord m (pkt_addr + 36) AND 0x0000FFFF)"

definition udp_get_checksum :: "ethbuf \<Rightarrow> u32 \<Rightarrow> u16" where
  "udp_get_checksum m pkt_addr = ucast (drop_bit 16 (mem_iord m (pkt_addr + 40)))"

definition udp_get_data_length :: "ethbuf \<Rightarrow> u32 \<Rightarrow> u16" where
  "udp_get_data_length m pkt_addr = udp_get_packet_length m pkt_addr - 8"

definition udp_get_data :: "ethbuf \<Rightarrow> u32 \<Rightarrow> u32 \<Rightarrow> u8 list" where
  "udp_get_data m pkt_addr len = rd_bytes m (pkt_addr + 42) (unat len)"

text \<open>
  \<open>udp_build_packet\<close> fills a packet record. The assignments to \<open>source_ip\<close>, \<open>destination_ip\<close> and
  \<open>data\<close> are element by element.
\<close>

definition udp_build_packet ::
    "u16 \<Rightarrow> u8 list \<Rightarrow> u8 list \<Rightarrow> u16 \<Rightarrow> u16 \<Rightarrow> u8 list \<Rightarrow> u16 \<Rightarrow> udp_t \<Rightarrow> udp_t" where
  "udp_build_packet ident src_ip dst_ip src_port dst_port data len packet =
     packet\<lparr>
       ip_head := (ip_head packet)\<lparr>
         ver_headlen := 0x45, dscp_ecn := 0x00, ip_length := 20 + 8 + len, identification := ident,
         flags_fragmentoff := 0x4000, ttl := 0x40, protocol := 0x11, head_checksum := 0x0,
         source_ip := fold (\<lambda>i a. a[i := src_ip ! i]) [0..<4] (source_ip (ip_head packet)),
         destination_ip := fold (\<lambda>i a. a[i := dst_ip ! i]) [0..<4] (destination_ip (ip_head packet))\<rparr>,
       udp_head := \<lparr>source_port = src_port, destination_port = dst_port, data_length = len, udp_checksum = 0x0\<rparr>,
       udp_data := fold (\<lambda>i a. a[i := data ! i]) [0..<unat len] (udp_data packet)\<rparr>"

section \<open>Checksum\<close>

text \<open>The loop over the two address pairs of the pseudo header.\<close>

definition udp_pseudo_sum :: "ethbuf \<Rightarrow> u32 \<Rightarrow> u32 \<Rightarrow> u32" where
  "udp_pseudo_sum m pkt_addr c =
     fold (\<lambda>i c. let c = c + push_bit 8 (mem_iord_byte m (pkt_addr + 26 + of_nat i)) + (mem_iord_byte m (pkt_addr + 27 + of_nat i) AND 0xFF)
                 in c + push_bit 8 (mem_iord_byte m (pkt_addr + 30 + of_nat i)) + (mem_iord_byte m (pkt_addr + 31 + of_nat i) AND 0xFF))
       [0, 2] c"

text \<open>The correction of an odd length: the buffer gets a zero byte after the packet.\<close>

definition udp_pad :: "ethbuf \<Rightarrow> u32 \<Rightarrow> u16 \<Rightarrow> u16 \<times> ethbuf" where
  "udp_pad m pkt_addr udp_length =
     (if udp_length AND 1 = 0 then (udp_length, m)
      else (udp_length + 1, mem_iowr_byte m (pkt_addr + ucast udp_length + 34) 0x00))"

definition udp_compute_checksum :: "ethbuf \<Rightarrow> u32 \<Rightarrow> u16 \<times> ethbuf" where
  "udp_compute_checksum m pkt_addr =
     (let udp_length = ucast (mem_iord m (pkt_addr + 36) AND 0xFFFF);
          (corrected_length, m) = udp_pad m pkt_addr udp_length;
          checksum = csum_words m (pkt_addr + 34) (pkt_addr + 35) (unat corrected_length div 2) 0;
          checksum = checksum - push_bit 8 (mem_iord_byte m (pkt_addr + 40)) + (mem_iord_byte m (pkt_addr + 41) AND 0xFF);
          checksum = udp_pseudo_sum m pkt_addr checksum;
          checksum = checksum + 0x0011 + ucast udp_length
      in (ucast (csum_finish checksum), m))"

definition udp_verify_checksum :: "ethbuf \<Rightarrow> u32 \<Rightarrow> int \<times> ethbuf" where
  "udp_verify_checksum m pkt_addr =
     (let udp_length = ucast (mem_iord m (pkt_addr + 36) AND 0xFFFF);
          (corrected_length, m) = udp_pad m pkt_addr udp_length;
          checksum = csum_words m (pkt_addr + 34) (pkt_addr + 35) (unat corrected_length div 2) 0;
          checksum = udp_pseudo_sum m pkt_addr checksum;
          checksum = checksum + 0x0011 + ucast udp_length
      in (if csum_finish checksum = 0 then 1 else 0, m))"

section \<open>Senders\<close>

text \<open>
  Filling in a frame: the same statements in \<open>udp_send\<close>, \<open>udp_send_mac\<close> and \<open>udp_send_packet\<close>, up to
  where the addresses, ports and data come from. First the frame without its checksums, then
  the frame as it is sent.
\<close>

definition udp_frame ::
    "u8 list \<Rightarrow> u8 list \<Rightarrow> u8 list \<Rightarrow> u8 list \<Rightarrow> u16 \<Rightarrow> u16 \<Rightarrow> u16 \<Rightarrow> u8 list \<Rightarrow> u16 \<Rightarrow> u32 \<Rightarrow> ethbuf \<Rightarrow> ethbuf" where
  "udp_frame dmac smac sip dip ident sport dport data len tx_addr m =
     (let m = mem_iowr m tx_addr
                (push_bit 24 (ucast (dmac ! 0)) OR push_bit 16 (ucast (dmac ! 1)) OR push_bit 8 (ucast (dmac ! 2)) OR ucast (dmac ! 3));
          m = mem_iowr m (tx_addr + 4)
                (push_bit 24 (ucast (dmac ! 4)) OR push_bit 16 (ucast (dmac ! 5)) OR push_bit 8 (ucast (smac ! 0)) OR ucast (smac ! 1));
          m = mem_iowr m (tx_addr + 8)
                (push_bit 24 (ucast (smac ! 2)) OR push_bit 16 (ucast (smac ! 3)) OR push_bit 8 (ucast (smac ! 4)) OR ucast (smac ! 5));
          m = mem_iowr m (tx_addr + 12) 0x08004500;
          m = mem_iowr m (tx_addr + 16) (push_bit 16 (ucast (len + 8 + 20)) OR ucast ident);
          m = mem_iowr m (tx_addr + 20) 0x40004011;
          m = mem_iowr m (tx_addr + 24) (push_bit 8 (ucast (sip ! 0)) OR ucast (sip ! 1));
          m = mem_iowr m (tx_addr + 28)
                (push_bit 24 (ucast (sip ! 2)) OR push_bit 16 (ucast (sip ! 3)) OR push_bit 8 (ucast (dip ! 0)) OR ucast (dip ! 1));
          m = mem_iowr m (tx_addr + 32)
                (push_bit 24 (ucast (dip ! 2)) OR push_bit 16 (ucast (dip ! 3)) OR ucast sport);
          m = mem_iowr m (tx_addr + 36) (push_bit 16 (ucast dport) OR ucast (len + 8));
          m = mem_iowr m (tx_addr + 40) 0x0000
      in wr_bytes m (tx_addr + 42) data (unat len))"

definition udp_fill ::
    "u8 list \<Rightarrow> u8 list \<Rightarrow> u8 list \<Rightarrow> u8 list \<Rightarrow> u16 \<Rightarrow> u16 \<Rightarrow> u16 \<Rightarrow> u8 list \<Rightarrow> u16 \<Rightarrow> u32 \<Rightarrow> ethbuf \<Rightarrow> u16 \<times> ethbuf" where
  "udp_fill dmac smac sip dip ident sport dport data len tx_addr m =
     (let udp_length = len + 8;
          ip_len = udp_length + 20;
          frame_length = ip_len + 14;
          m = udp_frame dmac smac sip dip ident sport dport data len tx_addr m;
          checksum = ipv4_compute_checksum m tx_addr;
          m = mem_iowr_byte m (tx_addr + 24) (ucast (drop_bit 8 checksum));
          m = mem_iowr_byte m (tx_addr + 25) (ucast (checksum AND 0xFF));
          (checksum, m) = udp_compute_checksum m tx_addr;
          m = mem_iowr_byte m (tx_addr + 40) (ucast (drop_bit 8 checksum));
          m = mem_iowr_byte m (tx_addr + 41) (ucast (checksum AND 0xFF))
      in (frame_length, m))"

text \<open>
  Resolving the destination: the broadcast address stays when the address cannot be resolved.
  The timeout of the senders is signed and is converted to the unsigned one of \<open>arp_resolve_ip\<close>.
\<close>

definition udp_resolve ::
    "'d eth_if \<Rightarrow> u32 \<Rightarrow> u32 \<Rightarrow> u8 list \<Rightarrow> u64 \<Rightarrow> ('d, 'z) udp_node_scheme \<Rightarrow> (u8 list \<times> ('d, 'z) udp_node_scheme) option" where
  "udp_resolve io rx_addr tx_addr dip timeout s =
     (let (found, dmac) = arp_table_search (arp_table s) dip (replicate 6 0xFF) in
      if found = 0
      then do {
        (ans, s) \<leftarrow> arp_resolve_ip io rx_addr tx_addr dip timeout s;
        Some (if ans \<noteq> 0 then snd (arp_table_search (arp_table s) dip dmac) else dmac, s)
      }
      else Some (dmac, s))"

text \<open>The end of the senders. \<open>ipv4_id += 0x10000\<close> is an addition modulo \<open>2 ^ 16\<close>.\<close>

definition udp_finish ::
    "'d eth_if \<Rightarrow> u32 \<Rightarrow> u16 \<times> ethbuf \<Rightarrow> ('d, 'z) udp_node_scheme \<Rightarrow> (int \<times> ('d, 'z) udp_node_scheme) option" where
  "udp_finish io tx_addr f s =
     do {
       s \<leftarrow> eth_mac_send io tx_addr (ucast (fst f)) (s\<lparr>eth_buf := snd f\<rparr>);
       Some (1, s\<lparr>ipv4_id := ucast ((ucast (ipv4_id s) :: u32) + 0x10000)\<rparr>)
     }"

definition udp_send ::
    "'d eth_if \<Rightarrow> u32 \<Rightarrow> u32 \<Rightarrow> u8 list \<Rightarrow> u16 \<Rightarrow> u16 \<Rightarrow> u8 list \<Rightarrow> u16 \<Rightarrow> u64
      \<Rightarrow> ('d, 'z) udp_node_scheme \<Rightarrow> (int \<times> ('d, 'z) udp_node_scheme) option" where
  "udp_send io tx_addr rx_addr dip sport dport data len timeout s =
     do {
       (dmac, s) \<leftarrow> udp_resolve io rx_addr tx_addr dip timeout s;
       udp_finish io tx_addr (udp_fill dmac (my_mac s) (my_ip s) dip (ipv4_id s) sport dport data len tx_addr (eth_buf s)) s
     }"

definition udp_send_mac ::
    "'d eth_if \<Rightarrow> u32 \<Rightarrow> u32 \<Rightarrow> u8 list \<Rightarrow> u8 list \<Rightarrow> u16 \<Rightarrow> u16 \<Rightarrow> u8 list \<Rightarrow> u16 \<Rightarrow> u64
      \<Rightarrow> ('d, 'z) udp_node_scheme \<Rightarrow> (int \<times> ('d, 'z) udp_node_scheme) option" where
  "udp_send_mac io tx_addr rx_addr dmac dip sport dport data len timeout s =
     udp_finish io tx_addr (udp_fill dmac (my_mac s) (my_ip s) dip (ipv4_id s) sport dport data len tx_addr (eth_buf s)) s"

definition udp_send_packet ::
    "'d eth_if \<Rightarrow> u32 \<Rightarrow> u32 \<Rightarrow> udp_t \<Rightarrow> u64
      \<Rightarrow> ('d, 'z) udp_node_scheme \<Rightarrow> (int \<times> ('d, 'z) udp_node_scheme) option" where
  "udp_send_packet io tx_addr rx_addr packet timeout s =
     (let ip = ip_head packet; udp = udp_head packet in
      do {
        (dmac, s) \<leftarrow> udp_resolve io rx_addr tx_addr (destination_ip ip) timeout s;
        udp_finish io tx_addr
          (udp_fill dmac (my_mac s) (source_ip ip) (destination_ip ip) (ipv4_id s) (source_port udp)
             (destination_port udp) (udp_data packet) (data_length udp) tx_addr (eth_buf s)) s
      })"

section \<open>The checksum over natural numbers\<close>

definition pseudo_header_sum :: "ethbuf \<Rightarrow> u32 \<Rightarrow> nat" where
  "pseudo_header_sum m a = be16 m (a + 26) + be16 m (a + 28) + be16 m (a + 30) + be16 m (a + 32)"

lemma pseudo_header_sum_le: "pseudo_header_sum m a \<le> 4 * 65535"
  using be16_le [of m "a + 26"] be16_le [of m "a + 28"] be16_le [of m "a + 30"] be16_le [of m "a + 32"]
  by (simp add: pseudo_header_sum_def)

lemma unat_udp_pseudo_sum:
  assumes "unat c + 4 * 65535 < 2 ^ 32"
  shows "unat (udp_pseudo_sum m a c) = unat c + pseudo_header_sum m a"
proof -
  note le = be16_le [of m "a + 26"] be16_le [of m "a + 28"] be16_le [of m "a + 30"] be16_le [of m "a + 32"]
  define c1 where "c1 = c + push_bit 8 (mem_iord_byte m (a + 26)) + (mem_iord_byte m (a + 27) AND 0xFF)"
  define c2 where "c2 = c1 + push_bit 8 (mem_iord_byte m (a + 30)) + (mem_iord_byte m (a + 31) AND 0xFF)"
  define c3 where "c3 = c2 + push_bit 8 (mem_iord_byte m (a + 28)) + (mem_iord_byte m (a + 29) AND 0xFF)"
  have "unat c1 = unat c + be16 m (a + 26)"
    using unat_add_be16 [of c m "a + 26"] assms le by (simp add: c1_def)
  moreover have "unat c2 = unat c1 + be16 m (a + 30)"
    using unat_add_be16 [of c1 m "a + 30"] assms le calculation by (simp add: c2_def)
  moreover have "unat c3 = unat c2 + be16 m (a + 28)"
    using unat_add_be16 [of c2 m "a + 28"] assms le calculation by (simp add: c3_def)
  moreover have "unat (c3 + push_bit 8 (mem_iord_byte m (a + 32)) + (mem_iord_byte m (a + 33) AND 0xFF)) = unat c3 + be16 m (a + 32)"
    using unat_add_be16 [of c3 m "a + 32"] assms le calculation by simp
  moreover have "udp_pseudo_sum m a c = c3 + push_bit 8 (mem_iord_byte m (a + 32)) + (mem_iord_byte m (a + 33) AND 0xFF)"
    by (simp add: udp_pseudo_sum_def Let_def c3_def c2_def c1_def)
  ultimately show ?thesis by (simp add: pseudo_header_sum_def)
qed

text \<open>The sum the UDP checksum is over, for a packet of \<open>n\<close> words and \<open>len\<close> bytes.\<close>

definition udp_sum :: "ethbuf \<Rightarrow> u32 \<Rightarrow> nat \<Rightarrow> nat \<Rightarrow> nat" where
  "udp_sum m a n len = be16_sum m (a + 34) n + pseudo_header_sum m a + 17 + len"

abbreviation (input) udp_len :: "ethbuf \<Rightarrow> u32 \<Rightarrow> u16" where
  "udp_len m a \<equiv> ucast (mem_iord m (a + 36) AND 0xFFFF)"

lemma udp_len_be16: "a AND 3 = 0 \<Longrightarrow> unat (udp_len m a) = be16 m (a + 38)"
  using unat_mem_iord_halves(1) [of "a + 36" m] aligned_add [of a 36] by simp

lemma udp_sum_split:
  assumes "4 \<le> n"
  shows "udp_sum m a n len = be16_sum m (a + 34) 3 + be16_sum m (a + 42) (n - 4) + pseudo_header_sum m a + 17 + len
    + be16 m (a + 40)"
proof -
  obtain k where n: "n = Suc (Suc (Suc (Suc k)))"
    using assms by (intro that [of "n - 4"]) simp
  show ?thesis
    unfolding udp_sum_def be16_sum_def n
    by (simp only: sum.lessThan_Suc_shift) (simp add: numeral_3_eq_3 add.assoc)
qed

lemma udp_pad_length:
  assumes "unat len \<noteq> 65535"
  shows "unat (fst (udp_pad m a len)) div 2 = (unat len + 1) div 2"
    "snd (udp_pad m a len) = (if even (unat len) then m else mem_iowr_byte m (a + ucast len + 34) 0)"
proof -
  have par: "len AND 1 = 0 \<longleftrightarrow> even (unat len)"
    by (simp add: and_one_eq even_iff_mod_2_eq_zero word_unat_eq_iff unat_mod)
  have "unat len < 65536" using unat_u16_lt [of len] by simp
  then have "unat (len + 1) = unat len + 1" using assms by (simp add: unat_word_ariths)
  then show "unat (fst (udp_pad m a len)) div 2 = (unat len + 1) div 2"
    using par by (simp add: udp_pad_def)
  show "snd (udp_pad m a len) = (if even (unat len) then m else mem_iowr_byte m (a + ucast len + 34) 0)"
    using par by (simp add: udp_pad_def)
qed

lemma unat_udp_total:
  assumes "unat x \<le> 32768 * 65535 + 2 * 65535"
  shows "unat (udp_pseudo_sum m a x + 0x0011 + ucast (len :: u16)) = unat x + pseudo_header_sum m a + 17 + unat len"
proof -
  have p: "unat (udp_pseudo_sum m a x) = unat x + pseudo_header_sum m a"
    using assms by (intro unat_udp_pseudo_sum) simp
  have l: "unat (ucast len :: u32) = unat len" "unat len < 65536"
    using unat_u16_lt [of len]
    by (simp_all add: unsigned_ucast_eq take_bit_nat_eq_self)
  show ?thesis
    using assms p l pseudo_header_sum_le [of m a] by (simp add: unat_word_ariths)
qed

text \<open>The buffer after the correction of an odd length, and the number of words summed.\<close>

definition udp_padded :: "ethbuf \<Rightarrow> u32 \<Rightarrow> ethbuf" where
  "udp_padded m a = snd (udp_pad m a (udp_len m a))"

definition udp_words :: "ethbuf \<Rightarrow> u32 \<Rightarrow> nat" where
  "udp_words m a = (unat (udp_len m a) + 1) div 2"

definition udp_body_sum :: "ethbuf \<Rightarrow> u32 \<Rightarrow> nat \<Rightarrow> nat \<Rightarrow> nat" where
  "udp_body_sum m a n len = be16_sum m (a + 34) 3 + be16_sum m (a + 42) (n - 4) + pseudo_header_sum m a + 17 + len"

lemma unat_packet_words:
  assumes "n \<le> 32768"
  shows "unat (csum_words m (a + 34) (a + 35) n 0) = be16_sum m (a + 34) n"
  using unat_csum_words [of 0 n m "a + 34"] assms by simp

lemma udp_verify_oc:
  assumes "unat (udp_len m a) \<noteq> 65535"
  shows "udp_verify_checksum m a =
    (if oc_sum (udp_sum (udp_padded m a) a (udp_words m a) (unat (udp_len m a))) = 0xFFFF then 1 else 0, udp_padded m a)"
proof -
  obtain cl mp where pad: "udp_pad m a (udp_len m a) = (cl, mp)" by fastforce
  then have mp: "mp = udp_padded m a" by (simp add: udp_padded_def)
  have n: "unat cl div 2 = udp_words m a" using udp_pad_length(1) [OF assms, of m a] pad by (simp add: udp_words_def)
  have le: "udp_words m a \<le> 32768"
    using assms unat_u16_lt [of "udp_len m a"] by (simp add: udp_words_def)
  then have "be16_sum mp (a + 34) (udp_words m a) \<le> 32768 * 65535"
    using be16_sum_le [of mp "a + 34" "udp_words m a"] by (meson le_trans mult_le_mono1)
  then have "unat (udp_pseudo_sum mp a (csum_words mp (a + 34) (a + 35) (udp_words m a) 0) + 0x0011 + ucast (udp_len m a))
      = udp_sum mp a (udp_words m a) (unat (udp_len m a))"
    by (subst unat_udp_total) (simp_all add: unat_packet_words le udp_sum_def)
  then have "unat (csum_finish (udp_pseudo_sum mp a (csum_words mp (a + 34) (a + 35) (udp_words m a) 0) + 0x0011 + ucast (udp_len m a)))
      = 65535 - oc_sum (udp_sum mp a (udp_words m a) (unat (udp_len m a)))"
    by (simp only: unat_csum_finish)
  then show ?thesis
    using oc_sum_le [of "udp_sum mp a (udp_words m a) (unat (udp_len m a))"]
    unfolding udp_verify_checksum_def Let_def pad prod.case n mp [symmetric]
    by (auto simp: simp flip: unat_eq_zero)
qed

lemma udp_compute_oc:
  assumes "8 \<le> unat (udp_len m a)" "unat (udp_len m a) \<noteq> 65535"
  defines "mp \<equiv> udp_padded m a"
  shows "unat (fst (udp_compute_checksum m a)) = 65535 - oc_sum
      (udp_body_sum mp a (udp_words m a) (unat (udp_len m a)) + 2 * unat (mem_iord_byte mp (a + 41)))"
    and "snd (udp_compute_checksum m a) = mp"
proof -
  let ?n = "udp_words m a" and ?h = "mem_iord_byte mp (a + 40)" and ?l = "mem_iord_byte mp (a + 41)"
  obtain cl where pad: "udp_pad m a (udp_len m a) = (cl, mp)"
    unfolding mp_def udp_padded_def by (metis prod.collapse)
  have n: "unat cl div 2 = ?n" using udp_pad_length(1) [OF assms(2), of m a] pad by (simp add: udp_words_def)
  have le: "4 \<le> ?n" "?n \<le> 32768"
    using assms(1,2) unat_u16_lt [of "udp_len m a"] by (simp_all add: udp_words_def)
  let ?x = "csum_words mp (a + 34) (a + 35) ?n 0"
  have x: "unat ?x = be16_sum mp (a + 34) 3 + be16_sum mp (a + 42) (?n - 4) + (256 * unat ?h + unat ?l)"
    using udp_sum_split [OF le(1), of mp a 0] le(2) by (simp add: unat_packet_words udp_sum_def be16_def)
  have xle: "unat ?x \<le> 32768 * 65535"
    using be16_sum_le [of mp "a + 34" ?n] le(2) unfolding unat_packet_words [OF le(2)] by (meson le_trans mult_le_mono1)
  have h: "unat (push_bit 8 ?h) = 256 * unat ?h" by (rule unat_push_8) (rule mem_iord_byte_lt)
  have "unat (?x - push_bit 8 ?h) = unat ?x - unat (push_bit 8 ?h)"
    by (rule unat_sub) (simp add: word_le_nat_alt x h)
  then have "unat (?x - push_bit 8 ?h + ?l) = unat ?x - 256 * unat ?h + unat ?l"
    using xle mem_iord_byte_lt [of mp "a + 41"] by (simp add: unat_word_ariths h)
  then have y: "unat (?x - push_bit 8 ?h + (?l AND 0xFF)) = unat ?x - 256 * unat ?h + unat ?l"
    by (simp add: mem_rd_byte)
  have "unat (udp_pseudo_sum mp a (?x - push_bit 8 ?h + (?l AND 0xFF)) + 0x0011 + ucast (udp_len m a))
      = udp_body_sum mp a ?n (unat (udp_len m a)) + 2 * unat ?l"
    using xle mem_iord_byte_lt [of mp "a + 41"] y
    by (subst unat_udp_total) (simp_all add: x udp_body_sum_def)
  then show "unat (fst (udp_compute_checksum m a)) = 65535 - oc_sum
      (udp_body_sum mp a ?n (unat (udp_len m a)) + 2 * unat ?l)"
    by (simp add: udp_compute_checksum_def Let_def pad n ucast_u16_finish del: and_255)
  show "snd (udp_compute_checksum m a) = mp"
    by (simp add: udp_compute_checksum_def Let_def pad)
qed

lemma udp_padded_rd:
  assumes "unat (udp_len m a) \<noteq> 65535"
  shows "mem_iord_byte (udp_padded m a) (a + k)
    = (if odd (unat (udp_len m a)) \<and> unat k = unat (udp_len m a) + 34 then 0 else mem_iord_byte m (a + k))"
proof -
  let ?len = "udp_len m a"
  have "unat (ucast len + 34 :: u32) = unat len + 34" for len :: u16
    using unat_u16_lt [of len] by (simp add: unat_word_ariths)
  moreover have "a + k = a + ucast ?len + 34 \<longleftrightarrow> k = ucast ?len + 34"
    by (simp only: add.assoc add_left_cancel)
  ultimately have "a + k = a + ucast ?len + 34 \<longleftrightarrow> unat k = unat ?len + 34"
    by (simp only: word_unat_eq_iff [of k])
  then show ?thesis
    unfolding udp_padded_def udp_pad_length(2) [OF assms] by (simp add: mem_rd_wr)
qed

lemma udp_padded_rd_header:
  assumes "8 \<le> unat (udp_len m a)" "unat (udp_len m a) \<noteq> 65535" "unat k < 42"
  shows "mem_iord_byte (udp_padded m a) (a + k) = mem_iord_byte m (a + k)"
  using assms udp_padded_rd [OF assms(2), of k] by auto

lemma be16_sum_rd_cong:
  "mem_iord_byte m = mem_iord_byte m' \<Longrightarrow> be16 m = be16 m' \<and> be16_sum m = be16_sum m'"
  by (simp add: be16_def be16_sum_def fun_eq_iff)

lemma be16_sum_other:
  assumes "\<And>k. k < n \<Longrightarrow> be16 m (a + of_nat (2 * k)) = be16 m' (a + of_nat (2 * k))"
  shows "be16_sum m a n = be16_sum m' a n"
  using assms by (simp add: be16_sum_def)

lemma of_nat_small_ne:
  assumes "k < 2 ^ 32" "unat c \<noteq> k"
  shows "of_nat k \<noteq> (c :: u32)"
  using assms by (auto simp: unat_of_nat take_bit_nat_eq_self)

lemma udp_body_sum_wr:
  assumes "n \<le> 32768"
  shows "udp_body_sum (wr_be16 m (a + 40) v) a n len = udp_body_sum m a n len"
proof -
  have "be16 (wr_be16 m (a + 40) v) (a + 42 + of_nat (2 * k)) = be16 m (a + 42 + of_nat (2 * k))" if "k < n - 4" for k
  proof -
    have o: "a + 42 + of_nat (2 * k) = a + of_nat (42 + 2 * k)" "a + 42 + of_nat (2 * k) + 1 = a + of_nat (43 + 2 * k)"
      by simp_all
    have "of_nat (42 + 2 * k) \<noteq> (40 :: u32)" "of_nat (42 + 2 * k) \<noteq> (41 :: u32)" "of_nat (43 + 2 * k) \<noteq> (40 :: u32)"
      using that assms by (intro of_nat_small_ne; simp)+
    then show ?thesis by (intro be16_wr_be16_other) (simp_all only: o addr_offset add_left_cancel, simp_all)
  qed
  then have "be16_sum (wr_be16 m (a + 40) v) (a + 42) (n - 4) = be16_sum m (a + 42) (n - 4)"
    by (rule be16_sum_other)
  moreover have "be16_sum (wr_be16 m (a + 40) v) (a + 34) 3 = be16_sum m (a + 34) 3"
    by (simp add: be16_sum_def lessThan_nat_numeral lessThan_Suc be16_wr_be16_other)
  ultimately show ?thesis
    by (simp add: udp_body_sum_def pseudo_header_sum_def be16_wr_be16_other)
qed

lemma udp_store_checksum:
  assumes al: "a AND 3 = 0" and L: "8 \<le> unat (udp_len m a)" "unat (udp_len m a) \<noteq> 65535"
  shows "fst (udp_verify_checksum (wr_be16 (snd (udp_compute_checksum m a)) (a + 40) (fst (udp_compute_checksum m a))) a)
    = (if mem_iord_byte m (a + 41) = 0 then 1 else 0)"
proof -
  let ?L = "unat (udp_len m a)" and ?n = "udp_words m a" and ?mp = "udp_padded m a"
  define c where "c = fst (udp_compute_checksum m a)"
  define m2 where "m2 = wr_be16 ?mp (a + 40) c"
  have l: "mem_iord_byte ?mp (a + 41) = mem_iord_byte m (a + 41)"
    using udp_padded_rd_header [OF L, of 41] by simp
  have "be16 m2 (a + 38) = be16 m (a + 38)"
    using udp_padded_rd_header [OF L, of 38] udp_padded_rd_header [OF L, of 39]
    by (simp add: be16_def m2_def rd_wr_be16)
  then have len: "udp_len m2 a = udp_len m a"
    by (simp only: word_unat_eq_iff [of "udp_len m2 a"] udp_len_be16 [OF al])
  have n: "udp_words m2 a = ?n" "?n \<le> 32768" "4 \<le> ?n"
    using L unat_u16_lt [of "udp_len m a"] by (simp_all add: udp_words_def len)
  have "mem_iord_byte (udp_padded m2 a) b = mem_iord_byte m2 b" for b
  proof -
    have pz: "mem_iord_byte m2 (a + (b - a)) = 0" if "odd ?L" "unat (b - a) = ?L + 34"
    proof -
      have "b - a \<noteq> 40" "b - a \<noteq> 41" using that L(1) by auto
      then have "mem_iord_byte m2 (a + (b - a)) = mem_iord_byte ?mp (a + (b - a))"
        by (auto simp: m2_def rd_wr_be16)
      then show ?thesis using that by (simp only: udp_padded_rd [OF L(2)]) simp
    qed
    have "mem_iord_byte (udp_padded m2 a) (a + (b - a)) = mem_iord_byte m2 (a + (b - a))"
      using pz L(2) by (subst udp_padded_rd) (simp_all only: len, auto)
    then show ?thesis by simp
  qed
  then have "mem_iord_byte (udp_padded m2 a) = mem_iord_byte m2" by (simp add: fun_eq_iff)
  then have same: "udp_sum (udp_padded m2 a) a ?n ?L = udp_sum m2 a ?n ?L"
    using be16_sum_rd_cong [of "udp_padded m2 a" m2] by (simp add: udp_sum_def pseudo_header_sum_def)
  have "udp_sum m2 a ?n ?L = udp_body_sum m2 a ?n ?L + be16 m2 (a + 40)"
    using udp_sum_split [OF n(3), of m2 a ?L] by (simp add: udp_body_sum_def)
  also have "\<dots> = udp_body_sum ?mp a ?n ?L + unat c"
    by (simp only: m2_def udp_body_sum_wr [OF n(2)] be16_wr_be16)
  also have "unat c = 65535 - oc_sum (udp_body_sum ?mp a ?n ?L + 2 * unat (mem_iord_byte m (a + 41)))"
    unfolding c_def by (simp only: udp_compute_oc(1) [OF L] l)
  finally have "oc_sum (udp_sum m2 a ?n ?L) = 65535 \<longleftrightarrow> 2 * unat (mem_iord_byte m (a + 41)) = 0"
    using oc_complement_iff [of "2 * unat (mem_iord_byte m (a + 41))"] mem_iord_byte_lt [of m "a + 41"] by simp
  then have "fst (udp_verify_checksum m2 a) = (if mem_iord_byte m (a + 41) = 0 then 1 else 0)"
    using udp_verify_oc [of m2 a] L(2) by (simp add: len n same unat_eq_zero)
  then show ?thesis by (simp add: m2_def c_def udp_compute_oc(2) [OF L])
qed

section \<open>The frame of the senders\<close>

lemma udp_frame_fields:
  assumes "tx AND 3 = 0"
    and "f = udp_frame dmac smac sip dip ident sport dport data len tx m"
  shows "mac_addr_dest f tx = [dmac ! 0, dmac ! 1, dmac ! 2, dmac ! 3, dmac ! 4, dmac ! 5]"
    "mac_addr_sender f tx = [smac ! 0, smac ! 1, smac ! 2, smac ! 3, smac ! 4, smac ! 5]"
    "ipv4_get_source_ip f tx = [sip ! 0, sip ! 1, sip ! 2, sip ! 3]"
    "ipv4_get_destination_ip f tx = [dip ! 0, dip ! 1, dip ! 2, dip ! 3]"
    "mac_packet_type f tx = UDP"
    "mem_iord_byte f (tx + 25) = 0" "mem_iord_byte f (tx + 41) = 0"
    "be16 f (tx + 34) = unat sport" "be16 f (tx + 36) = unat dport" "be16 f (tx + 38) = unat (len + 8)"
    "be16 f (tx + 16) = unat (28 + len)"
proof -
  have n: "unat len \<le> 65536" using unat_u16_lt [of len] by simp
  note rd = assms(2) udp_frame_def Let_def frame_rd
  show "mac_addr_dest f tx = [dmac ! 0, dmac ! 1, dmac ! 2, dmac ! 3, dmac ! 4, dmac ! 5]"
    using assms(1) n by (simp add: mac_addr_dest_def rd)
  show "mac_addr_sender f tx = [smac ! 0, smac ! 1, smac ! 2, smac ! 3, smac ! 4, smac ! 5]"
    using assms(1) n by (simp add: mac_addr_sender_def rd)
  show "ipv4_get_source_ip f tx = [sip ! 0, sip ! 1, sip ! 2, sip ! 3]"
    using assms(1) n by (simp add: ipv4_get_source_ip_def rd_bytes_4 rd)
  show "ipv4_get_destination_ip f tx = [dip ! 0, dip ! 1, dip ! 2, dip ! 3]"
    using assms(1) n by (simp add: ipv4_get_destination_ip_def rd_bytes_4 rd)
  show "mac_packet_type f tx = UDP"
    using assms(1) n by (simp add: mac_packet_type_def rd)
  show "mem_iord_byte f (tx + 25) = 0" "mem_iord_byte f (tx + 41) = 0"
    using assms(1) n by (simp_all add: rd)
  show "be16 f (tx + 34) = unat sport" "be16 f (tx + 36) = unat dport" "be16 f (tx + 38) = unat (len + 8)"
    "be16 f (tx + 16) = unat (28 + len)"
    using assms(1) n by (simp_all add: be16_def rd unat_u16_split)
qed

lemma udp_frame_data:
  assumes "unat len \<le> length data"
  shows "rd_bytes (udp_frame dmac smac sip dip ident sport dport data len tx m) (tx + 42) (unat len) = take (unat len) data"
  using assms unat_u16_lt [of len] by (simp add: udp_frame_def Let_def rd_bytes_wr_bytes)

text \<open>The bytes of the sent frame other than the checksum fields are those of \<open>udp_frame\<close>.\<close>

lemma udp_fill_eq:
  assumes "f = udp_frame dmac smac sip dip ident sport dport data len tx m"
    and "f1 = wr_be16 f (tx + 24) (ipv4_compute_checksum f tx)"
  shows "udp_fill dmac smac sip dip ident sport dport data len tx m
    = (len + 42, wr_be16 (snd (udp_compute_checksum f1 tx)) (tx + 40) (fst (udp_compute_checksum f1 tx)))"
  unfolding udp_fill_def Let_def assms(1) [symmetric]
  by (simp add: assms(2) wr_be16_def case_prod_beta)

lemma udp_fill_rd:
  assumes "tx AND 3 = 0" "unat len + 42 < 65536" "unat k < 42 + unat len" "k \<notin> {24, 25, 40, 41}"
    and "f = udp_frame dmac smac sip dip ident sport dport data len tx m"
  shows "mem_iord_byte (snd (udp_fill dmac smac sip dip ident sport dport data len tx m)) (tx + k) = mem_iord_byte f (tx + k)"
    and "ipv4_verify_checksum (snd (udp_fill dmac smac sip dip ident sport dport data len tx m)) tx = 1"
    and "fst (udp_verify_checksum (snd (udp_fill dmac smac sip dip ident sport dport data len tx m)) tx) = 1"
proof -
  define f1 where "f1 = wr_be16 f (tx + 24) (ipv4_compute_checksum f tx)"
  define g where "g = snd (udp_fill dmac smac sip dip ident sport dport data len tx m)"
  note fr = udp_frame_fields [OF assms(1,5)]
  have len: "unat (udp_len f1 tx) = unat len + 8"
    using assms(2) fr(10) unat_u16_lt [of len]
    by (simp only: udp_len_be16 [OF assms(1)] f1_def) (simp add: be16_wr_be16_other unat_word_ariths)
  have L: "8 \<le> unat (udp_len f1 tx)" "unat (udp_len f1 tx) \<noteq> 65535" using assms(2) by (simp_all add: len)
  have g: "g = wr_be16 (udp_padded f1 tx) (tx + 40) (fst (udp_compute_checksum f1 tx))"
    unfolding g_def udp_fill_eq [OF assms(5) f1_def] by (simp add: udp_compute_oc(2) [OF L])
  have gf1: "mem_iord_byte g (tx + j) = mem_iord_byte f1 (tx + j)"
    if "unat j < 42 + unat len" "j \<noteq> 40" "j \<noteq> 41" for j
    using that udp_padded_rd [OF L(2), of j] by (simp add: g rd_wr_be16 len)
  show "mem_iord_byte (snd (udp_fill dmac smac sip dip ident sport dport data len tx m)) (tx + k) = mem_iord_byte f (tx + k)"
    using assms(3,4) gf1 [of k] by (simp add: g_def [symmetric] f1_def rd_wr_be16)
  have "be16_sum g (tx + 14) 10 = be16_sum f1 (tx + 14) 10"
  proof (rule be16_sum_cong_rd)
    fix j :: nat assume j: "j < 2 * 10"
    then have "unat (of_nat (14 + j) :: u32) = 14 + j"
      by (simp only: unat_of_nat) (simp add: take_bit_nat_eq_self)
    with j show "mem_iord_byte g (tx + 14 + of_nat j) = mem_iord_byte f1 (tx + 14 + of_nat j)"
      using gf1 [of "of_nat (14 + j)"] of_nat_small_ne [of "14 + j" 40] of_nat_small_ne [of "14 + j" 41]
      by (simp add: add.assoc)
  qed
  then have "ipv4_verify_checksum g tx = ipv4_verify_checksum f1 tx" by (simp only: ipv4_verify_checksum_oc)
  then show "ipv4_verify_checksum (snd (udp_fill dmac smac sip dip ident sport dport data len tx m)) tx = 1"
    using ipv4_store_checksum [of f tx] fr(6) by (simp add: f1_def g_def [symmetric])
  have "mem_iord_byte f1 (tx + 41) = 0" using fr(7) by (simp add: f1_def rd_wr_be16)
  then show "fst (udp_verify_checksum (snd (udp_fill dmac smac sip dip ident sport dport data len tx m)) tx) = 1"
    using udp_store_checksum [OF assms(1) L] by (simp add: g udp_compute_oc(2) [OF L] flip: g_def)
qed

lemma rd_bytes_cong:
  "(\<And>i. i < n \<Longrightarrow> mem_iord_byte m (a + of_nat i) = mem_iord_byte m' (b + of_nat i)) \<Longrightarrow> rd_bytes m a n = rd_bytes m' b n"
  by (simp add: rd_bytes_def)

text \<open>
  C10. What a UDP sender transmits parses back: the frame is a UDP packet from and to the given
  addresses and ports with the given data, and both of its checksums verify.
\<close>

theorem udp_fill_parses_back:
  assumes "tx AND 3 = 0" "length data = unat len" "unat len + 42 < 65536"
    and "length dmac = 6" "length smac = 6" "length sip = 4" "length dip = 4"
    and "udp_fill dmac smac sip dip ident sport dport data len tx m = (flen, m')"
  shows "unat flen = unat len + 42 \<and> mac_packet_type m' tx = UDP
    \<and> mac_addr_dest m' tx = dmac \<and> mac_addr_sender m' tx = smac
    \<and> ipv4_get_source_ip m' tx = sip \<and> ipv4_get_destination_ip m' tx = dip
    \<and> unat (ipv4_get_length m' tx) = unat len + 28 \<and> ipv4_verify_checksum m' tx = 1
    \<and> udp_get_source_port m' tx = sport \<and> udp_get_destination_port m' tx = dport
    \<and> udp_get_data_length m' tx = len \<and> udp_get_data m' tx (ucast (udp_get_data_length m' tx)) = data
    \<and> fst (udp_verify_checksum m' tx) = 1"
proof (intro conjI)
  define f where "f = udp_frame dmac smac sip dip ident sport dport data len tx m"
  note fr = udp_frame_fields [OF assms(1) f_def]
  have m': "m' = snd (udp_fill dmac smac sip dip ident sport dport data len tx m)" using assms(8) by simp
  note rd = udp_fill_rd(1) [OF assms(1,3) _ _ f_def, folded m']
  have rd0: "mem_iord_byte m' tx = mem_iord_byte f tx" using rd [of 0] by simp
  have be: "be16 m' (tx + 16) = be16 f (tx + 16)" "be16 m' (tx + 34) = be16 f (tx + 34)"
    "be16 m' (tx + 36) = be16 f (tx + 36)" "be16 m' (tx + 38) = be16 f (tx + 38)"
    by (simp_all add: be16_def rd)
  have al: "tx + 32 AND 3 = 0" "tx + 36 AND 3 = 0" using assms(1) by (simp_all add: aligned_add)
  have l8: "unat (len + 8) = unat len + 8" "unat (len + 42) = unat len + 42" "unat (28 + len) = unat len + 28"
    using assms(3) by (simp_all add: unat_word_ariths)
  show "unat flen = unat len + 42"
    using assms(8) udp_fill_eq [OF f_def refl] l8 by simp
  have "mac_packet_type m' tx = mac_packet_type f tx" by (simp add: mac_packet_type_def Let_def rd)
  then show "mac_packet_type m' tx = UDP" using fr by simp
  have "mac_addr_dest m' tx = mac_addr_dest f tx" by (simp add: mac_addr_dest_def rd rd0)
  then show "mac_addr_dest m' tx = dmac" using fr assms(4) by (simp add: list_eq_6)
  have "mac_addr_sender m' tx = mac_addr_sender f tx" by (simp add: mac_addr_sender_def rd)
  then show "mac_addr_sender m' tx = smac" using fr assms(5) by (simp add: list_eq_6)
  have "ipv4_get_source_ip m' tx = ipv4_get_source_ip f tx" by (simp add: ipv4_get_source_ip_def rd_bytes_4 rd)
  then show "ipv4_get_source_ip m' tx = sip" using fr assms(6) by (simp add: list_eq_4)
  have "ipv4_get_destination_ip m' tx = ipv4_get_destination_ip f tx" by (simp add: ipv4_get_destination_ip_def rd_bytes_4 rd)
  then show "ipv4_get_destination_ip m' tx = dip" using fr assms(7) by (simp add: list_eq_4)
  show "unat (ipv4_get_length m' tx) = unat len + 28" by (simp only: ipv4_get_length_be16 be fr l8)
  show "ipv4_verify_checksum m' tx = 1" "fst (udp_verify_checksum m' tx) = 1"
    using udp_fill_rd(2,3) [OF assms(1,3) _ _ f_def, of 0, folded m'] by simp_all
  show "udp_get_source_port m' tx = sport"
    using unat_mem_iord_halves(1) [OF al(1), of m'] by (simp add: udp_get_source_port_def word_unat_eq_iff be fr)
  show "udp_get_destination_port m' tx = dport"
    using unat_mem_iord_halves(2) [OF al(2), of m'] by (simp add: udp_get_destination_port_def word_unat_eq_iff be fr)
  have "udp_get_packet_length m' tx = len + 8"
    using unat_mem_iord_halves(1) [OF al(2), of m'] by (simp add: udp_get_packet_length_def word_unat_eq_iff be fr)
  then show dl: "udp_get_data_length m' tx = len" by (simp add: udp_get_data_length_def)
  have "rd_bytes m' (tx + 42) (unat len) = rd_bytes f (tx + 42) (unat len)"
  proof (rule rd_bytes_cong)
    fix i assume i: "i < unat len"
    then have "unat (of_nat (42 + i) :: u32) = 42 + i"
      using unat_u16_lt [of len] by (simp only: unat_of_nat) (simp add: take_bit_nat_eq_self)
    moreover have "k \<notin> {24, 25, 40, 41}" if "unat k = 42 + i" for k :: u32 using that by auto
    ultimately show "mem_iord_byte m' (tx + 42 + of_nat i) = mem_iord_byte f (tx + 42 + of_nat i)"
      using rd [of "of_nat (42 + i)"] i by (simp add: add.assoc del: insert_iff)
  qed
  then show "udp_get_data m' tx (ucast (udp_get_data_length m' tx)) = data"
    using udp_frame_data [of len data dmac smac sip dip ident sport dport tx m] assms(2)
    by (simp add: udp_get_data_def dl unat_ucast_u16 flip: f_def)
qed

theorem udp_fill_parses_back_witness:
  "let m' = snd (udp_fill peer_mac host_mac host_ip peer_ip 0x1111 5001 53 [7, 8, 9] 3 0x800 (\<lambda>_. 0)) in
    mac_packet_type m' 0x800 = UDP \<and> udp_get_destination_port m' 0x800 = 53
    \<and> ipv4_verify_checksum m' 0x800 = 1 \<and> fst (udp_verify_checksum m' 0x800) = 1"
  using udp_fill_parses_back [where tx = "0x800" and data = "[7, 8, 9]" and len = 3 and dmac = peer_mac
      and smac = host_mac and sip = host_ip and dip = peer_ip and ident = "0x1111" and sport = 5001 and dport = 53
      and m = "\<lambda>_. 0", OF _ _ _ _ _ _ _ prod.collapse [symmetric]]
  by (simp add: Let_def)

text \<open>
  C30. Storing the computed UDP checksum yields a packet that verifies exactly when the low byte of
  the checksum field was zero before, for every UDP length from 8 to 65534; the length field is
  then left as it is and an odd packet is padded by a zero byte.
\<close>

theorem udp_checksum_roundtrip:
  assumes "a AND 3 = 0" "8 \<le> unat (udp_get_packet_length m a)" "unat (udp_get_packet_length m a) \<noteq> 65535"
    and "udp_compute_checksum m a = (c, m')"
  shows "fst (udp_verify_checksum (wr_be16 m' (a + 40) c) a) = (if mem_iord_byte m (a + 41) = 0 then 1 else 0)"
  using udp_store_checksum [OF assms(1), of m] assms(2-4) by (simp add: udp_get_packet_length_def)

theorem udp_checksum_roundtrip_witness:
  "let m = udp_frame peer_mac host_mac host_ip peer_ip 0x1111 5001 53 [7, 8, 9] 3 0x800 (\<lambda>_. 0) in
   fst (udp_verify_checksum (wr_be16 (snd (udp_compute_checksum m 0x800)) (0x800 + 40) (fst (udp_compute_checksum m 0x800))) 0x800) = 1"
proof -
  define m where "m = udp_frame peer_mac host_mac host_ip peer_ip 0x1111 5001 53 [7, 8, 9] 3 0x800 (\<lambda>_. 0)"
  note fr = udp_frame_fields [OF _ m_def]
  have "unat (udp_get_packet_length m 0x800) = 11"
    using fr(10) udp_len_be16 [of "0x800" m] by (simp add: udp_get_packet_length_def)
  then show ?thesis
    using udp_checksum_roundtrip [OF _ _ _ prod.collapse [symmetric], of "0x800" m] fr(7)
    by (simp add: flip: m_def)
qed

end
