(* ===== verification/Eth_TCP.thy ===== *)
theory Eth_TCP
  imports Eth_UDP
begin

text \<open>
  \<open>c/ethlib/tcp.c\<close>: TCP segments and the connection state machine. A connection is a record passed
  along with the machine state. A function that may poll forever returns \<open>None\<close> when it does
  not return; a write outside the receive buffer, which C leaves undefined, is \<open>None\<close> as well.
\<close>

datatype tcpstate =
  CLOSED | LISTEN | SYN_SENT | SYN_RCVD | ESTABLISHED | FIN_WAIT_1 | FIN_WAIT_2 | TIME_WAIT
  | CLOSE_WAIT | CLOSING | LAST_ACK

abbreviation (input) FIN :: "'a::len word" where "FIN \<equiv> 0x1"
abbreviation (input) SYN :: "'a::len word" where "SYN \<equiv> 0x2"
abbreviation (input) RST :: "'a::len word" where "RST \<equiv> 0x4"
abbreviation (input) PSH :: "'a::len word" where "PSH \<equiv> 0x8"
abbreviation (input) ACK :: "'a::len word" where "ACK \<equiv> 0x10"

record tcp_connection =
  eth_tx_addr :: u32
  eth_rx_addr :: u32
  dstMAC :: "u8 list"
  srcMAC :: "u8 list"
  srcIP :: "u8 list"
  dstIP :: "u8 list"
  srcport :: u16
  dstport :: u16
  seqNum :: u32
  ackNum :: u32
  status :: tcpstate
  conn_ipv4_id :: u16
  send_buffer :: "u8 list"
  send_buffer_size :: u16
  recv_buffer :: "u8 list"
  recv_buffer_size :: u16

section \<open>Segments\<close>

definition tcp_get_source_port :: "ethbuf \<Rightarrow> u32 \<Rightarrow> u16" where
  "tcp_get_source_port m pkt_addr = ucast (push_bit 8 (mem_iord_byte m (pkt_addr + 34)) + mem_iord_byte m (pkt_addr + 35))"

definition tcp_get_destination_port :: "ethbuf \<Rightarrow> u32 \<Rightarrow> u16" where
  "tcp_get_destination_port m pkt_addr = ucast (push_bit 8 (mem_iord_byte m (pkt_addr + 36)) + mem_iord_byte m (pkt_addr + 37))"

definition tcp_get_seqnum :: "ethbuf \<Rightarrow> u32 \<Rightarrow> u32" where
  "tcp_get_seqnum m pkt_addr =
     push_bit 24 (mem_iord_byte m (pkt_addr + 38)) + push_bit 16 (mem_iord_byte m (pkt_addr + 39))
       + push_bit 8 (mem_iord_byte m (pkt_addr + 40)) + mem_iord_byte m (pkt_addr + 41)"

definition tcp_get_acknum :: "ethbuf \<Rightarrow> u32 \<Rightarrow> u32" where
  "tcp_get_acknum m pkt_addr =
     push_bit 24 (mem_iord_byte m (pkt_addr + 42)) + push_bit 16 (mem_iord_byte m (pkt_addr + 43))
       + push_bit 8 (mem_iord_byte m (pkt_addr + 44)) + mem_iord_byte m (pkt_addr + 45)"

definition tcp_get_header_length :: "ethbuf \<Rightarrow> u32 \<Rightarrow> u8" where
  "tcp_get_header_length m pkt_addr = ucast (drop_bit 2 (mem_iord_byte m (pkt_addr + 46)))"

definition tcp_get_flags :: "ethbuf \<Rightarrow> u32 \<Rightarrow> u8" where
  "tcp_get_flags m pkt_addr = ucast (mem_iord_byte m (pkt_addr + 47) AND 0xFF)"

definition tcp_get_checksum :: "ethbuf \<Rightarrow> u32 \<Rightarrow> u16" where
  "tcp_get_checksum m pkt_addr = ucast (drop_bit 16 (mem_iord m (pkt_addr + 50)))"

definition tcp_get_data_length :: "ethbuf \<Rightarrow> u32 \<Rightarrow> u16" where
  "tcp_get_data_length m pkt_addr = ipv4_get_length m pkt_addr - 20 - ucast (tcp_get_header_length m pkt_addr)"

text \<open>
  \<open>tcp_get_data\<close> copies \<open>tcp_get_data_length\<close> bytes; its parameter \<open>data_length\<close> is not used, and
  nothing compares the length with the size of the array.
\<close>

definition tcp_get_data :: "ethbuf \<Rightarrow> u32 \<Rightarrow> u8 list \<Rightarrow> u32 \<Rightarrow> (u32 \<times> u8 list) option" where
  "tcp_get_data m pkt_addr data dlen =
     (let n = unat (tcp_get_data_length m pkt_addr) in
      if n \<le> length data
      then Some (of_nat n,
        fold (\<lambda>i d. d[i := ucast (mem_iord_byte m (pkt_addr + 34 + ucast (tcp_get_header_length m pkt_addr) + of_nat i))])
          [0..<n] data)
      else None)"

section \<open>Checksum\<close>

definition tcp_pseudo_sum :: "ethbuf \<Rightarrow> u32 \<Rightarrow> u32 \<Rightarrow> u32" where
  "tcp_pseudo_sum m pkt_addr c =
     (let half = (\<lambda>base i c. c + ucast (ucast (push_bit 8 (mem_iord_byte m (pkt_addr + base + of_nat i))
                    + mem_iord_byte m (pkt_addr + base + of_nat i + 1)) :: u16));
          c = fold (half 26) [0, 2] c
      in fold (half 30) [0, 2] c)"

definition tcp_pad :: "ethbuf \<Rightarrow> u32 \<Rightarrow> u16 \<Rightarrow> u16 \<times> ethbuf" where
  "tcp_pad m pkt_addr tcp_length =
     (if tcp_length AND 1 = 0 then (tcp_length, m)
      else (tcp_length + 1, mem_iowr_byte m (pkt_addr + 34 + ucast tcp_length) 0x00))"

definition tcp_compute_checksum :: "ethbuf \<Rightarrow> u32 \<Rightarrow> u16 \<Rightarrow> u16 \<Rightarrow> u16 \<times> ethbuf" where
  "tcp_compute_checksum m pkt_addr tcp_length dlen =
     (let (corrected_length, m) = tcp_pad m pkt_addr tcp_length;
          checksum = tcp_pseudo_sum m pkt_addr 0;
          checksum = checksum + 0x0006;
          checksum = checksum + ucast tcp_length;
          checksum = fold (\<lambda>k c. c + (push_bit 8 (mem_iord_byte m (pkt_addr + 34 + of_nat (2 * k)))
                                       + mem_iord_byte m (pkt_addr + 34 + of_nat (2 * k) + 1)))
                       [0..<unat corrected_length div 2] checksum
      in (ucast (csum_finish checksum), m))"

definition tcp_verify_checksum :: "ethbuf \<Rightarrow> u32 \<Rightarrow> int" where
  "tcp_verify_checksum m pkt_addr = 1"

section \<open>Sending\<close>

text \<open>The segment without its checksums, then the whole of \<open>tcp_send\<close>.\<close>

definition tcp_frame :: "tcp_connection \<Rightarrow> u16 \<Rightarrow> u8 list \<Rightarrow> u16 \<Rightarrow> ethbuf \<Rightarrow> ethbuf" where
  "tcp_frame conn flags data dlen m =
     (let tcp_length = dlen + 20; ip_len = tcp_length + 20; tx = eth_tx_addr conn;
          d = dstMAC conn; s = srcMAC conn; sip = srcIP conn; dip = dstIP conn;
          seq = seqNum conn; ack = ackNum conn;
          m = mem_iowr m tx
                (push_bit 24 (ucast (d ! 0)) OR push_bit 16 (ucast (d ! 1)) OR push_bit 8 (ucast (d ! 2)) OR ucast (d ! 3));
          m = mem_iowr m (tx + 4)
                (push_bit 24 (ucast (d ! 4)) OR push_bit 16 (ucast (d ! 5)) OR push_bit 8 (ucast (s ! 0)) OR ucast (s ! 1));
          m = mem_iowr m (tx + 8)
                (push_bit 24 (ucast (s ! 2)) OR push_bit 16 (ucast (s ! 3)) OR push_bit 8 (ucast (s ! 4)) OR ucast (s ! 5));
          m = mem_iowr m (tx + 12) 0x08004500;
          m = mem_iowr m (tx + 16) (push_bit 16 (ucast ip_len) OR ucast (conn_ipv4_id conn));
          m = mem_iowr m (tx + 20) 0x40004006;
          m = mem_iowr m (tx + 24) (push_bit 8 (ucast (sip ! 0)) OR ucast (sip ! 1));
          m = mem_iowr m (tx + 28)
                (push_bit 24 (ucast (sip ! 2)) OR push_bit 16 (ucast (sip ! 3)) OR push_bit 8 (ucast (dip ! 0)) OR ucast (dip ! 1));
          m = mem_iowr m (tx + 32)
                (push_bit 24 (ucast (dip ! 2)) OR push_bit 16 (ucast (dip ! 3)) OR ucast (srcport conn));
          m = mem_iowr m (tx + 36)
                (push_bit 16 (ucast (dstport conn)) OR push_bit 8 (drop_bit 24 seq) OR (drop_bit 16 seq AND 0xFF));
          m = mem_iowr m (tx + 40)
                (push_bit 24 (drop_bit 8 seq AND 0xFF) OR push_bit 16 (seq AND 0xFF)
                  OR push_bit 8 (drop_bit 24 ack) OR (drop_bit 16 ack AND 0xFF));
          m = mem_iowr m (tx + 44)
                (push_bit 24 (drop_bit 8 ack AND 0xFF) OR push_bit 16 (ack AND 0xFF)
                  OR push_bit 8 (push_bit 2 (ucast tcp_length - ucast dlen)) OR (ucast (ucast flags :: u8) AND 0xFF));
          m = mem_iowr m (tx + 48) (push_bit 24 0x72 OR push_bit 16 0x10 OR 0x0000);
          m = mem_iowr m (tx + 52) 0x0000
      in wr_bytes m (tx + 54) data (unat dlen))"

definition tcp_fill :: "tcp_connection \<Rightarrow> u16 \<Rightarrow> u8 list \<Rightarrow> u16 \<Rightarrow> ethbuf \<Rightarrow> u16 \<times> ethbuf" where
  "tcp_fill conn flags data dlen m =
     (let tcp_length = dlen + 20;
          frame_length = tcp_length + 20 + 14;
          tx = eth_tx_addr conn;
          m = tcp_frame conn flags data dlen m;
          checksum = ipv4_compute_checksum m tx;
          m = mem_iowr_byte m (tx + 24) (ucast (drop_bit 8 checksum));
          m = mem_iowr_byte m (tx + 25) (ucast (checksum AND 0xFF));
          (checksum, m) = tcp_compute_checksum m tx tcp_length dlen;
          m = mem_iowr_byte m (tx + 50) (ucast (drop_bit 8 checksum));
          m = mem_iowr_byte m (tx + 51) (ucast (checksum AND 0xFF))
      in (frame_length, m))"

definition tcp_send ::
    "'d eth_if \<Rightarrow> tcp_connection \<Rightarrow> u16 \<Rightarrow> u8 list \<Rightarrow> u16 \<Rightarrow> ('d, 'z) eth_mach_scheme \<Rightarrow> u32 \<times> ('d, 'z) eth_mach_scheme" where
  "tcp_send io conn flags data dlen s =
     (let (frame_length, m) = tcp_fill conn flags data dlen (eth_buf s)
      in eth_mac_send_nb io (eth_tx_addr conn) (ucast frame_length) (s\<lparr>eth_buf := m\<rparr>))"

section \<open>Connections\<close>

definition tcp_init_connection ::
    "u32 \<Rightarrow> u32 \<Rightarrow> u8 list \<Rightarrow> u8 list \<Rightarrow> u8 list \<Rightarrow> u8 list \<Rightarrow> u16 \<Rightarrow> u16 \<Rightarrow> u16 \<Rightarrow> u16 \<Rightarrow> tcp_connection \<Rightarrow> tcp_connection" where
  "tcp_init_connection tx rx smac dmac sip dip sport dport sbs rbs conn =
     conn\<lparr>eth_tx_addr := tx, eth_rx_addr := rx,
       srcMAC := fold (\<lambda>i a. a[i := smac ! i]) [0..<6] (srcMAC conn),
       dstMAC := fold (\<lambda>i a. a[i := dmac ! i]) [0..<6] (dstMAC conn),
       srcIP := fold (\<lambda>i a. a[i := sip ! i]) [0..<4] (srcIP conn),
       dstIP := fold (\<lambda>i a. a[i := dip ! i]) [0..<4] (dstIP conn),
       srcport := sport, dstport := dport, status := CLOSED, conn_ipv4_id := 0x1111,
       seqNum := 0x12345678, ackNum := 0x0,
       send_buffer := fold (\<lambda>i a. a[i := 0x30]) [0..<unat sbs] (send_buffer conn), send_buffer_size := sbs,
       recv_buffer := fold (\<lambda>i a. a[i := 0x30]) [0..<unat rbs] (recv_buffer conn), recv_buffer_size := rbs\<rparr>"

text \<open>A call \<open>tcp_send(conn, flags, {'0'}, 0)\<close> whose result is ignored.\<close>

definition tcp_send_ctl ::
    "'d eth_if \<Rightarrow> tcp_connection \<Rightarrow> u16 \<Rightarrow> ('d, 'z) eth_mach_scheme \<Rightarrow> ('d, 'z) eth_mach_scheme" where
  "tcp_send_ctl io conn flags s = snd (tcp_send io conn flags [0x30] 0 s)"

definition tcp_handle ::
    "'d eth_if \<Rightarrow> tcp_connection \<Rightarrow> ('d, 'z) eth_mach_scheme \<Rightarrow> u8 \<times> tcp_connection \<times> ('d, 'z) eth_mach_scheme" where
  "tcp_handle io conn s =
     (let m = eth_buf s; rx = eth_rx_addr conn;
          flags = tcp_get_flags m rx;
          rx_dst_port = tcp_get_destination_port m rx
      in if rx_dst_port = srcport conn then
           (case status conn of
              CLOSED \<Rightarrow> (1, conn, tcp_send_ctl io conn (RST OR ACK) s)
            | LISTEN \<Rightarrow>
                if flags AND SYN = SYN
                then (0, conn\<lparr>status := SYN_RCVD\<rparr>, tcp_send_ctl io conn (SYN OR ACK) s)
                else (0, conn, s)
            | SYN_SENT \<Rightarrow>
                if flags = (SYN OR ACK)
                then let conn = conn\<lparr>seqNum := tcp_get_acknum m rx\<rparr>;
                         conn = conn\<lparr>ackNum := tcp_get_seqnum m rx + 1\<rparr>;
                         s = tcp_send_ctl io conn ACK s
                     in (1, conn\<lparr>status := ESTABLISHED\<rparr>, s)
                else if flags = SYN
                then (0, conn\<lparr>status := SYN_RCVD\<rparr>, tcp_send_ctl io conn (SYN OR ACK) s)
                else if flags = (RST OR ACK)
                then (0, conn\<lparr>status := CLOSED\<rparr>, s)
                else (0, conn\<lparr>status := CLOSED\<rparr>, tcp_send_ctl io conn RST s)
            | SYN_RCVD \<Rightarrow>
                if flags AND ACK = ACK then (1, conn\<lparr>status := ESTABLISHED\<rparr>, s) else (0, conn, s)
            | ESTABLISHED \<Rightarrow>
                if flags = FIN
                then let conn = conn\<lparr>status := CLOSE_WAIT\<rparr> in (0, conn, tcp_send_ctl io conn ACK s)
                else (1, conn, tcp_send_ctl io conn ACK s)
            | FIN_WAIT_1 \<Rightarrow>
                if flags = (FIN OR ACK)
                then (0, conn\<lparr>status := TIME_WAIT\<rparr>, tcp_send_ctl io conn ACK s)
                else if flags = FIN
                then (0, conn\<lparr>status := CLOSING\<rparr>, tcp_send_ctl io conn ACK s)
                else if flags = ACK
                then (0, conn\<lparr>status := FIN_WAIT_2\<rparr>, tcp_send_ctl io conn ACK s)
                else (0, conn, s)
            | FIN_WAIT_2 \<Rightarrow>
                if flags AND FIN = FIN
                then (0, conn\<lparr>status := CLOSING\<rparr>, tcp_send_ctl io conn ACK s)
                else (0, conn, s)
            | CLOSE_WAIT \<Rightarrow> (0, conn\<lparr>status := LAST_ACK\<rparr>, s)
            | CLOSING \<Rightarrow> (0, if flags = ACK then conn\<lparr>status := TIME_WAIT\<rparr> else conn, s)
            | TIME_WAIT \<Rightarrow> (1, conn\<lparr>status := CLOSED\<rparr>, s)
            | LAST_ACK \<Rightarrow>
                if flags = ACK then (1, conn\<lparr>status := CLOSED\<rparr>, s) else (0, conn, s))
         else (1, conn, s))"

text \<open>
  The end of \<open>tcp_connect\<close>, \<open>tcp_listen\<close> and \<open>tcp_close\<close>: wait at most a microsecond for a frame and
  handle it if it is a TCP segment.
\<close>

definition tcp_receive_handle ::
    "'d eth_if \<Rightarrow> tcp_connection \<Rightarrow> ('d, 'z) eth_mach_scheme \<Rightarrow> (int \<times> tcp_connection \<times> ('d, 'z) eth_mach_scheme) option" where
  "tcp_receive_handle io conn s =
     do {
       (r, s) \<leftarrow> eth_mac_receive io (eth_rx_addr conn) 1 s;
       if r \<noteq> 0 \<and> mac_packet_type (eth_buf s) (eth_rx_addr conn) = TCP
       then (case tcp_handle io conn s of (res, conn, s) \<Rightarrow> Some (uint res, conn, s))
       else Some (0, conn, s)
     }"

definition tcp_connect ::
    "'d eth_if \<Rightarrow> tcp_connection \<Rightarrow> ('d, 'z) eth_mach_scheme \<Rightarrow> (int \<times> tcp_connection \<times> ('d, 'z) eth_mach_scheme) option" where
  "tcp_connect io conn s =
     (case tcp_send io conn SYN [0x30] 1 s of (r, s) \<Rightarrow>
        if r \<noteq> 0 then tcp_receive_handle io (conn\<lparr>status := SYN_SENT\<rparr>) s else Some (0, conn, s))"

definition tcp_listen ::
    "'d eth_if \<Rightarrow> tcp_connection \<Rightarrow> ('d, 'z) eth_mach_scheme \<Rightarrow> (int \<times> tcp_connection \<times> ('d, 'z) eth_mach_scheme) option" where
  "tcp_listen io conn s =
     (case tcp_send io conn SYN [0x30] 1 s of (r, s) \<Rightarrow>
        if r \<noteq> 0 then tcp_receive_handle io (conn\<lparr>status := LISTEN\<rparr>) s else Some (0, conn, s))"

definition tcp_close ::
    "'d eth_if \<Rightarrow> tcp_connection \<Rightarrow> ('d, 'z) eth_mach_scheme \<Rightarrow> (int \<times> tcp_connection \<times> ('d, 'z) eth_mach_scheme) option" where
  "tcp_close io conn s =
     (case status conn of
        SYN_RCVD \<Rightarrow> tcp_receive_handle io (conn\<lparr>status := FIN_WAIT_1\<rparr>) (tcp_send_ctl io conn FIN s)
      | ESTABLISHED \<Rightarrow> tcp_receive_handle io (conn\<lparr>status := FIN_WAIT_1\<rparr>) (tcp_send_ctl io conn FIN s)
      | CLOSE_WAIT \<Rightarrow> tcp_receive_handle io (conn\<lparr>status := LAST_ACK\<rparr>) (tcp_send_ctl io conn FIN s)
      | FIN_WAIT_1 \<Rightarrow> tcp_receive_handle io conn s
      | FIN_WAIT_2 \<Rightarrow> tcp_receive_handle io conn s
      | CLOSING \<Rightarrow> tcp_receive_handle io conn s
      | LAST_ACK \<Rightarrow> tcp_receive_handle io conn s
      | TIME_WAIT \<Rightarrow> Some (1, conn\<lparr>status := CLOSED\<rparr>, s)
      | CLOSED \<Rightarrow> Some (1, conn\<lparr>status := CLOSED\<rparr>, s)
      | LISTEN \<Rightarrow> Some (1, conn\<lparr>status := CLOSED\<rparr>, s)
      | SYN_SENT \<Rightarrow> Some (1, conn\<lparr>status := CLOSED\<rparr>, s))"

definition tcp_push ::
    "'d eth_if \<Rightarrow> tcp_connection \<Rightarrow> ('d, 'z) eth_mach_scheme \<Rightarrow> (int \<times> tcp_connection \<times> ('d, 'z) eth_mach_scheme) option" where
  "tcp_push io conn s =
     (let s = snd (tcp_send io conn (PSH OR ACK) (send_buffer conn) (send_buffer_size conn) s); rx = eth_rx_addr conn in
      do {
        (r, s) \<leftarrow> eth_mac_receive io rx 1 s;
        if r \<noteq> 0 \<and> mac_packet_type (eth_buf s) rx = TCP
        then if tcp_get_destination_port (eth_buf s) rx = srcport conn \<and> tcp_get_flags (eth_buf s) rx AND ACK = ACK
             then Some (1, conn, s)
             else Some (0, conn, snd (tcp_send io conn (PSH OR ACK) (send_buffer conn) (send_buffer_size conn) s))
        else Some (0, conn, s)
      })"

definition tcp_recv ::
    "'d eth_if \<Rightarrow> tcp_connection \<Rightarrow> ('d, 'z) eth_mach_scheme \<Rightarrow> (int \<times> tcp_connection \<times> ('d, 'z) eth_mach_scheme) option" where
  "tcp_recv io conn s =
     (let rx = eth_rx_addr conn in
      do {
        (r, s) \<leftarrow> eth_mac_receive io rx 1 s;
        if r \<noteq> 0 \<and> mac_packet_type (eth_buf s) rx = TCP
          \<and> tcp_get_destination_port (eth_buf s) rx = srcport conn \<and> tcp_get_flags (eth_buf s) rx AND PSH = PSH
        then do {
          (n, data) \<leftarrow> tcp_get_data (eth_buf s) rx (recv_buffer conn) (ucast (recv_buffer_size conn));
          let conn = conn\<lparr>recv_buffer := data, recv_buffer_size := ucast n\<rparr>;
          Some (1, conn, tcp_send_ctl io conn ACK s)
        }
        else Some (0, conn, s)
      })"

section \<open>The segment\<close>

lemma tcp_frame_fields:
  assumes "tx AND 3 = 0" "eth_tx_addr conn = tx" "unat dlen + 20 < 65536"
    and "f = tcp_frame conn flags data dlen m"
  shows "mac_addr_dest f tx = [dstMAC conn ! 0, dstMAC conn ! 1, dstMAC conn ! 2, dstMAC conn ! 3, dstMAC conn ! 4, dstMAC conn ! 5]"
    "mac_addr_sender f tx = [srcMAC conn ! 0, srcMAC conn ! 1, srcMAC conn ! 2, srcMAC conn ! 3, srcMAC conn ! 4, srcMAC conn ! 5]"
    "ipv4_get_source_ip f tx = [srcIP conn ! 0, srcIP conn ! 1, srcIP conn ! 2, srcIP conn ! 3]"
    "ipv4_get_destination_ip f tx = [dstIP conn ! 0, dstIP conn ! 1, dstIP conn ! 2, dstIP conn ! 3]"
    "mac_packet_type f tx = TCP"
    "mem_iord_byte f (tx + 25) = 0" "mem_iord_byte f (tx + 50) = 0" "mem_iord_byte f (tx + 51) = 0"
    "be16 f (tx + 34) = unat (srcport conn)" "be16 f (tx + 36) = unat (dstport conn)"
    "tcp_get_seqnum f tx = seqNum conn" "tcp_get_acknum f tx = ackNum conn"
    "mem_iord_byte f (tx + 46) = 80" "mem_iord_byte f (tx + 47) = ucast (ucast flags :: u8)"
    "be16 f (tx + 16) = unat (40 + dlen)"
proof -
  have n: "unat dlen \<le> 65536" using unat_u16_lt [of dlen] by simp
  have "unat (dlen + 20) = unat dlen + 20" using assms(3) by (simp add: unat_word_ariths)
  then have d: "ucast (dlen + 20) - ucast dlen = (20 :: u32)"
    using assms(3) by (simp add: word_unat_eq_iff unat_sub word_le_nat_alt unat_ucast_u16)
  note rd = assms(4) tcp_frame_def Let_def frame_rd assms(2) d
  show "mac_addr_dest f tx = [dstMAC conn ! 0, dstMAC conn ! 1, dstMAC conn ! 2, dstMAC conn ! 3, dstMAC conn ! 4, dstMAC conn ! 5]"
    using assms(1) n by (simp add: mac_addr_dest_def rd)
  show "mac_addr_sender f tx = [srcMAC conn ! 0, srcMAC conn ! 1, srcMAC conn ! 2, srcMAC conn ! 3, srcMAC conn ! 4, srcMAC conn ! 5]"
    using assms(1) n by (simp add: mac_addr_sender_def rd)
  show "ipv4_get_source_ip f tx = [srcIP conn ! 0, srcIP conn ! 1, srcIP conn ! 2, srcIP conn ! 3]"
    using assms(1) n by (simp add: ipv4_get_source_ip_def rd_bytes_4 rd)
  show "ipv4_get_destination_ip f tx = [dstIP conn ! 0, dstIP conn ! 1, dstIP conn ! 2, dstIP conn ! 3]"
    using assms(1) n by (simp add: ipv4_get_destination_ip_def rd_bytes_4 rd)
  show "mac_packet_type f tx = TCP"
    using assms(1) n by (simp add: mac_packet_type_def rd)
  show "mem_iord_byte f (tx + 25) = 0" "mem_iord_byte f (tx + 50) = 0" "mem_iord_byte f (tx + 51) = 0"
    using assms(1) n by (simp_all add: rd)
  show "be16 f (tx + 34) = unat (srcport conn)" "be16 f (tx + 36) = unat (dstport conn)"
    "be16 f (tx + 16) = unat (40 + dlen)"
    using assms(1) n by (simp_all add: be16_def rd unat_ucast_u16 unat_u16_split)
  show "tcp_get_seqnum f tx = seqNum conn" "tcp_get_acknum f tx = ackNum conn"
    using assms(1) n word_of_get_bytes [of "seqNum conn"] word_of_get_bytes [of "ackNum conn"]
    by (simp_all add: tcp_get_seqnum_def tcp_get_acknum_def rd)
  show "mem_iord_byte f (tx + 46) = 80" "mem_iord_byte f (tx + 47) = ucast (ucast flags :: u8)"
    using assms(1) n by (simp_all add: rd)
qed

section \<open>The checksum\<close>

lemma be16_plus: "unat (push_bit 8 (mem_iord_byte m a) + mem_iord_byte m (a + 1)) = be16 m a"
  using be16_le [of m a] by (simp add: be16_def unat_word_ariths unat_push_8 mem_iord_byte_lt)

lemma tcp_half_word:
  "ucast (ucast (push_bit 8 (mem_iord_byte m a) + mem_iord_byte m (a + 1)) :: u16) = push_bit 8 (mem_iord_byte m a) + mem_iord_byte m (a + 1)"
proof -
  let ?x = "push_bit 8 (mem_iord_byte m a) + mem_iord_byte m (a + 1)"
  have "unat (ucast ?x :: u16) = be16 m a"
    using be16_plus [of m a] be16_le [of m a] by (simp only: unsigned_ucast_eq) (simp add: take_bit_nat_eq_self)
  then have "unat (ucast (ucast ?x :: u16) :: u32) = unat ?x"
    by (simp only: unat_ucast_u16 be16_plus)
  then show ?thesis by (simp only: word_unat_eq_iff)
qed

lemma unat_tcp_pseudo_sum: "unat (tcp_pseudo_sum m a 0) = pseudo_header_sum m a"
proof -
  let ?w = "\<lambda>b. push_bit 8 (mem_iord_byte m b) + mem_iord_byte m (b + 1)"
  have "tcp_pseudo_sum m a 0 = ?w (a + 26) + ?w (a + 28) + ?w (a + 30) + ?w (a + 32)"
    unfolding tcp_pseudo_sum_def Let_def tcp_half_word
    by (simp only: fold_simps of_nat_0 of_nat_numeral add_0_left add_0_right addr_offset(1) numeral_plus_numeral
        arith_simps add.assoc) simp
  moreover have sum: "unat (w + x + y + z) = unat w + unat x + unat y + unat z"
    if "unat w + unat x + unat y + unat z \<le> 262140" for w x y z :: u32
    using that by (simp add: unat_word_ariths)
  moreover have "unat (?w (a + 26) + ?w (a + 28) + ?w (a + 30) + ?w (a + 32)) = pseudo_header_sum m a"
    using pseudo_header_sum_le [of m a] sum [of "?w (a + 26)" "?w (a + 28)" "?w (a + 30)" "?w (a + 32)"]
    unfolding pseudo_header_sum_def by (simp only: be16_plus)
  ultimately show ?thesis by simp
qed

lemma tcp_words_eq:
  "fold (\<lambda>k c. c + (push_bit 8 (mem_iord_byte m (a + 34 + of_nat (2 * k))) + mem_iord_byte m (a + 34 + of_nat (2 * k) + 1)))
     [0..<n] c = csum_words m (a + 34) (a + 34 + 1) n c"
  unfolding csum_words_def and_255 mem_rd_byte by (simp only: add.assoc add.commute [of _ 1])

definition tcp_sum :: "ethbuf \<Rightarrow> u32 \<Rightarrow> nat \<Rightarrow> nat \<Rightarrow> nat" where
  "tcp_sum m a n len = pseudo_header_sum m a + 6 + len + be16_sum m (a + 34) n"

lemma tcp_pad_length:
  assumes "unat len \<noteq> 65535"
  shows "unat (fst (tcp_pad m a len)) div 2 = (unat len + 1) div 2"
    "snd (tcp_pad m a len) = (if even (unat len) then m else mem_iowr_byte m (a + 34 + ucast len) 0)"
  using udp_pad_length [OF assms, of m a] by (auto simp: tcp_pad_def udp_pad_def ac_simps)

lemma tcp_compute_oc:
  assumes "unat len \<noteq> 65535"
  shows "unat (fst (tcp_compute_checksum m a len dlen))
      = 65535 - oc_sum (tcp_sum (snd (tcp_pad m a len)) a ((unat len + 1) div 2) (unat len))"
    "snd (tcp_compute_checksum m a len dlen) = snd (tcp_pad m a len)"
proof -
  obtain cl mp where pad: "tcp_pad m a len = (cl, mp)" by fastforce
  let ?n = "(unat len + 1) div 2"
  have n: "unat cl div 2 = ?n" using tcp_pad_length(1) [OF assms, of m a] by (simp add: pad)
  have le: "?n \<le> 32768" using unat_u16_lt [of len] by simp
  have c: "unat (tcp_pseudo_sum mp a 0 + 6 + ucast len) = pseudo_header_sum mp a + 6 + unat len"
    using pseudo_header_sum_le [of mp a] unat_u16_lt [of len]
    by (simp add: unat_word_ariths unat_tcp_pseudo_sum unat_ucast_u16)
  have "unat (csum_words mp (a + 34) (a + 34 + 1) ?n (tcp_pseudo_sum mp a 0 + 6 + ucast len)) = tcp_sum mp a ?n (unat len)"
    using le pseudo_header_sum_le [of mp a] unat_u16_lt [of len]
    by (subst unat_csum_words) (simp_all add: c tcp_sum_def)
  then show "unat (fst (tcp_compute_checksum m a len dlen))
      = 65535 - oc_sum (tcp_sum (snd (tcp_pad m a len)) a ?n (unat len))"
    unfolding tcp_compute_checksum_def Let_def pad prod.case n tcp_words_eq fst_conv snd_conv
    by (simp only: ucast_u16_finish)
  show "snd (tcp_compute_checksum m a len dlen) = snd (tcp_pad m a len)"
    by (simp add: tcp_compute_checksum_def Let_def pad)
qed

lemma be16_sum_wr:
  assumes "k < n" "n \<le> 32768"
  shows "be16_sum (wr_be16 m (a + of_nat (2 * k)) v) a n + be16 m (a + of_nat (2 * k)) = be16_sum m a n + unat v"
proof -
  let ?m = "wr_be16 m (a + of_nat (2 * k)) v"
  have "be16 ?m (a + of_nat (2 * j)) = be16 m (a + of_nat (2 * j))" if "j < n" "j \<noteq> k" for j
  proof -
    have u: "unat (of_nat i :: u32) = i" if "i < 65537" for i
      using that by (simp only: unat_of_nat) (simp add: take_bit_nat_eq_self)
    have "of_nat (2 * j) \<noteq> (of_nat (2 * k) :: u32)" "of_nat (2 * j) \<noteq> (of_nat (2 * k + 1) :: u32)"
      "of_nat (2 * j + 1) \<noteq> (of_nat (2 * k) :: u32)"
      using that assms by (simp_all only: word_unat_eq_iff u)
    then show ?thesis by (intro be16_wr_be16_other) (simp_all add: add.assoc add.commute [of 1])
  qed
  then have "(\<Sum>j\<in>{..<n} - {k}. be16 ?m (a + of_nat (2 * j))) = (\<Sum>j\<in>{..<n} - {k}. be16 m (a + of_nat (2 * j)))"
    by (intro sum.cong) auto
  moreover have "(\<Sum>j<n. f j) = f k + (\<Sum>j\<in>{..<n} - {k}. f j)" for f :: "nat \<Rightarrow> nat"
    using assms(1) by (simp add: sum.remove)
  ultimately show ?thesis by (simp only: be16_sum_def be16_wr_be16)
qed

section \<open>What is sent\<close>

lemma tcp_fill_eq:
  assumes "f = tcp_frame conn flags data dlen m" "tx = eth_tx_addr conn"
    and "f1 = wr_be16 f (tx + 24) (ipv4_compute_checksum f tx)"
  shows "tcp_fill conn flags data dlen m
    = (dlen + 54, wr_be16 (snd (tcp_compute_checksum f1 tx (dlen + 20) dlen)) (tx + 50)
         (fst (tcp_compute_checksum f1 tx (dlen + 20) dlen)))"
  unfolding tcp_fill_def Let_def assms(1,2) [symmetric]
  by (simp add: assms(3) wr_be16_def case_prod_beta)

lemma tcp_pad_rd:
  assumes "unat len \<noteq> 65535"
  shows "mem_iord_byte (snd (tcp_pad m a len)) (a + k)
    = (if odd (unat len) \<and> unat k = unat len + 34 then 0 else mem_iord_byte m (a + k))"
proof -
  have "unat (34 + ucast len :: u32) = unat len + 34"
    using unat_u16_lt [of len] by (simp add: unat_word_ariths)
  then have "a + k = a + 34 + ucast len \<longleftrightarrow> unat k = unat len + 34"
    by (simp only: add.assoc add_left_cancel word_unat_eq_iff [of k])
  then show ?thesis
    unfolding tcp_pad_length(2) [OF assms] by (simp add: mem_rd_wr)
qed

lemma tcp_fill_rd:
  assumes "tx AND 3 = 0" "eth_tx_addr conn = tx" "unat dlen + 54 < 65536"
    and "f = tcp_frame conn flags data dlen m" "tcp_fill conn flags data dlen m = (flen, g)"
  shows "unat k < 54 + unat dlen \<Longrightarrow> k \<notin> {24, 25, 50, 51} \<Longrightarrow> mem_iord_byte g (tx + k) = mem_iord_byte f (tx + k)"
    and "ipv4_verify_checksum g tx = 1"
    and "oc_sum (tcp_sum g tx ((unat dlen + 21) div 2) (unat dlen + 20)) = 0xFFFF"
proof -
  define f1 where "f1 = wr_be16 f (tx + 24) (ipv4_compute_checksum f tx)"
  define p where "p = snd (tcp_pad f1 tx (dlen + 20))"
  define c where "c = fst (tcp_compute_checksum f1 tx (dlen + 20) dlen)"
  let ?n = "(unat dlen + 21) div 2"
  note fr = tcp_frame_fields [OF assms(1,2) _ assms(4)]
  have l: "unat (dlen + 20) = unat dlen + 20" using assms(3) by (simp add: unat_word_ariths)
  have L: "unat (dlen + 20) \<noteq> 65535" using assms(3) by (simp add: l)
  have g: "g = wr_be16 p (tx + 50) c"
    using assms(5) tcp_fill_eq [OF assms(4) assms(2) [symmetric] f1_def]
    by (simp add: tcp_compute_oc(2) [OF L] p_def c_def)
  have gf1: "mem_iord_byte g (tx + j) = mem_iord_byte f1 (tx + j)"
    if "unat j < 54 + unat dlen" "j \<noteq> 50" "j \<noteq> 51" for j
    using that tcp_pad_rd [OF L, of f1 tx j] by (simp add: g rd_wr_be16 l flip: p_def)
  show "mem_iord_byte g (tx + k) = mem_iord_byte f (tx + k)" if "unat k < 54 + unat dlen" "k \<notin> {24, 25, 50, 51}"
    using that gf1 [of k] by (simp add: f1_def rd_wr_be16)
  have "be16_sum g (tx + 14) 10 = be16_sum f1 (tx + 14) 10"
  proof (rule be16_sum_cong_rd)
    fix j :: nat assume j: "j < 2 * 10"
    then have "unat (of_nat (14 + j) :: u32) = 14 + j"
      by (simp only: unat_of_nat) (simp add: take_bit_nat_eq_self)
    with j show "mem_iord_byte g (tx + 14 + of_nat j) = mem_iord_byte f1 (tx + 14 + of_nat j)"
      using gf1 [of "of_nat (14 + j)"] of_nat_small_ne [of "14 + j" 50] of_nat_small_ne [of "14 + j" 51]
      by (simp add: add.assoc)
  qed
  then have "ipv4_verify_checksum g tx = ipv4_verify_checksum f1 tx" by (simp only: ipv4_verify_checksum_oc)
  then show "ipv4_verify_checksum g tx = 1"
    using ipv4_store_checksum [of f tx] fr(6) assms(3) by (simp add: f1_def)
  have z: "be16 p (tx + 50) = 0"
    using fr(7,8) assms(3) tcp_pad_rd [OF L, of f1 tx 50] tcp_pad_rd [OF L, of f1 tx 51]
    by (simp add: be16_def p_def l f1_def rd_wr_be16)
  have o: "tx + 34 + of_nat (2 * 8) = tx + 50" by simp
  have "be16_sum g (tx + 34) ?n = be16_sum p (tx + 34) ?n + unat c"
    using be16_sum_wr [of 8 ?n p "tx + 34" c] assms(3) by (simp only: o z g) simp
  moreover have "pseudo_header_sum g tx = pseudo_header_sum p tx"
    by (simp add: pseudo_header_sum_def g be16_wr_be16_other)
  ultimately have "tcp_sum g tx ?n (unat dlen + 20) = tcp_sum p tx ?n (unat dlen + 20) + unat c"
    by (simp add: tcp_sum_def)
  moreover have "unat c = 65535 - oc_sum (tcp_sum p tx ?n (unat dlen + 20))"
    unfolding c_def p_def tcp_compute_oc(1) [OF L] by (simp add: l add.commute)
  ultimately show "oc_sum (tcp_sum g tx ?n (unat dlen + 20)) = 0xFFFF"
    using oc_complement_iff [of 0 "tcp_sum p tx ?n (unat dlen + 20)"] by simp
qed


lemma fold_upd_fun:
  "n \<le> length d \<Longrightarrow> fold (\<lambda>i d. d[i := g i]) [0..<n] d = map g [0..<n] @ drop n d"
  by (induction n) (auto simp: list_update_append simp flip: Cons_nth_drop_Suc)

lemma tcp_get_data_eq:
  assumes "unat (tcp_get_data_length m a) \<le> length d" "tcp_get_header_length m a = 20"
  shows "tcp_get_data m a d k = Some (ucast (tcp_get_data_length m a),
    rd_bytes m (a + 54) (unat (tcp_get_data_length m a)) @ drop (unat (tcp_get_data_length m a)) d)"
  using assms by (simp add: tcp_get_data_def Let_def fold_upd_fun rd_bytes_def)

lemma tcp_frame_data:
  assumes "unat dlen \<le> length data"
  shows "rd_bytes (tcp_frame conn flags data dlen m) (eth_tx_addr conn + 54) (unat dlen) = take (unat dlen) data"
  using assms unat_u16_lt [of dlen] by (simp add: tcp_frame_def Let_def rd_bytes_wr_bytes)

text \<open>The fields of the segment that the receiver's state machine looks at.\<close>

lemma tcp_fill_control:
  assumes "tx AND 3 = 0" "eth_tx_addr conn = tx" "unat dlen + 54 < 65536"
    and "tcp_fill conn flags data dlen m = (flen, m')"
  shows "tcp_get_source_port m' tx = srcport conn" "tcp_get_destination_port m' tx = dstport conn"
    "tcp_get_seqnum m' tx = seqNum conn" "tcp_get_acknum m' tx = ackNum conn"
    "tcp_get_header_length m' tx = 20" "tcp_get_flags m' tx = ucast flags"
proof -
  define f where "f = tcp_frame conn flags data dlen m"
  note fr = tcp_frame_fields [OF assms(1,2) _ f_def]
  have L: "unat dlen + 20 < 65536" using assms(3) by simp
  note rd = tcp_fill_rd(1) [OF assms(1-3) f_def assms(4)]
  have be: "be16 m' (tx + 34) = be16 f (tx + 34)" "be16 m' (tx + 36) = be16 f (tx + 36)"
    by (simp_all add: be16_def rd)
  have port: "unat (ucast (push_bit 8 (mem_iord_byte m' a) + mem_iord_byte m' (a + 1)) :: u16) = be16 m' a" for a
    using be16_plus [of m' a] be16_le [of m' a] by (simp only: unsigned_ucast_eq) (simp add: take_bit_nat_eq_self)
  show "tcp_get_source_port m' tx = srcport conn" "tcp_get_destination_port m' tx = dstport conn"
    using port [of "tx + 34"] port [of "tx + 36"] fr(9,10) L
    by (simp_all add: tcp_get_source_port_def tcp_get_destination_port_def word_unat_eq_iff be)
  show "tcp_get_seqnum m' tx = seqNum conn" "tcp_get_acknum m' tx = ackNum conn"
    using fr(11,12) L by (simp_all add: tcp_get_seqnum_def tcp_get_acknum_def rd)
  show "tcp_get_header_length m' tx = 20" "tcp_get_flags m' tx = ucast flags"
    using fr(13,14) L by (simp_all add: tcp_get_header_length_def tcp_get_flags_def rd)
qed

lemma same_frame_tcp:
  assumes "same_frame m a m' a' 54"
  shows "tcp_get_destination_port m a = tcp_get_destination_port m' a'" "tcp_get_flags m a = tcp_get_flags m' a'"
    "tcp_get_seqnum m a = tcp_get_seqnum m' a'" "tcp_get_acknum m a = tcp_get_acknum m' a'"
  by (simp_all add: tcp_get_destination_port_def tcp_get_flags_def tcp_get_seqnum_def tcp_get_acknum_def same_frameD [OF assms])

text \<open>A segment of \<open>peer\<close> as it stands in the receive buffer.\<close>

definition segment_of :: "tcp_connection \<Rightarrow> u16 \<Rightarrow> u8 list \<Rightarrow> u16 \<Rightarrow> ethbuf \<Rightarrow> ethbuf \<Rightarrow> u32 \<Rightarrow> bool" where
  "segment_of peer flags data dlen m0 m rx \<longleftrightarrow> eth_tx_addr peer AND 3 = 0 \<and> unat dlen + 54 < 65536
     \<and> same_frame m rx (snd (tcp_fill peer flags data dlen m0)) (eth_tx_addr peer) 54"

lemma segment_of_fields:
  assumes "segment_of peer flags data dlen m0 m rx"
  shows "tcp_get_destination_port m rx = dstport peer" "tcp_get_flags m rx = ucast flags"
    "tcp_get_seqnum m rx = seqNum peer" "tcp_get_acknum m rx = ackNum peer"
proof -
  have fr: "same_frame m rx (snd (tcp_fill peer flags data dlen m0)) (eth_tx_addr peer) 54"
    and l: "eth_tx_addr peer AND 3 = 0" "unat dlen + 54 < 65536"
    using assms unfolding segment_of_def by blast+
  show "tcp_get_destination_port m rx = dstport peer" "tcp_get_flags m rx = ucast flags"
    "tcp_get_seqnum m rx = seqNum peer" "tcp_get_acknum m rx = ackNum peer"
    unfolding same_frame_tcp [OF fr] by (rule tcp_fill_control [OF l(1) refl l(2) surjective_pairing])+
qed

text \<open>
  C9. What \<open>tcp_send\<close> transmits parses back: the frame is a TCP segment between the two ends of the
  connection with its sequence and acknowledgment numbers, the given flags and the given data,
  its IP header verifies and the ones' complement sum over pseudo header and segment is
  \<open>0xFFFF\<close>.
\<close>

theorem tcp_fill_parses_back:
  assumes "eth_tx_addr conn = tx" "tx AND 3 = 0" "unat dlen \<le> length data" "unat dlen + 54 < 65536"
    and "length (dstMAC conn) = 6" "length (srcMAC conn) = 6" "length (srcIP conn) = 4" "length (dstIP conn) = 4"
    and "tcp_fill conn flags data dlen m = (flen, m')"
  shows "unat flen = unat dlen + 54 \<and> mac_packet_type m' tx = TCP
    \<and> mac_addr_dest m' tx = dstMAC conn \<and> mac_addr_sender m' tx = srcMAC conn
    \<and> ipv4_get_source_ip m' tx = srcIP conn \<and> ipv4_get_destination_ip m' tx = dstIP conn
    \<and> ipv4_verify_checksum m' tx = 1
    \<and> tcp_get_source_port m' tx = srcport conn \<and> tcp_get_destination_port m' tx = dstport conn
    \<and> tcp_get_seqnum m' tx = seqNum conn \<and> tcp_get_acknum m' tx = ackNum conn
    \<and> tcp_get_header_length m' tx = 20 \<and> tcp_get_flags m' tx = ucast flags
    \<and> tcp_get_data m' tx (replicate (unat dlen) 0) k = Some (ucast dlen, take (unat dlen) data)
    \<and> oc_sum (tcp_sum m' tx ((unat dlen + 21) div 2) (unat dlen + 20)) = 0xFFFF"
proof (intro conjI)
  define f where "f = tcp_frame conn flags data dlen m"
  note fr = tcp_frame_fields [OF assms(2,1) _ f_def]
  have L: "unat dlen + 20 < 65536" using assms(4) by simp
  note rd = tcp_fill_rd(1) [OF assms(2,1,4) f_def assms(9)]
  have rd0: "mem_iord_byte m' tx = mem_iord_byte f tx" using rd [of 0] by simp
  have be: "be16 m' (tx + 16) = be16 f (tx + 16)" by (simp add: be16_def rd)
  have "flen = dlen + 54" using assms(9) tcp_fill_eq [OF f_def refl refl] by simp
  then show "unat flen = unat dlen + 54" using assms(4) by (simp add: unat_word_ariths)
  have "mac_packet_type m' tx = mac_packet_type f tx" by (simp add: mac_packet_type_def Let_def rd)
  then show "mac_packet_type m' tx = TCP" using fr L by simp
  have "mac_addr_dest m' tx = mac_addr_dest f tx" by (simp add: mac_addr_dest_def rd rd0)
  then show "mac_addr_dest m' tx = dstMAC conn" using fr(1) L assms(5) by (simp add: list_eq_6)
  have "mac_addr_sender m' tx = mac_addr_sender f tx" by (simp add: mac_addr_sender_def rd)
  then show "mac_addr_sender m' tx = srcMAC conn" using fr(2) L assms(6) by (simp add: list_eq_6)
  have "ipv4_get_source_ip m' tx = ipv4_get_source_ip f tx" by (simp add: ipv4_get_source_ip_def rd_bytes_4 rd)
  then show "ipv4_get_source_ip m' tx = srcIP conn" using fr(3) L assms(7) by (simp add: list_eq_4)
  have "ipv4_get_destination_ip m' tx = ipv4_get_destination_ip f tx" by (simp add: ipv4_get_destination_ip_def rd_bytes_4 rd)
  then show "ipv4_get_destination_ip m' tx = dstIP conn" using fr(4) L assms(8) by (simp add: list_eq_4)
  show "ipv4_verify_checksum m' tx = 1" by (rule tcp_fill_rd(2) [OF assms(2,1,4) f_def assms(9)])
  note ctl = tcp_fill_control [OF assms(2,1,4,9)]
  show "tcp_get_source_port m' tx = srcport conn" "tcp_get_destination_port m' tx = dstport conn"
    "tcp_get_seqnum m' tx = seqNum conn" "tcp_get_acknum m' tx = ackNum conn" "tcp_get_flags m' tx = ucast flags"
    by (rule ctl)+
  show h: "tcp_get_header_length m' tx = 20" by (rule ctl)
  have "unat (ipv4_get_length m' tx) = unat (40 + dlen)" by (simp only: ipv4_get_length_be16 be fr(15) [OF L])
  then have dl: "tcp_get_data_length m' tx = dlen"
    by (simp add: tcp_get_data_length_def h word_unat_eq_iff [symmetric])
  have "rd_bytes m' (tx + 54) (unat dlen) = rd_bytes f (tx + 54) (unat dlen)"
  proof (rule rd_bytes_cong)
    fix i assume i: "i < unat dlen"
    then have "unat (of_nat (54 + i) :: u32) = 54 + i"
      using unat_u16_lt [of dlen] by (simp only: unat_of_nat) (simp add: take_bit_nat_eq_self)
    moreover have "k \<notin> {24, 25, 50, 51}" if "unat k = 54 + i" for k :: u32 using that by auto
    ultimately show "mem_iord_byte m' (tx + 54 + of_nat i) = mem_iord_byte f (tx + 54 + of_nat i)"
      using rd [of "of_nat (54 + i)"] i by (simp add: add.assoc del: insert_iff)
  qed
  then show "tcp_get_data m' tx (replicate (unat dlen) 0) k = Some (ucast dlen, take (unat dlen) data)"
    using tcp_frame_data [OF assms(3), of conn flags m]
    by (simp add: tcp_get_data_eq dl h assms(1) flip: f_def)
  show "oc_sum (tcp_sum m' tx ((unat dlen + 21) div 2) (unat dlen + 20)) = 0xFFFF"
    by (rule tcp_fill_rd(3) [OF assms(2,1,4) f_def assms(9)])
qed

text \<open>Two ends of a connection, both with their buffers at address 0.\<close>

definition host_conn :: "tcpstate \<Rightarrow> tcp_connection" where
  "host_conn st = \<lparr>eth_tx_addr = 0, eth_rx_addr = 0, dstMAC = peer_mac, srcMAC = host_mac, srcIP = host_ip,
     dstIP = peer_ip, srcport = 4000, dstport = 80, seqNum = 0x12345678, ackNum = 0, status = st,
     conn_ipv4_id = 0x1111, send_buffer = [], send_buffer_size = 0, recv_buffer = [], recv_buffer_size = 0\<rparr>"

definition peer_conn :: "tcpstate \<Rightarrow> tcp_connection" where
  "peer_conn st = (host_conn st)\<lparr>dstMAC := host_mac, srcMAC := peer_mac, srcIP := peer_ip, dstIP := host_ip,
     srcport := 80, dstport := 4000\<rparr>"

text \<open>The machine that holds a given segment in its buffer.\<close>

definition holding :: "ethbuf \<Rightarrow> unit eth_mach" where
  "holding m = \<lparr>eth_dev = (), eth_buf = m\<rparr>"

lemma conn_simps [simp]:
  "eth_tx_addr (host_conn st) = 0" "eth_rx_addr (host_conn st) = 0" "eth_tx_addr (peer_conn st) = 0"
  "eth_rx_addr (peer_conn st) = 0" "srcport (host_conn st) = 4000" "dstport (host_conn st) = 80"
  "srcport (peer_conn st) = 80" "dstport (peer_conn st) = 4000" "status (host_conn st) = st" "status (peer_conn st) = st"
  "eth_buf (holding m) = m"
  by (simp_all add: host_conn_def peer_conn_def holding_def)

lemma segment_of_refl: "eth_tx_addr peer = 0 \<Longrightarrow> unat dlen + 54 < 65536
    \<Longrightarrow> segment_of peer flags data dlen m0 (snd (tcp_fill peer flags data dlen m0)) 0"
  by (simp add: segment_of_def same_frame_refl)

theorem tcp_fill_parses_back_witness:
  "let m' = snd (tcp_fill (host_conn CLOSED) SYN [0x30] 1 (\<lambda>_. 0)) in
   mac_packet_type m' 0 = TCP \<and> tcp_get_destination_port m' 0 = 80 \<and> tcp_get_flags m' 0 = SYN
     \<and> oc_sum (tcp_sum m' 0 11 21) = 0xFFFF"
  using tcp_fill_parses_back [of "host_conn CLOSED" 0 1 "[0x30]", OF _ _ _ _ _ _ _ _ prod.collapse [symmetric],
      of SYN "\<lambda>_. 0"]
  by (simp add: Let_def) (simp add: host_conn_def)

section \<open>The state machine\<close>

lemma flag_bits [simp]:
  "ucast (SYN :: u16) = (SYN :: u8)" "ucast (ACK :: u16) = (ACK :: u8)" "ucast (FIN :: u16) = (FIN :: u8)"
  "ucast (SYN OR ACK :: u16) = (SYN OR ACK :: u8)"
  by simp_all

text \<open>
  C12. The three-way handshake. A listening connection B that receives the SYN of A answers with
  SYN and ACK and waits in SYN_RCVD; A in SYN_SENT that receives this answer takes B's
  acknowledgment number as its sequence number, acknowledges B's sequence number plus one, sends
  ACK and is ESTABLISHED; B in SYN_RCVD that receives this ACK is ESTABLISHED. B never reads the
  sequence number of A: the number it acknowledges is the one it had before.
\<close>

theorem tcp_handshake:
  assumes "status B = LISTEN" "srcport B = dstport A"
    and "segment_of A SYN [0x30] 1 m0 (eth_buf sB) (eth_rx_addr B)"
    and "status A = SYN_SENT" "srcport A = dstport B"
    and "segment_of B (SYN OR ACK) [0x30] 0 (eth_buf sB) (eth_buf sA) (eth_rx_addr A)"
    and "A' = A\<lparr>seqNum := ackNum B, ackNum := seqNum B + 1\<rparr>" "B' = B\<lparr>status := SYN_RCVD\<rparr>"
    and "segment_of A' ACK [0x30] 0 (eth_buf sA) (eth_buf sB') (eth_rx_addr B)"
  shows "tcp_handle io B sB = (0, B', tcp_send_ctl io B (SYN OR ACK) sB)
    \<and> tcp_handle io A sA = (1, A'\<lparr>status := ESTABLISHED\<rparr>, tcp_send_ctl io A' ACK sA)
    \<and> tcp_handle io B' sB' = (1, B'\<lparr>status := ESTABLISHED\<rparr>, sB')"
  using assms(1,2,4,5,7,8) segment_of_fields [OF assms(3)] segment_of_fields [OF assms(6)] segment_of_fields [OF assms(9)]
  by (simp add: tcp_handle_def Let_def)

theorem tcp_handshake_witness:
  "let A = host_conn SYN_SENT; B = peer_conn LISTEN; sB = holding (snd (tcp_fill A SYN [0x30] 1 (\<lambda>_. 0)));
     A' = A\<lparr>seqNum := ackNum B, ackNum := seqNum B + 1\<rparr>;
     sA = holding (snd (tcp_fill B (SYN OR ACK) [0x30] 0 (eth_buf sB)))
   in tcp_handle ready_if A sA = (1, A'\<lparr>status := ESTABLISHED\<rparr>, tcp_send_ctl ready_if A' ACK sA)"
  unfolding Let_def
  by (rule tcp_handshake [THEN conjunct2, THEN conjunct1, of "peer_conn LISTEN" "host_conn SYN_SENT" "\<lambda>_. 0"
        "holding (snd (tcp_fill (host_conn SYN_SENT) SYN [0x30] 1 (\<lambda>_. 0)))" _ _ _
        "holding (snd (tcp_fill ((host_conn SYN_SENT)\<lparr>seqNum := ackNum (peer_conn LISTEN),
            ackNum := seqNum (peer_conn LISTEN) + 1\<rparr>) ACK [0x30] 0 (snd (tcp_fill (peer_conn LISTEN) (SYN OR ACK) [0x30] 0
              (snd (tcp_fill (host_conn SYN_SENT) SYN [0x30] 1 (\<lambda>_. 0)))))))"])
    (simp_all add: segment_of_refl del: flag_bits)

text \<open>
  C11. A connection becomes ESTABLISHED only by a handshake: the segment is for its port, and it either
  was in SYN_SENT and received exactly SYN and ACK, or was in SYN_RCVD and received an ACK.
\<close>

theorem tcp_established_only_by_handshake:
  assumes "tcp_handle io conn s = (res, conn', s')" "status conn' = ESTABLISHED" "status conn \<noteq> ESTABLISHED"
  shows "tcp_get_destination_port (eth_buf s) (eth_rx_addr conn) = srcport conn \<and> res = 1
    \<and> (status conn = SYN_SENT \<and> tcp_get_flags (eth_buf s) (eth_rx_addr conn) = (SYN OR ACK)
         \<and> ackNum conn' = tcp_get_seqnum (eth_buf s) (eth_rx_addr conn) + 1
         \<and> seqNum conn' = tcp_get_acknum (eth_buf s) (eth_rx_addr conn)
       \<or> status conn = SYN_RCVD \<and> tcp_get_flags (eth_buf s) (eth_rx_addr conn) AND ACK = ACK \<and> s' = s)"
  using assms by (auto simp: tcp_handle_def Let_def split: tcpstate.splits if_splits)

theorem tcp_established_only_by_handshake_witness:
  "let B = peer_conn SYN_RCVD; s = holding (snd (tcp_fill (host_conn ESTABLISHED) ACK [0x30] 0 (\<lambda>_. 0))) in
   fst (tcp_handle ready_if B s) = 1 \<and> tcp_get_destination_port (eth_buf s) (eth_rx_addr B) = 80"
proof -
  define s where "s = holding (snd (tcp_fill (host_conn ESTABLISHED) ACK [0x30] 0 (\<lambda>_. 0)))"
  have "segment_of (host_conn ESTABLISHED) ACK [0x30] 0 (\<lambda>_. 0) (eth_buf s) 0"
    by (simp add: s_def segment_of_refl del: flag_bits)
  then have h: "tcp_handle ready_if (peer_conn SYN_RCVD) s = (1, (peer_conn SYN_RCVD)\<lparr>status := ESTABLISHED\<rparr>, s)"
    using segment_of_fields by (simp add: tcp_handle_def Let_def segment_of_fields)
  from tcp_established_only_by_handshake [OF this] h show ?thesis
    by (simp add: Let_def flip: s_def)
qed

text \<open>
  C35. The closing handshake does not complete. After the FIN of A, B is in CLOSE_WAIT and
  acknowledges; A in FIN_WAIT_1 goes to FIN_WAIT_2 and acknowledges that acknowledgment; this
  segment takes B from CLOSE_WAIT to LAST_ACK although B has sent no FIN. From then on
  \<open>tcp_close\<close> of B sends no FIN either, and A stays in FIN_WAIT_2 as long as the segments it receives
  carry no FIN.
\<close>

theorem tcp_close_loses_fin:
  assumes "status B = ESTABLISHED" "srcport B = dstport A" "segment_of A FIN [0x30] 0 m0 (eth_buf sB) (eth_rx_addr B)"
    and "B1 = B\<lparr>status := CLOSE_WAIT\<rparr>"
    and "status A = FIN_WAIT_1" "srcport A = dstport B" "segment_of B1 ACK [0x30] 0 (eth_buf sB) (eth_buf sA) (eth_rx_addr A)"
    and "A1 = A\<lparr>status := FIN_WAIT_2\<rparr>"
    and "segment_of A ACK [0x30] 0 (eth_buf sA) (eth_buf sB1) (eth_rx_addr B)"
    and "B2 = B\<lparr>status := LAST_ACK\<rparr>"
    and "tcp_get_flags (eth_buf sA1) (eth_rx_addr A) AND FIN \<noteq> FIN"
  shows "tcp_handle io B sB = (0, B1, tcp_send_ctl io B1 ACK sB)
    \<and> tcp_handle io A sA = (0, A1, tcp_send_ctl io A ACK sA)
    \<and> tcp_handle io B1 sB1 = (0, B2, sB1)
    \<and> tcp_close io B2 sB2 = tcp_receive_handle io B2 sB2
    \<and> fst (snd (tcp_handle io A1 sA1)) = A1"
  using assms(1,2,4-6,8,10,11) segment_of_fields [OF assms(3)] segment_of_fields [OF assms(7)] segment_of_fields [OF assms(9)]
  by (simp add: tcp_handle_def tcp_close_def Let_def)

theorem tcp_close_loses_fin_witness:
  "let A = host_conn FIN_WAIT_1; B1 = peer_conn CLOSE_WAIT;
     sB = snd (tcp_fill A FIN [0x30] 0 (\<lambda>_. 0)); sA = snd (tcp_fill B1 ACK [0x30] 0 sB);
     sB1 = holding (snd (tcp_fill A ACK [0x30] 0 sA))
   in tcp_handle ready_if B1 sB1 = (0, peer_conn LAST_ACK, sB1)"
proof -
  define A B B1 where "A = host_conn FIN_WAIT_1" and "B = peer_conn ESTABLISHED" and "B1 = peer_conn CLOSE_WAIT"
  define sB where "sB = snd (tcp_fill A FIN [0x30] 0 (\<lambda>_. 0))"
  define sA where "sA = snd (tcp_fill B1 ACK [0x30] 0 sB)"
  define sB1 where "sB1 = snd (tcp_fill A ACK [0x30] 0 sA)"
  have "peer_conn LAST_ACK = B\<lparr>status := LAST_ACK\<rparr>" "B1 = B\<lparr>status := CLOSE_WAIT\<rparr>"
    by (simp_all add: B_def B1_def peer_conn_def host_conn_def)
  moreover have "segment_of A FIN [0x30] 0 (\<lambda>_. 0) sB 0" "segment_of B1 ACK [0x30] 0 sB sA 0" "segment_of A ACK [0x30] 0 sA sB1 0"
    by (simp_all add: A_def B1_def sB_def sA_def sB1_def segment_of_refl del: flag_bits)
  moreover have "tcp_get_flags sA 0 AND FIN \<noteq> FIN"
    using segment_of_fields [OF calculation(4)] by simp
  ultimately have "tcp_handle ready_if B1 (holding sB1) = (0, peer_conn LAST_ACK, holding sB1)"
    using tcp_close_loses_fin [of B A "\<lambda>_. 0" "holding sB" B1 "holding sA" "A\<lparr>status := FIN_WAIT_2\<rparr>" "holding sB1"
        "peer_conn LAST_ACK" "holding sA" ready_if "holding sA"]
    by (simp add: A_def B_def)
  then show ?thesis by (simp add: Let_def A_def B1_def sA_def sB_def sB1_def)
qed

end
