(* ===== verification/Stack_Cache.thy ===== *)
theory Stack_Cache
  imports Patmos_Prelude
begin

text \<open>
  \<open>tools/c/src/stacksim.c\<close>: the simulator of the stack cache. The stack grows towards lower
  addresses; the words from \<open>sc_top\<close> up to \<open>mem_top\<close> are held by the cache, those from \<open>mem_top\<close> on by
  the main memory. An access outside the arrays is \<open>None\<close>. The theory shows that the cache is
  transparent: every sequence of operations reads the values a flat stack memory would hold.
\<close>

abbreviation (input) MEM_SIZE :: int where "MEM_SIZE \<equiv> 1024"
abbreviation (input) SC_SIZE :: int where "SC_SIZE \<equiv> 64"
abbreviation (input) SC_MASK :: int where "SC_MASK \<equiv> 63"
abbreviation (input) STACK_START :: int where "STACK_START \<equiv> 500"

record stack_cache =
  mem :: "int list"
  sc :: "int list"
  mem_top :: int
  sc_top :: int

text \<open>Element access of a C array: the index must be inside.\<close>

definition arr_get :: "int list \<Rightarrow> int \<Rightarrow> int option" where
  "arr_get xs i = (if 0 \<le> i \<and> i < int (length xs) then Some (xs ! nat i) else None)"

definition arr_set :: "int list \<Rightarrow> int \<Rightarrow> int \<Rightarrow> int list option" where
  "arr_set xs i v = (if 0 \<le> i \<and> i < int (length xs) then Some (xs[nat i := v]) else None)"

section \<open>The operations\<close>

text \<open>The loops of \<open>reserve\<close> and \<open>ensure\<close>; the argument counts the iterations left.\<close>

fun spill :: "nat \<Rightarrow> stack_cache \<Rightarrow> stack_cache option" where
  "spill 0 s = Some s"
| "spill (Suc k) s =
     (let t = mem_top s - 1 in
      do {
        v \<leftarrow> arr_get (sc s) (t AND SC_MASK);
        m \<leftarrow> arr_set (mem s) t v;
        spill k (s\<lparr>mem := m, mem_top := t\<rparr>)
      })"

definition reserve :: "int \<Rightarrow> stack_cache \<Rightarrow> stack_cache option" where
  "reserve n s =
     (let s = s\<lparr>sc_top := sc_top s - n\<rparr>;
          nspill = mem_top s - sc_top s - SC_SIZE
      in spill (nat nspill) s)"

definition free :: "int \<Rightarrow> stack_cache \<Rightarrow> stack_cache" where
  "free n s =
     (let s = s\<lparr>sc_top := sc_top s + n\<rparr>
      in if sc_top s > mem_top s then s\<lparr>mem_top := sc_top s\<rparr> else s)"

fun fill :: "nat \<Rightarrow> stack_cache \<Rightarrow> stack_cache option" where
  "fill 0 s = Some s"
| "fill (Suc k) s =
     do {
       v \<leftarrow> arr_get (mem s) (mem_top s);
       c \<leftarrow> arr_set (sc s) (mem_top s AND SC_MASK) v;
       fill k (s\<lparr>sc := c, mem_top := mem_top s + 1\<rparr>)
     }"

definition ensure :: "int \<Rightarrow> stack_cache \<Rightarrow> stack_cache option" where
  "ensure n s =
     (let nfill = n - (mem_top s - sc_top s)
      in fill (nat nfill) s)"

definition store :: "int \<Rightarrow> int \<Rightarrow> stack_cache \<Rightarrow> stack_cache option" where
  "store addr val s = do { c \<leftarrow> arr_set (sc s) (addr AND SC_MASK) val; Some (s\<lparr>sc := c\<rparr>) }"

definition load :: "int \<Rightarrow> stack_cache \<Rightarrow> int option" where
  "load addr s = arr_get (sc s) (addr AND SC_MASK)"

section \<open>The invariant and the stack the cache represents\<close>

definition sc_inv :: "stack_cache \<Rightarrow> bool" where
  "sc_inv s \<longleftrightarrow> length (mem s) = 1024 \<and> length (sc s) = 64 \<and> 0 \<le> sc_top s
     \<and> sc_top s \<le> mem_top s \<and> mem_top s \<le> sc_top s + SC_SIZE \<and> mem_top s \<le> MEM_SIZE"

text \<open>The word of the stack at an address.\<close>

definition sc_view :: "stack_cache \<Rightarrow> int \<Rightarrow> int" where
  "sc_view s a = (if a < mem_top s then sc s ! nat (a AND SC_MASK) else mem s ! nat a)"

lemma and_mask: "a AND SC_MASK = a mod 64" for a :: int
  using take_bit_eq_mask [of 6 a] by (simp add: take_bit_eq_mod mask_eq_exp_minus_1)

lemma mod_64_inj: "a mod 64 = b mod 64 \<Longrightarrow> \<bar>a - b\<bar> < 64 \<Longrightarrow> a = b" for a b :: int
proof -
  assume "a mod 64 = b mod 64"
  then obtain k where "a - b = 64 * k" by (metis mod_eq_dvd_iff dvdE)
  moreover assume "\<bar>a - b\<bar> < 64"
  ultimately show "a = b" by presburger
qed

lemma sc_slot: "0 \<le> a AND SC_MASK" "a AND SC_MASK < 64" "nat (a AND SC_MASK) < 64" for a :: int
  unfolding and_mask by auto

lemma sc_slot_inj: "\<bar>a - b\<bar> < 64 \<Longrightarrow> nat (a AND SC_MASK) = nat (b AND SC_MASK) \<longleftrightarrow> a = b" for a b :: int
  using sc_slot(1) [of a] sc_slot(1) [of b] mod_64_inj [of a b] by (auto simp: and_mask)

lemma spill_ok:
  assumes "length (mem s) = 1024" "length (sc s) = 64" "int k \<le> mem_top s" "mem_top s \<le> MEM_SIZE"
  shows "\<exists>s'. spill k s = Some s' \<and> length (mem s') = 1024 \<and> sc s' = sc s
    \<and> mem_top s' = mem_top s - int k \<and> sc_top s' = sc_top s \<and> (\<forall>a\<ge>0. sc_view s' a = sc_view s a)"
  using assms
proof (induction k arbitrary: s)
  case 0
  then show ?case by simp
next
  case (Suc k)
  let ?t = "mem_top s - 1"
  let ?s = "s\<lparr>mem := (mem s)[nat ?t := sc s ! nat (?t AND SC_MASK)], mem_top := ?t\<rparr>"
  have step: "spill (Suc k) s = spill k ?s"
    using Suc.prems sc_slot [of ?t] by (simp add: arr_get_def arr_set_def Let_def)
  have view: "sc_view ?s a = sc_view s a" if "0 \<le> a" for a
    using that Suc.prems by (cases "a = ?t") (auto simp: sc_view_def nth_list_update nat_eq_iff2)
  show ?case
    using Suc.IH [of ?s] Suc.prems view unfolding step by (auto simp: algebra_simps)
qed

lemma fill_ok:
  assumes "length (mem s) = 1024" "length (sc s) = 64" "0 \<le> lo" "lo \<le> mem_top s" "mem_top s + int k \<le> MEM_SIZE"
    and "mem_top s + int k \<le> lo + SC_SIZE"
  shows "\<exists>s'. fill k s = Some s' \<and> mem s' = mem s \<and> length (sc s') = 64
    \<and> mem_top s' = mem_top s + int k \<and> sc_top s' = sc_top s \<and> (\<forall>a\<ge>lo. sc_view s' a = sc_view s a)"
  using assms
proof (induction k arbitrary: s)
  case 0
  then show ?case by simp
next
  case (Suc k)
  let ?t = "mem_top s"
  let ?s = "s\<lparr>sc := (sc s)[nat (?t AND SC_MASK) := mem s ! nat ?t], mem_top := ?t + 1\<rparr>"
  have step: "fill (Suc k) s = fill k ?s"
    using Suc.prems sc_slot [of ?t] by (simp add: arr_get_def arr_set_def)
  have view: "sc_view ?s a = sc_view s a" if "lo \<le> a" for a
    using that Suc.prems sc_slot [of ?t] sc_slot_inj [of a ?t]
    by (auto simp: sc_view_def nth_list_update)
  show ?case
    using Suc.IH [of ?s] Suc.prems view unfolding step by (auto simp: algebra_simps)
qed

text \<open>What each operation does to the represented stack.\<close>

lemma reserve_ok:
  assumes "sc_inv s" "0 \<le> n" "n \<le> SC_SIZE" "n \<le> sc_top s"
  shows "\<exists>s'. reserve n s = Some s' \<and> sc_inv s' \<and> sc_top s' = sc_top s - n
    \<and> mem_top s' = min (mem_top s) (sc_top s - n + SC_SIZE) \<and> (\<forall>a\<ge>0. sc_view s' a = sc_view s a)"
proof -
  let ?s = "s\<lparr>sc_top := sc_top s - n\<rparr>" and ?k = "nat (mem_top s - (sc_top s - n) - SC_SIZE)"
  have "\<exists>s'. spill ?k ?s = Some s' \<and> length (mem s') = 1024 \<and> sc s' = sc ?s
      \<and> mem_top s' = mem_top ?s - int ?k \<and> sc_top s' = sc_top ?s \<and> (\<forall>a\<ge>0. sc_view s' a = sc_view ?s a)"
    using assms by (intro spill_ok) (auto simp: sc_inv_def)
  moreover have "sc_view ?s = sc_view s" by (simp add: sc_view_def fun_eq_iff)
  ultimately show ?thesis
    using assms by (auto simp: reserve_def Let_def sc_inv_def min_def)
qed

lemma free_ok:
  assumes "sc_inv s" "0 \<le> n" "sc_top s + n \<le> MEM_SIZE"
  shows "sc_inv (free n s)" "sc_top (free n s) = sc_top s + n" "mem_top (free n s) = max (mem_top s) (sc_top s + n)"
    "sc_top s + n \<le> a \<Longrightarrow> sc_view (free n s) a = sc_view s a"
  using assms by (auto simp: free_def Let_def sc_inv_def sc_view_def)

lemma ensure_ok:
  assumes "sc_inv s" "0 \<le> n" "n \<le> SC_SIZE" "sc_top s + n \<le> MEM_SIZE"
  shows "\<exists>s'. ensure n s = Some s' \<and> sc_inv s' \<and> sc_top s' = sc_top s
    \<and> mem_top s' = max (mem_top s) (sc_top s + n) \<and> (\<forall>a\<ge>sc_top s. sc_view s' a = sc_view s a)"
proof -
  let ?k = "nat (n - (mem_top s - sc_top s))"
  have "\<exists>s'. fill ?k s = Some s' \<and> mem s' = mem s \<and> length (sc s') = 64
    \<and> mem_top s' = mem_top s + int ?k \<and> sc_top s' = sc_top s \<and> (\<forall>a\<ge>sc_top s. sc_view s' a = sc_view s a)"
    using assms by (intro fill_ok) (auto simp: sc_inv_def)
  then show ?thesis
    using assms by (auto simp: ensure_def Let_def sc_inv_def max_def)
qed

lemma store_ok:
  assumes "sc_inv s" "sc_top s \<le> a" "a < mem_top s"
  shows "\<exists>s'. store a v s = Some s' \<and> sc_inv s' \<and> sc_top s' = sc_top s \<and> mem_top s' = mem_top s
    \<and> (\<forall>b\<ge>sc_top s. sc_view s' b = (if b = a then v else sc_view s b))"
proof -
  have "(sc s)[nat (a AND SC_MASK) := v] ! nat (b AND SC_MASK) = (if b = a then v else sc s ! nat (b AND SC_MASK))"
    if "sc_top s \<le> b" "b < mem_top s" for b
  proof -
    have "\<bar>a - b\<bar> < 64" using that assms by (auto simp: sc_inv_def)
    then show ?thesis
      using assms sc_slot [of a] sc_slot_inj [of a b] by (auto simp: sc_inv_def nth_list_update)
  qed
  then show ?thesis
    using assms sc_slot [of a] by (auto simp: store_def arr_set_def sc_inv_def sc_view_def)
qed

lemma load_ok: "sc_inv s \<Longrightarrow> sc_top s \<le> a \<Longrightarrow> a < mem_top s \<Longrightarrow> load a s = Some (sc_view s a)"
  using sc_slot [of a] by (simp add: load_def arr_get_def sc_inv_def sc_view_def)

section \<open>Transparency\<close>

text \<open>
  A program is a sequence of operations. The flat machine has no cache: a stack pointer, a word per
  address that is \<open>None\<close> until it is written after its reservation, and the number of words from the
  stack pointer on that the program has reserved or ensured and may therefore access. A
  program that breaks its obligations has no flat run.
\<close>

datatype sc_op = Reserve int | Free int | Ensure int | Store int int | Load int

record flat_stack =
  sp :: int
  avail :: int
  word_at :: "int \<Rightarrow> int option"

fun flat_step :: "sc_op \<Rightarrow> flat_stack \<Rightarrow> (int option list \<times> flat_stack) option" where
  "flat_step (Reserve n) f =
     (if 0 \<le> n \<and> n \<le> SC_SIZE \<and> n \<le> sp f
      then Some ([], \<lparr>sp = sp f - n, avail = min (avail f + n) SC_SIZE,
        word_at = (\<lambda>a. if sp f - n \<le> a \<and> a < sp f then None else word_at f a)\<rparr>)
      else None)"
| "flat_step (Free n) f =
     (if 0 \<le> n \<and> sp f + n \<le> MEM_SIZE
      then Some ([], f\<lparr>sp := sp f + n, avail := max 0 (avail f - n)\<rparr>) else None)"
| "flat_step (Ensure n) f =
     (if 0 \<le> n \<and> n \<le> SC_SIZE \<and> sp f + n \<le> MEM_SIZE then Some ([], f\<lparr>avail := max (avail f) n\<rparr>) else None)"
| "flat_step (Store a v) f =
     (if sp f \<le> a \<and> a < sp f + avail f then Some ([], f\<lparr>word_at := (word_at f)(a := Some v)\<rparr>) else None)"
| "flat_step (Load a) f =
     (if sp f \<le> a \<and> a < sp f + avail f then Some ([word_at f a], f) else None)"

fun cache_step :: "sc_op \<Rightarrow> stack_cache \<Rightarrow> (int list \<times> stack_cache) option" where
  "cache_step (Reserve n) s = map_option (Pair []) (reserve n s)"
| "cache_step (Free n) s = Some ([], free n s)"
| "cache_step (Ensure n) s = map_option (Pair []) (ensure n s)"
| "cache_step (Store a v) s = map_option (Pair []) (store a v s)"
| "cache_step (Load a) s = map_option (\<lambda>v. ([v], s)) (load a s)"

definition sc_rel :: "flat_stack \<Rightarrow> stack_cache \<Rightarrow> bool" where
  "sc_rel f s \<longleftrightarrow> sc_inv s \<and> sc_top s = sp f \<and> sp f + avail f \<le> mem_top s \<and> 0 \<le> avail f
     \<and> (\<forall>a\<ge>sp f. \<forall>v. word_at f a = Some v \<longrightarrow> sc_view s a = v)"

text \<open>The value read by the cache is the one of the flat stack wherever that is determined.\<close>

abbreviation (input) agrees :: "int option list \<Rightarrow> int list \<Rightarrow> bool" where
  "agrees fs vs \<equiv> list_all2 (\<lambda>x v. x = None \<or> x = Some v) fs vs"

lemma cache_step_sim:
  assumes "sc_rel f s" "flat_step x f = Some (fs, f')"
  shows "\<exists>vs s'. cache_step x s = Some (vs, s') \<and> sc_rel f' s' \<and> agrees fs vs"
proof (cases x)
  case (Reserve n)
  with assms have n: "sc_inv s" "0 \<le> n" "n \<le> SC_SIZE" "n \<le> sc_top s"
    by (auto simp: sc_rel_def split: if_splits)
  from reserve_ok [OF this] assms Reserve n show ?thesis
    by (auto simp: sc_rel_def sc_inv_def split: if_splits)
next
  case (Free n)
  with assms have n: "sc_inv s" "0 \<le> n" "sc_top s + n \<le> MEM_SIZE"
    by (auto simp: sc_rel_def split: if_splits)
  from free_ok [OF this] assms Free n show ?thesis
    by (auto simp: sc_rel_def split: if_splits)
next
  case (Ensure n)
  with assms have n: "sc_inv s" "0 \<le> n" "n \<le> SC_SIZE" "sc_top s + n \<le> MEM_SIZE"
    by (auto simp: sc_rel_def split: if_splits)
  from ensure_ok [OF this] assms Ensure n show ?thesis
    by (auto simp: sc_rel_def split: if_splits)
next
  case (Store a v)
  with assms have n: "sc_inv s" "sc_top s \<le> a" "a < mem_top s"
    by (auto simp: sc_rel_def split: if_splits)
  from store_ok [OF this, of v] assms Store n show ?thesis
    by (auto simp: sc_rel_def split: if_splits)
next
  case (Load a)
  with assms have n: "sc_inv s" "sc_top s \<le> a" "a < mem_top s"
    by (auto simp: sc_rel_def split: if_splits)
  from load_ok [OF this] assms Load show ?thesis
    by (auto simp: sc_rel_def split: if_splits) (metis option.exhaust_sel)
qed

interpretation sc: simulation sc_rel flat_step cache_step "\<lambda>x v. x = None \<or> x = Some v"
  by unfold_locales (rule cache_step_sim)

text \<open>The state at the start of \<open>main\<close>, for any contents of the arrays, and an empty flat stack.\<close>

definition sc_start :: "int list \<Rightarrow> int list \<Rightarrow> stack_cache" where
  "sc_start m c = \<lparr>mem = m, sc = c, mem_top = STACK_START, sc_top = STACK_START\<rparr>"

definition flat_start :: flat_stack where
  "flat_start = \<lparr>sp = STACK_START, avail = 0, word_at = (\<lambda>_. None)\<rparr>"

lemma sc_rel_start: "length m = 1024 \<Longrightarrow> length c = 64 \<Longrightarrow> sc_rel flat_start (sc_start m c)"
  by (simp add: sc_rel_def flat_start_def sc_start_def sc_inv_def)

text \<open>
  C5. The stack cache is transparent. A program that keeps its obligations on the flat stack runs on
  the stack cache without an access outside the arrays, and every word it loads has the value it
  last stored there, whatever was spilled and filled in between.
\<close>

theorem stack_cache_transparent:
  assumes "length m = 1024" "length c = 64" "run_ops flat_step prog flat_start = Some (fs, f)"
  shows "\<exists>vs s. run_ops cache_step prog (sc_start m c) = Some (vs, s) \<and> sc_rel f s
    \<and> list_all2 (\<lambda>x v. x = None \<or> x = Some v) fs vs"
  by (rule sc.run [OF sc_rel_start [OF assms(1,2)] assms(3)])

text \<open>
  The operations of \<open>main\<close>, with a load of the first frame at its end in place of the printouts:
  the value stored before the second frame is back.
\<close>

definition stacksim_main :: "sc_op list" where
  "stacksim_main = [Reserve 10, Store (STACK_START - 5) 123, Reserve SC_SIZE, Store (STACK_START - SC_SIZE - 5) 456,
     Free SC_SIZE, Ensure 10]"

theorem stack_cache_transparent_witness:
  "\<exists>s. run_ops cache_step (stacksim_main @ [Load (STACK_START - 5)]) (sc_start (replicate 1024 0) (replicate 64 0))
     = Some ([123], s)"
proof -
  have "\<exists>f. run_ops flat_step (stacksim_main @ [Load (STACK_START - 5)]) flat_start = Some ([Some 123], f)"
    by (simp add: stacksim_main_def flat_start_def)
  then obtain f where f: "run_ops flat_step (stacksim_main @ [Load (STACK_START - 5)]) flat_start = Some ([Some 123], f)" ..
  from stack_cache_transparent [OF _ _ f, of "replicate 1024 0" "replicate 64 0"] show ?thesis
    by (auto simp: list_all2_Cons1)
qed

text \<open>
  C27. Every operation keeps the invariant stated in the source: the number of cached words stays between
  0 and the size of the cache.
\<close>

theorem stack_cache_bounds:
  assumes "sc_inv s" "0 \<le> n" "n \<le> SC_SIZE"
  shows "(n \<le> sc_top s \<longrightarrow> (\<exists>s'. reserve n s = Some s' \<and> sc_inv s'))
    \<and> (sc_top s + n \<le> MEM_SIZE \<longrightarrow> sc_inv (free n s) \<and> (\<exists>s'. ensure n s = Some s' \<and> sc_inv s'))"
  using reserve_ok [OF assms] free_ok(1) [OF assms(1,2)] ensure_ok [OF assms] by blast

theorem stack_cache_bounds_witness:
  "sc_inv (free 4 (sc_start (replicate 1024 0) (replicate 64 0)))"
  using stack_cache_bounds [of "sc_start (replicate 1024 0) (replicate 64 0)" 4]
  by (simp add: sc_start_def sc_inv_def)

end
