(* ===== verification/Core_Set.thy ===== *)
theory Core_Set
  imports Patmos_Prelude
begin

text \<open>
  \<open>c/libnoc/coreset.h\<close>: sets of cores as bit masks, in the two versions the header selects between.
  Up to 32 cores the set is one word; above, it is an array of words, and a core number beyond
  the array is an access outside it (\<open>None\<close>). Both simulate the abstract sets.
\<close>

section \<open>One word\<close>

record coreset_t =
  core_bits :: u32

definition coreset_clearall :: "coreset_t \<Rightarrow> coreset_t" where
  "coreset_clearall s = s\<lparr>core_bits := 0\<rparr>"

definition coreset_add :: "u32 \<Rightarrow> coreset_t \<Rightarrow> coreset_t" where
  "coreset_add core s = s\<lparr>core_bits := core_bits s OR push_bit (unat (core mod 32)) 1\<rparr>"

definition coreset_remove :: "u32 \<Rightarrow> coreset_t \<Rightarrow> coreset_t" where
  "coreset_remove core s = s\<lparr>core_bits := core_bits s AND NOT (push_bit (unat (core mod 32)) 1)\<rparr>"

definition coreset_contains :: "u32 \<Rightarrow> coreset_t \<Rightarrow> u32" where
  "coreset_contains core s = core_bits s AND push_bit (unat (core mod 32)) 1"

definition coreset_empty :: "coreset_t \<Rightarrow> int" where
  "coreset_empty s = (if core_bits s \<noteq> 0 then 0 else 1)"

section \<open>An array of words\<close>

definition coreset_clearall_array :: "u32 list \<Rightarrow> u32 list" where
  "coreset_clearall_array s = fold (\<lambda>i s. s[i := 0]) [0..<length s] s"

definition coreset_add_array :: "u32 \<Rightarrow> u32 list \<Rightarrow> u32 list option" where
  "coreset_add_array core s =
     (let i = unat (core div 32) in
      if i < length s then Some (s[i := s ! i OR push_bit (unat (core mod 32)) 1]) else None)"

definition coreset_remove_array :: "u32 \<Rightarrow> u32 list \<Rightarrow> u32 list option" where
  "coreset_remove_array core s =
     (let i = unat (core div 32) in
      if i < length s then Some (s[i := s ! i AND NOT (push_bit (unat (core mod 32)) 1)]) else None)"

definition coreset_contains_array :: "u32 \<Rightarrow> u32 list \<Rightarrow> u32 option" where
  "coreset_contains_array core s =
     (let i = unat (core div 32) in
      if i < length s then Some (s ! i AND push_bit (unat (core mod 32)) 1) else None)"

definition coreset_empty_array :: "u32 list \<Rightarrow> int" where
  "coreset_empty_array s = fold (\<lambda>i e. if s ! i \<noteq> 0 then 0 else e) [0..<length s] 1"

section \<open>The abstract sets\<close>

datatype cs_op = Clear_all | Add u32 | Remove u32 | Contains u32 | Is_empty

text \<open>Sets of the cores below \<open>n\<close>; the observations are the answers of the two tests.\<close>

fun set_step :: "nat \<Rightarrow> cs_op \<Rightarrow> nat set \<Rightarrow> (bool list \<times> nat set) option" where
  "set_step n Clear_all s = Some ([], {})"
| "set_step n (Add c) s = (if unat c < n then Some ([], insert (unat c) s) else None)"
| "set_step n (Remove c) s = (if unat c < n then Some ([], s - {unat c}) else None)"
| "set_step n (Contains c) s = (if unat c < n then Some ([unat c \<in> s], s) else None)"
| "set_step n Is_empty s = Some ([s = {}], s)"

fun word_step :: "cs_op \<Rightarrow> coreset_t \<Rightarrow> (bool list \<times> coreset_t) option" where
  "word_step Clear_all s = Some ([], coreset_clearall s)"
| "word_step (Add c) s = Some ([], coreset_add c s)"
| "word_step (Remove c) s = Some ([], coreset_remove c s)"
| "word_step (Contains c) s = Some ([coreset_contains c s \<noteq> 0], s)"
| "word_step Is_empty s = Some ([coreset_empty s \<noteq> 0], s)"

fun array_step :: "cs_op \<Rightarrow> u32 list \<Rightarrow> (bool list \<times> u32 list) option" where
  "array_step Clear_all s = Some ([], coreset_clearall_array s)"
| "array_step (Add c) s = map_option (Pair []) (coreset_add_array c s)"
| "array_step (Remove c) s = map_option (Pair []) (coreset_remove_array c s)"
| "array_step (Contains c) s = map_option (\<lambda>r. ([r \<noteq> 0], s)) (coreset_contains_array c s)"
| "array_step Is_empty s = Some ([coreset_empty_array s \<noteq> 0], s)"

definition word_rel :: "nat set \<Rightarrow> coreset_t \<Rightarrow> bool" where
  "word_rel A s \<longleftrightarrow> A = {k. bit (core_bits s) k}"

definition array_rel :: "nat \<Rightarrow> nat set \<Rightarrow> u32 list \<Rightarrow> bool" where
  "array_rel n A s \<longleftrightarrow> length s = n \<and> A = {k. k < 32 * n \<and> bit (s ! (k div 32)) (k mod 32)}"

section \<open>Simulation\<close>

lemma bit_one_at: "bit (2 ^ j :: u32) k \<longleftrightarrow> k = j \<and> k < 32"
  by (auto simp: bit_exp_iff)

lemma bit_u32_lt: "bit (w :: u32) k \<Longrightarrow> k < 32"
  using bit_lt_len [of w k] by simp

lemma word_ne_0: "w \<noteq> (0 :: u32) \<longleftrightarrow> (\<exists>k. bit w k)"
  by (metis bit_0_eq bit_eqI bot_apply bot_bool_def)

lemma and_one_at: "w AND 2 ^ j \<noteq> (0 :: u32) \<longleftrightarrow> bit w j"
  using bit_lt_len [of w j] by (auto simp: word_ne_0 bit_and_iff bit_one_at)

lemma unat_core_mod: "unat (core mod 32 :: u32) = unat core mod 32" "unat (core div 32 :: u32) = unat core div 32"
  by (simp_all add: unat_mod unat_div)

lemma word_step_sim:
  assumes "word_rel A s" "set_step 32 x A = Some (vs, A')"
  shows "\<exists>ws s'. word_step x s = Some (ws, s') \<and> word_rel A' s' \<and> list_all2 (=) vs ws"
  using assms
  by (cases x) (auto simp: word_rel_def coreset_clearall_def coreset_add_def coreset_remove_def coreset_contains_def
      coreset_empty_def unat_core_mod bit_or_iff bit_and_iff bit_not_iff bit_one_at and_one_at word_ne_0
      split: if_splits intro: bit_u32_lt)

lemma coreset_clearall_array_eq: "coreset_clearall_array s = replicate (length s) 0"
proof -
  have "fold (\<lambda>i s. s[i := 0]) [0..<k] s = replicate k 0 @ drop k s" if "k \<le> length s" for k
    using that by (induction k) (auto simp: list_update_append replicate_append_same simp flip: Cons_nth_drop_Suc)
  from this [of "length s"] show ?thesis by (simp add: coreset_clearall_array_def)
qed

lemma coreset_empty_array_eq: "coreset_empty_array s \<noteq> 0 \<longleftrightarrow> (\<forall>i<length s. s ! i = 0)"
proof -
  have "fold (\<lambda>i e. if s ! i \<noteq> 0 then 0 else e) [0..<k] 1 = (if \<forall>i<k. s ! i = 0 then 1 else 0 :: int)" for k
    by (induction k) (auto simp: less_Suc_eq)
  then show ?thesis by (simp add: coreset_empty_array_def)
qed

lemma core_split: "k < 32 * n \<Longrightarrow> k div 32 < n" "k = j \<longleftrightarrow> k div 32 = j div 32 \<and> k mod 32 = j mod 32" for k j n :: nat
  by (auto simp: less_mult_imp_div_less mult.commute) (metis div_mult_mod_eq)

lemma array_rel_update:
  assumes "array_rel n A s" "c < 32 * n"
    and "\<And>k. k < 32 \<Longrightarrow> bit w k \<longleftrightarrow> (if k = c mod 32 then b else bit (s ! (c div 32)) k)"
  shows "array_rel n (if b then insert c A else A - {c}) (s[c div 32 := w])"
  using assms core_split(1) [of _ n] core_split(2) [of _ c]
  by (auto simp: array_rel_def nth_list_update)

lemma array_empty_iff:
  assumes "array_rel n A s"
  shows "A = {} \<longleftrightarrow> (\<forall>i<length s. s ! i = 0)"
proof
  assume A: "A = {}"
  show "\<forall>i<length s. s ! i = 0"
  proof (intro allI impI)
    fix i assume i: "i < length s"
    have "\<not> bit (s ! i) k" for k
    proof
      assume "bit (s ! i) k"
      moreover from this have "k < 32" using bit_lt_len by fastforce
      ultimately have "32 * i + k \<in> A" using assms i by (simp add: array_rel_def)
      with A show False by simp
    qed
    then show "s ! i = 0" using word_ne_0 by blast
  qed
next
  assume "\<forall>i<length s. s ! i = 0"
  then show "A = {}" using assms core_split(1) by (auto simp: array_rel_def)
qed

lemma array_step_sim:
  assumes "array_rel n A s" "set_step (32 * n) x A = Some (vs, A')"
  shows "\<exists>ws s'. array_step x s = Some (ws, s') \<and> array_rel n A' s' \<and> list_all2 (=) vs ws"
proof (cases x)
  case Clear_all
  then show ?thesis
    using assms by (auto simp: array_rel_def coreset_clearall_array_eq core_split(1))
next
  case (Add c)
  then have c: "unat c < 32 * n" using assms(2) by (simp split: if_splits)
  have "array_rel n (if True then insert (unat c) A else A - {unat c})
      (s[unat c div 32 := s ! (unat c div 32) OR push_bit (unat c mod 32) 1])"
    by (rule array_rel_update [OF assms(1) c]) (auto simp: bit_or_iff bit_one_at)
  with Add c assms show ?thesis
    by (auto simp: coreset_add_array_def Let_def unat_core_mod array_rel_def core_split(1) split: if_splits)
next
  case (Remove c)
  then have c: "unat c < 32 * n" using assms(2) by (simp split: if_splits)
  have "array_rel n (if False then insert (unat c) A else A - {unat c})
      (s[unat c div 32 := s ! (unat c div 32) AND NOT (push_bit (unat c mod 32) 1)])"
    by (rule array_rel_update [OF assms(1) c]) (auto simp: bit_and_iff bit_not_iff bit_one_at dest: bit_lt_len)
  with Remove c assms show ?thesis
    by (auto simp: coreset_remove_array_def Let_def unat_core_mod array_rel_def core_split(1) split: if_splits)
next
  case (Contains c)
  then show ?thesis
    using assms
    by (auto simp: array_rel_def coreset_contains_array_def Let_def unat_core_mod and_one_at core_split(1) split: if_splits)
next
  case Is_empty
  then show ?thesis
    using assms array_empty_iff [OF assms(1)] by (auto simp: coreset_empty_array_eq)
qed

interpretation word_set: simulation word_rel "set_step 32" word_step "(=)"
  by unfold_locales (rule word_step_sim)

interpretation array_set: simulation "array_rel n" "set_step (32 * n)" array_step "(=)" for n
  by unfold_locales (rule array_step_sim)

text \<open>
  C20. The core sets are sets: a sequence of operations on cores below the maximum gives the answers of
  mathematical sets, and the array version never accesses a word outside its array. With at most
  32 cores the version with a single word gives the same answers.
\<close>

theorem coreset_refines_set:
  assumes "run_ops (set_step (32 * n)) xs {} = Some (vs, A)" "length a0 = n"
  shows "(\<exists>a. run_ops array_step (Clear_all # xs) a0 = Some (vs, a) \<and> array_rel n A a)
    \<and> (n = 1 \<longrightarrow> (\<exists>s. run_ops word_step (Clear_all # xs) s0 = Some (vs, s) \<and> word_rel A s))"
proof (intro conjI impI)
  have "array_rel n {} (coreset_clearall_array a0)"
    using assms(2) by (auto simp: array_rel_def coreset_clearall_array_eq core_split(1))
  from array_set.run [OF this assms(1)]
  show "\<exists>a. run_ops array_step (Clear_all # xs) a0 = Some (vs, a) \<and> array_rel n A a"
    by (auto simp: list.rel_eq)
  assume "n = 1"
  then have r: "run_ops (set_step 32) xs {} = Some (vs, A)" using assms(1) by simp
  have "word_rel {} (coreset_clearall s0)" by (simp add: word_rel_def coreset_clearall_def)
  from word_set.run [OF this r] show "\<exists>s. run_ops word_step (Clear_all # xs) s0 = Some (vs, s) \<and> word_rel A s"
    by (auto simp: list.rel_eq)
qed

theorem coreset_refines_set_witness:
  "\<exists>a. run_ops array_step [Clear_all, Add 3, Add 40, Remove 3, Contains 3, Contains 40, Is_empty] [7, 7]
     = Some ([False, True, False], a)"
proof -
  have "{40, 3} - {3} = {40 :: nat}" by auto
  then have "run_ops (set_step (32 * 2)) [Add 3, Add 40, Remove 3, Contains 3, Contains 40, Is_empty] {}
      = Some ([False, True, False], {40})" by simp
  from coreset_refines_set [OF this, of "[7, 7]"] show ?thesis by auto
qed

end
