(* ===== verification/Boot_Download.thy ===== *)
theory Boot_Download
  imports Patmos_Prelude
begin

text \<open>
  \<open>c/bootloader/download.c\<close>: the receiver of an application, and its peer on the host,
  \<open>tools/java/src/patserdow/Transmitter.java\<close> with the sending part of \<open>Main.java\<close>. The receiver reads
  its bytes through \<open>get_byte\<close> and answers through \<open>put_byte\<close>; both are arguments here, because the
  build selects between the serial line, the decompressor and Ethernet. \<open>None\<close> is a byte that
  never comes, or the loop that never ends. The LED register is not modelled.
\<close>

section \<open>The serial line\<close>

text \<open>The two registers of the UART. Reading a register may change the device.\<close>

record 'd uart_if =
  uart_status :: "'d \<Rightarrow> u32 \<times> 'd"
  uart_data :: "'d \<Rightarrow> u32 \<times> 'd"
  uart_set_data :: "u32 \<Rightarrow> 'd \<Rightarrow> 'd"

partial_function (option) uart_read :: "'d uart_if \<Rightarrow> 'd \<Rightarrow> (u32 \<times> 'd) option" where
  "uart_read io d =
     (case uart_status io d of (st, d) \<Rightarrow> if st AND 0x02 = 0 then uart_read io d else Some (uart_data io d))"

partial_function (option) uart_write :: "'d uart_if \<Rightarrow> u8 \<Rightarrow> 'd \<Rightarrow> 'd option" where
  "uart_write io c d =
     (case uart_status io d of (st, d) \<Rightarrow>
        if st AND 0x01 = 0 then uart_write io c d else Some (uart_set_data io (ucast c) d))"

section \<open>The receiver\<close>

datatype dl_state =
  STATE_ENTRYPOINT | STATE_SECTION_NUMBER | STATE_SECTION_FILESIZE | STATE_SECTION_OFFSET
  | STATE_SECTION_MEMSIZE | STATE_SECTION_DATA

text \<open>The variables about the sections, with the words of the main memory, and those about the packet.\<close>

record dl_section =
  entrypoint :: u32
  section_number :: u32
  section_count :: u32
  section_filesize :: u32
  section_offset :: u32
  section_memsize :: u32
  section_byte_count :: u32
  integer :: u32
  current_state :: dl_state
  main_mem :: "nat \<Rightarrow> u32"

record dl_packet =
  packet_byte_count :: u32
  packet_size :: u32
  calculated_crc :: u32
  received_crc :: u32
  sect :: dl_section

abbreviation (input) CRC_LENGTH :: u32 where "CRC_LENGTH \<equiv> 4"
abbreviation (input) poly :: u32 where "poly \<equiv> 0xEDB88320"

definition crc_shift :: "u32 \<Rightarrow> u32" where
  "crc_shift c = (if c AND 1 > 0 then drop_bit 1 c XOR poly else drop_bit 1 c)"

definition crc_byte :: "u32 \<Rightarrow> u32 \<Rightarrow> u32" where
  "crc_byte c data = fold (\<lambda>_. crc_shift) [0..<8] (c XOR data)"

text \<open>\<open>current_state++\<close>, and the assignment of a complete header word.\<close>

fun dl_next :: "dl_state \<Rightarrow> dl_state" where
  "dl_next STATE_ENTRYPOINT = STATE_SECTION_NUMBER"
| "dl_next STATE_SECTION_NUMBER = STATE_SECTION_FILESIZE"
| "dl_next STATE_SECTION_FILESIZE = STATE_SECTION_OFFSET"
| "dl_next STATE_SECTION_OFFSET = STATE_SECTION_MEMSIZE"
| "dl_next STATE_SECTION_MEMSIZE = STATE_SECTION_DATA"
| "dl_next STATE_SECTION_DATA = STATE_SECTION_DATA"

definition dl_field :: "dl_section \<Rightarrow> dl_section" where
  "dl_field s = (case current_state s of
     STATE_ENTRYPOINT \<Rightarrow> s\<lparr>entrypoint := integer s\<rparr>
   | STATE_SECTION_NUMBER \<Rightarrow> s\<lparr>section_number := integer s\<rparr>
   | STATE_SECTION_FILESIZE \<Rightarrow> s\<lparr>section_filesize := integer s\<rparr>
   | STATE_SECTION_OFFSET \<Rightarrow> s\<lparr>section_offset := integer s\<rparr>
   | STATE_SECTION_MEMSIZE \<Rightarrow> s\<lparr>section_memsize := integer s\<rparr>
   | STATE_SECTION_DATA \<Rightarrow> s)"

text \<open>The loop that clears the memory behind the file contents; it does not end when the count wraps around.\<close>

partial_function (option) zero_fill :: "u32 \<Rightarrow> u32 \<Rightarrow> u32 \<Rightarrow> (nat \<Rightarrow> u32) \<Rightarrow> (nat \<Rightarrow> u32) option" where
  "zero_fill off cnt memsize m =
     (if cnt < memsize then zero_fill off (cnt + 4) memsize (m(unat ((off + cnt) div 4) := 0)) else Some m)"

text \<open>One byte of a packet's contents.\<close>

definition dl_payload :: "u32 \<Rightarrow> dl_section \<Rightarrow> dl_section option" where
  "dl_payload data s =
     (let s = s\<lparr>integer := integer s OR push_bit (unat ((3 - section_byte_count s mod 4) * 8)) data\<rparr>;
          s = s\<lparr>section_byte_count := section_byte_count s + 1\<rparr>;
          s = (if current_state s \<noteq> STATE_SECTION_DATA
               then if section_byte_count s = 4
                    then (dl_field s)\<lparr>section_byte_count := 0, current_state := dl_next (current_state s)\<rparr>
                    else s
               else s\<lparr>main_mem := (main_mem s)(unat ((section_offset s + section_byte_count s - 1) div 4) := integer s)\<rparr>)
      in do {
        s \<leftarrow> (if current_state s = STATE_SECTION_DATA \<and> section_byte_count s = section_filesize s
              then do {
                m \<leftarrow> zero_fill (section_offset s) ((section_byte_count s + 3) AND NOT 3) (section_memsize s) (main_mem s);
                Some (s\<lparr>main_mem := m, section_byte_count := 0, section_count := section_count s + 1,
                  current_state := STATE_SECTION_FILESIZE\<rparr>)
              }
              else Some s);
        Some (if section_byte_count s mod 4 = 0 then s\<lparr>integer := 0\<rparr> else s)
      })"

text \<open>
  One iteration of the loop of \<open>download\<close>: \<open>Inl\<close> is a return with that entry point (\<open>NULL\<close> is 0),
  \<open>Inr\<close> the next iteration.
\<close>

definition dl_step ::
    "(u8 \<Rightarrow> 's \<Rightarrow> 's option) \<Rightarrow> u32 \<Rightarrow> dl_packet \<Rightarrow> 's \<Rightarrow> ((u32 \<times> dl_section + dl_packet) \<times> 's) option" where
  "dl_step putb data p s =
     (if packet_size p = 0
      then Some (Inr (p\<lparr>packet_size := data, packet_byte_count := 0, calculated_crc := 0xFFFFFFFF, received_crc := 0\<rparr>), s)
      else do {
        p \<leftarrow> (if packet_byte_count p < CRC_LENGTH
              then Some (p\<lparr>received_crc := push_bit 8 (received_crc p) OR data\<rparr>)
              else if packet_byte_count p < packet_size p + CRC_LENGTH
              then do {
                q \<leftarrow> dl_payload data (sect p);
                Some (p\<lparr>calculated_crc := crc_byte (calculated_crc p) data, sect := q\<rparr>)
              }
              else Some p);
        let p = p\<lparr>packet_byte_count := packet_byte_count p + 1\<rparr>;
        if packet_byte_count p = packet_size p + CRC_LENGTH
        then do {
          let crc = calculated_crc p XOR 0xFFFFFFFF;
          s \<leftarrow> putb (ucast crc) s;
          Some (if crc \<noteq> received_crc p then Inl (0, sect p)
                else if section_count (sect p) = section_number (sect p) then Inl (entrypoint (sect p), sect p)
                else Inr (p\<lparr>calculated_crc := crc, packet_size := 0\<rparr>), s)
        }
        else Some (Inr p, s)
      })"

partial_function (option) download_loop ::
    "('s \<Rightarrow> (u32 \<times> 's) option) \<Rightarrow> (u8 \<Rightarrow> 's \<Rightarrow> 's option) \<Rightarrow> dl_packet \<Rightarrow> 's \<Rightarrow> (u32 \<times> dl_section \<times> 's) option" where
  "download_loop getb putb p s =
     do {
       (data, s) \<leftarrow> getb s;
       (r, s) \<leftarrow> dl_step putb data p s;
       case r of Inl (e, q) \<Rightarrow> Some (e, q, s) | Inr p \<Rightarrow> download_loop getb putb p s
     }"

definition dl_init :: "(nat \<Rightarrow> u32) \<Rightarrow> dl_packet" where
  "dl_init m = \<lparr>packet_byte_count = 0, packet_size = 0, calculated_crc = 0, received_crc = 0xFFFFFFFF,
     sect = \<lparr>entrypoint = 0, section_number = - 1, section_count = 0, section_filesize = 0, section_offset = 0,
       section_memsize = 0, section_byte_count = 0, integer = 0, current_state = STATE_ENTRYPOINT, main_mem = m\<rparr>\<rparr>"

definition download ::
    "('s \<Rightarrow> (u32 \<times> 's) option) \<Rightarrow> (u8 \<Rightarrow> 's \<Rightarrow> 's option) \<Rightarrow> (nat \<Rightarrow> u32) \<Rightarrow> 's \<Rightarrow> (u32 \<times> (nat \<Rightarrow> u32) \<times> 's) option" where
  "download getb putb m s =
     do { (e, q, s) \<leftarrow> download_loop getb putb (dl_init m) s; Some (e, main_mem q, s) }"

section \<open>What a link serves\<close>

text \<open>
  A transcript of the link: \<open>Inl b\<close> is a byte read, \<open>Inr c\<close> a byte written. The link serves it from
  \<open>s\<close> to \<open>s'\<close> when the calls in that order return these bytes and end in \<open>s'\<close>.
\<close>

fun serves :: "('s \<Rightarrow> (u32 \<times> 's) option) \<Rightarrow> (u8 \<Rightarrow> 's \<Rightarrow> 's option) \<Rightarrow> 's \<Rightarrow> (u8 + u8) list \<Rightarrow> 's \<Rightarrow> bool" where
  "serves getb putb s [] s' \<longleftrightarrow> s' = s"
| "serves getb putb s (Inl b # xs) s' \<longleftrightarrow> (\<exists>t. getb s = Some (ucast b, t) \<and> serves getb putb t xs s')"
| "serves getb putb s (Inr c # xs) s' \<longleftrightarrow> (\<exists>t. putb c s = Some t \<and> serves getb putb t xs s')"

fun reads_of :: "(u8 + u8) list \<Rightarrow> u8 list" where
  "reads_of [] = []"
| "reads_of (Inl b # xs) = b # reads_of xs"
| "reads_of (Inr c # xs) = reads_of xs"

fun writes_of :: "(u8 + u8) list \<Rightarrow> u8 list" where
  "writes_of [] = []"
| "writes_of (Inl b # xs) = writes_of xs"
| "writes_of (Inr c # xs) = c # writes_of xs"

lemma reads_writes_append [simp]:
  "reads_of (xs @ ys) = reads_of xs @ reads_of ys" "writes_of (xs @ ys) = writes_of xs @ writes_of ys"
  by (induction xs rule: reads_of.induct) simp_all

lemma reads_writes_Inl [simp]: "reads_of (map Inl bs) = bs" "writes_of (map Inl bs) = []"
  by (induction bs) simp_all

lemma serves_append:
  "serves getb putb s (xs @ ys) s' \<longleftrightarrow> (\<exists>t. serves getb putb s xs t \<and> serves getb putb t ys s')"
  by (induction getb putb s xs s' rule: serves.induct) auto

section \<open>Packets\<close>

definition be32 :: "u32 \<Rightarrow> u8 list" where
  "be32 w = [ucast (drop_bit 24 w), ucast (drop_bit 16 w), ucast (drop_bit 8 w), ucast w]"

definition crc_list :: "u32 \<Rightarrow> u8 list \<Rightarrow> u32" where
  "crc_list c bs = fold (\<lambda>b c. crc_byte c (ucast b)) bs c"

definition crc32 :: "u8 list \<Rightarrow> u32" where
  "crc32 bs = crc_list 0xFFFFFFFF bs XOR 0xFFFFFFFF"

definition packet :: "u8 list \<Rightarrow> u8 list" where
  "packet bs = of_nat (length bs) # be32 (crc32 bs) @ bs"

fun dl_payloads :: "u8 list \<Rightarrow> dl_section \<Rightarrow> dl_section option" where
  "dl_payloads [] s = Some s"
| "dl_payloads (b # bs) s = do { s \<leftarrow> dl_payload (ucast b) s; dl_payloads bs s }"

lemma dl_payloads_append: "dl_payloads (xs @ ys) s = do { s \<leftarrow> dl_payloads xs s; dl_payloads ys s }"
  by (induction xs arbitrary: s) (auto split: bind_splits)

lemma download_loop_get:
  assumes "getb s = Some (data, t)" "dl_step putb data p t = Some (r, u)"
  shows "download_loop getb putb p s =
    (case r of Inl (e, q) \<Rightarrow> Some (e, q, u) | Inr p \<Rightarrow> download_loop getb putb p u)"
  by (subst download_loop.simps) (simp add: assms)

text \<open>The verdict at the end of a packet with a correct checksum.\<close>

definition dl_verdict ::
    "('s \<Rightarrow> (u32 \<times> 's) option) \<Rightarrow> (u8 \<Rightarrow> 's \<Rightarrow> 's option) \<Rightarrow> dl_packet \<Rightarrow> 's \<Rightarrow> (u32 \<times> dl_section \<times> 's) option" where
  "dl_verdict getb putb p s =
     (if section_count (sect p) = section_number (sect p) then Some (entrypoint (sect p), sect p, s)
      else download_loop getb putb p s)"

lemma dl_contents:
  assumes "bs \<noteq> []" "k + length bs = n" "n \<le> 255"
    and "packet_size p = of_nat n" "packet_byte_count p = of_nat (4 + k)"
    and "crc = crc_list (calculated_crc p) bs XOR 0xFFFFFFFF"
    and "dl_payloads bs (sect p) = Some q"
    and "serves getb putb s (map Inl bs @ [Inr (ucast crc)]) s'"
  shows "\<exists>p'. sect p' = q \<and> packet_size p' = 0
    \<and> download_loop getb putb p s = (if crc = received_crc p then dl_verdict getb putb p' s' else Some (0, q, s'))"
  using assms
proof (induction bs arbitrary: k p s)
  case Nil
  then show ?case by simp
next
  case (Cons b bs)
  obtain t where t: "getb s = Some (ucast b, t)" "serves getb putb t (map Inl bs @ [Inr (ucast crc)]) s'"
    using Cons.prems(8) by auto
  obtain q1 where q1: "dl_payload (ucast b) (sect p) = Some q1" "dl_payloads bs q1 = Some q"
    using Cons.prems(7) by (auto split: bind_splits)
  have n: "unat (packet_size p) = n" "unat (packet_byte_count p) = 4 + k" "unat (packet_size p + 4) = n + 4"
    "unat (packet_byte_count p + 1) = 5 + k"
    using Cons.prems(2-5) by (simp_all add: of_nat_u32 unat_word_ariths)
  have n0: "packet_size p \<noteq> 0" using n(1) Cons.prems(2) by (auto simp: unat_eq_zero)
  have lt: "\<not> packet_byte_count p < 4" "packet_byte_count p < packet_size p + 4"
    using n Cons.prems(2) by (simp_all add: word_less_nat_alt)
  have last: "packet_byte_count p + 1 = packet_size p + 4 \<longleftrightarrow> bs = []"
    using n Cons.prems(2) by (cases bs) (auto simp: word_unat_eq_iff)
  let ?p = "p\<lparr>calculated_crc := crc_byte (calculated_crc p) (ucast b), sect := q1, packet_byte_count := packet_byte_count p + 1\<rparr>"
  have crc: "crc_list (calculated_crc p) (b # bs) = crc_list (calculated_crc ?p) bs" by (simp add: crc_list_def)
  show ?case
  proof (cases "bs = []")
    case True
    with t q1 have u: "putb (ucast crc) t = Some s'" "q1 = q" by auto
    have r: "calculated_crc ?p XOR 0xFFFFFFFF = crc"
      using Cons.prems(6) True by (simp add: crc crc_list_def)
    let ?p' = "?p\<lparr>calculated_crc := crc, packet_size := 0\<rparr>"
    have "dl_step putb (ucast b) p t = Some (if crc \<noteq> received_crc p then Inl (0, q)
        else if section_count q = section_number q then Inl (entrypoint q, q) else Inr ?p', s')"
      using n0 lt last True u q1 r by (simp add: dl_step_def Let_def)
    then have "download_loop getb putb p s = (if crc = received_crc p then dl_verdict getb putb ?p' s' else Some (0, q, s'))"
      using download_loop_get [of getb s, OF t(1)] u by (auto simp: dl_verdict_def)
    then show ?thesis using u by (intro exI [of _ ?p']) simp
  next
    case False
    have "dl_step putb (ucast b) p t = Some (Inr ?p, t)"
      using n0 lt last False q1 by (simp add: dl_step_def Let_def)
    then have "download_loop getb putb p s = download_loop getb putb ?p t"
      using download_loop_get [of getb s, OF t(1)] by simp
    then show ?thesis
      using Cons.IH [of "Suc k" ?p t] Cons.prems(2-6) False t(2) q1(2) by (simp add: crc)
  qed
qed

lemma be32_shift:
  "push_bit 8 (push_bit 8 (push_bit 8 (ucast (ucast (drop_bit 24 w) :: u8)) OR ucast (ucast (drop_bit 16 w) :: u8))
     OR ucast (ucast (drop_bit 8 w) :: u8)) OR ucast (ucast w :: u8) = (w :: u32)"
proof (rule bit_word_eqI)
  fix n assume "n < LENGTH(32)"
  then consider "n < 8" | "8 \<le> n" "n < 16" | "16 \<le> n" "n < 24" | "24 \<le> n" "n < 32"
    by fastforce
  then show "bit (push_bit 8 (push_bit 8 (push_bit 8 (ucast (ucast (drop_bit 24 w) :: u8)) OR ucast (ucast (drop_bit 16 w) :: u8))
     OR ucast (ucast (drop_bit 8 w) :: u8)) OR ucast (ucast w :: u8) :: u32) n = bit w n"
    by cases (auto simp: bits)
qed

text \<open>
  A whole packet with the checksum field \<open>c\<close>: its contents reach the section state, the last byte of
  the computed checksum is the answer, and a wrong checksum ends the download.
\<close>

lemma dl_packet_crc:
  assumes "bs \<noteq> []" "length bs \<le> 255" "packet_size p = 0" "dl_payloads bs (sect p) = Some q"
    and "serves getb putb s (map Inl (of_nat (length bs) # be32 c @ bs) @ [Inr (ucast (crc32 bs))]) s'"
  shows "\<exists>p'. sect p' = q \<and> packet_size p' = 0
    \<and> download_loop getb putb p s = (if c = crc32 bs then dl_verdict getb putb p' s' else Some (0, q, s'))"
proof -
  let ?c = "c"
  let ?b = "\<lambda>k. ucast (drop_bit k ?c) :: u8"
  let ?rest = "map Inl bs @ [Inr (ucast (crc32 bs))]"
  obtain t0 t1 t2 t3 t4 where g: "getb s = Some (ucast (of_nat (length bs) :: u8), t0)"
    "getb t0 = Some (ucast (?b 24), t1)" "getb t1 = Some (ucast (?b 16), t2)" "getb t2 = Some (ucast (?b 8), t3)"
    "getb t3 = Some (ucast (ucast ?c :: u8), t4)" and rest: "serves getb putb t4 ?rest s'"
    using assms(5) by (auto simp: be32_def)
  have "ucast (of_nat (length bs) :: u8) = (of_nat (length bs) :: u32)"
    using assms(2) by (simp add: word_unat_eq_iff unsigned_ucast_eq unat_of_nat take_bit_nat_eq_self)
  moreover have "of_nat (length bs) \<noteq> (0 :: u32)"
    using assms(1,2) by (simp add: of_nat_u32 flip: unat_eq_zero)
  ultimately have n: "ucast (of_nat (length bs) :: u8) = (of_nat (length bs) :: u32)" "of_nat (length bs) \<noteq> (0 :: u32)" .
  define h where "h = (\<lambda>k r. p\<lparr>packet_size := of_nat (length bs), packet_byte_count := k,
      calculated_crc := 0xFFFFFFFF, received_crc := r\<rparr>)"
  have l: "unat (of_nat (length bs) + 4 :: u32) = length bs + 4"
    using assms(2) by (simp add: unat_word_ariths of_nat_u32)
  have first: "dl_step putb (of_nat (length bs)) p t0 = Some (Inr (h 0 0), t0)"
    using assms(3) by (simp add: dl_step_def h_def)
  have crc: "dl_step putb b (h k r) t = Some (Inr (h (k + 1) (push_bit 8 r OR b)), t)" if "k < 4" for b k r t
  proof -
    have "unat k < 4" using that by (simp add: word_less_nat_alt)
    then have "unat (k + 1) = unat k + 1" by (simp add: unat_word_ariths)
    with \<open>unat k < 4\<close> have "k + 1 \<noteq> of_nat (length bs) + 4"
      using l assms(1) by (auto simp: word_unat_eq_iff)
    with that n(2) show ?thesis by (simp add: dl_step_def h_def Let_def)
  qed
  have "download_loop getb putb p s = download_loop getb putb (h 4 ?c) t4"
    using be32_shift [of ?c]
    by (simp add: n(1) download_loop_get [of getb s, OF g(1) first [folded n(1)]] download_loop_get [of getb t0, OF g(2) crc]
        download_loop_get [of getb t1, OF g(3) crc] download_loop_get [of getb t2, OF g(4) crc] download_loop_get [of getb t3, OF g(5) crc])
  moreover have "\<exists>p'. sect p' = q \<and> packet_size p' = 0 \<and> download_loop getb putb (h 4 ?c) t4
      = (if crc32 bs = received_crc (h 4 ?c) then dl_verdict getb putb p' s' else Some (0, q, s'))"
    by (rule dl_contents [of bs 0 "length bs"]) (use assms rest in \<open>simp_all add: h_def crc32_def\<close>)
  ultimately show ?thesis by (auto simp: h_def)
qed

lemma dl_packet:
  assumes "bs \<noteq> []" "length bs \<le> 255" "packet_size p = 0" "dl_payloads bs (sect p) = Some q"
    and "serves getb putb s (map Inl (packet bs) @ [Inr (ucast (crc32 bs))]) s'"
  shows "\<exists>p'. sect p' = q \<and> packet_size p' = 0 \<and> download_loop getb putb p s = dl_verdict getb putb p' s'"
  using dl_packet_crc [OF assms(1-4), of getb putb s "crc32 bs" s'] assms(5) by (simp add: packet_def)

end
