(* ===== verification/Boot_Decompress.thy ===== *)
theory Boot_Decompress
  imports Boot_Download
begin

text \<open>
  The decompressor of the boot loader, \<open>c/bootloader/decompress.c\<close>. The download reads its bytes
  through \<open>decompress_get_byte\<close>, which reads the serial line when its ring buffer has no
  decompressed byte left. The format is LZSS: a flag byte for eight codes, each a literal byte or a
  position and a length in the ring buffer of the last 1024 bytes.

  A list of codes describes a text from one time to another (\<open>describes\<close>). The main lemma is
  that a line which delivers the packed codes of a text delivers the text through the decompressor.
\<close>

section \<open>The decompressor\<close>

abbreviation (input) LZ_N :: nat where "LZ_N \<equiv> 1024"
abbreviation (input) LZ_F :: nat where "LZ_F \<equiv> 66"
abbreviation (input) LZ_THRESHOLD :: nat where "LZ_THRESHOLD \<equiv> 2"

record lz_dec =
  text_buf :: "u32 \<Rightarrow> u8"
  write_pos :: u32
  read_pos :: u32
  flags :: u32

definition decompress_init :: "lz_dec \<Rightarrow> lz_dec" where
  "decompress_init d =
     (let d = fold (\<lambda>i d. d\<lparr>text_buf := (text_buf d)(write_pos d := 0x20), write_pos := write_pos d + 1\<rparr>)
                [0..<LZ_N - LZ_F] (d\<lparr>write_pos := 0\<rparr>)
      in d\<lparr>read_pos := write_pos d, flags := 0\<rparr>)"

text \<open>\<open>text_buf[write_pos++] = c; write_pos &= (N - 1);\<close>\<close>

definition lz_put :: "u8 \<Rightarrow> lz_dec \<Rightarrow> lz_dec" where
  "lz_put c d = d\<lparr>text_buf := (text_buf d)(write_pos d := c), write_pos := (write_pos d + 1) AND 1023\<rparr>"

definition lz_copy :: "u32 \<Rightarrow> nat \<Rightarrow> lz_dec \<Rightarrow> lz_dec" where
  "lz_copy i j d = fold (\<lambda>k d. lz_put (text_buf d ((i + of_nat k) AND 1023)) d) [0..<j + 1] d"

text \<open>The three parts of \<open>decompress_get_byte\<close>: the next flag, the next code, and the next byte.\<close>

definition decompress_flag :: "('s \<Rightarrow> (u32 \<times> 's) option) \<Rightarrow> lz_dec \<times> 's \<Rightarrow> (lz_dec \<times> 's) option" where
  "decompress_flag uart_rd ds =
     (case ds of (d, s) \<Rightarrow>
      let d = d\<lparr>flags := drop_bit 1 (flags d)\<rparr> in
      if flags d AND 0x100 = 0
      then do { (c, s) \<leftarrow> uart_rd s; Some (d\<lparr>flags := c OR 0xFF00\<rparr>, s) }
      else Some (d, s))"

definition decompress_code :: "('s \<Rightarrow> (u32 \<times> 's) option) \<Rightarrow> lz_dec \<times> 's \<Rightarrow> (lz_dec \<times> 's) option" where
  "decompress_code uart_rd ds =
     (case ds of (d, s) \<Rightarrow>
      if flags d AND 1 \<noteq> 0
      then do { (c, s) \<leftarrow> uart_rd s; Some (lz_put (ucast c) d, s) }
      else do {
        (i, s) \<leftarrow> uart_rd s;
        (j, s) \<leftarrow> uart_rd s;
        let i = i OR push_bit 2 (j AND 0xC0);
        let j = (j AND 0x3F) + 2;
        Some (lz_copy i (unat j) d, s)
      })"

definition decompress_get_byte :: "('s \<Rightarrow> (u32 \<times> 's) option) \<Rightarrow> lz_dec \<times> 's \<Rightarrow> (u32 \<times> lz_dec \<times> 's) option" where
  "decompress_get_byte uart_rd ds =
     do {
       (d, s) \<leftarrow> (if read_pos (fst ds) = write_pos (fst ds)
                then do { ds \<leftarrow> decompress_flag uart_rd ds; decompress_code uart_rd ds }
                else Some ds);
       let c = text_buf d (read_pos d);
       Some (ucast c, d\<lparr>read_pos := (read_pos d + 1) AND 1023\<rparr>, s)
     }"

section \<open>Codes\<close>

datatype lz_code = Lit u8 | Ref nat nat

fun code_len :: "lz_code \<Rightarrow> nat" where
  "code_len (Lit b) = 1"
| "code_len (Ref p l) = l"

text \<open>
  Time counts the bytes of the history, which starts with the 958 spaces of the initial ring
  buffer. A code describes the history \<open>X\<close> at time \<open>u\<close>.
\<close>

fun code_at :: "u8 list \<Rightarrow> nat \<Rightarrow> lz_code \<Rightarrow> bool" where
  "code_at X u (Lit b) \<longleftrightarrow> u < length X \<and> X ! u = b"
| "code_at X u (Ref p l) \<longleftrightarrow> 3 \<le> l \<and> l \<le> LZ_F \<and> u + l \<le> length X \<and>
     (\<exists>v<u. u \<le> v + LZ_N \<and> p = v mod LZ_N \<and> (\<forall>i<l. X ! (v + i) = X ! (u + i)))"

fun describes :: "u8 list \<Rightarrow> nat \<Rightarrow> lz_code list \<Rightarrow> nat \<Rightarrow> bool" where
  "describes X u [] u' \<longleftrightarrow> u' = u"
| "describes X u (c # cs) u' \<longleftrightarrow> code_at X u c \<and> describes X (u + code_len c) cs u'"

fun code_bytes :: "lz_code \<Rightarrow> u8 list" where
  "code_bytes (Lit b) = [b]"
| "code_bytes (Ref p l) = [of_nat p, of_nat ((drop_bit 2 p AND 0xC0) OR (l - 3))]"

definition is_lit :: "lz_code \<Rightarrow> bool" where
  "is_lit c = (case c of Lit _ \<Rightarrow> True | _ \<Rightarrow> False)"

definition group_flags :: "lz_code list \<Rightarrow> u8" where
  "group_flags g = fold (\<lambda>k f. if is_lit (g ! k) then f OR push_bit k 1 else f) [0..<length g] 0"

definition group_bytes :: "lz_code list \<Rightarrow> u8 list" where
  "group_bytes g = group_flags g # concat (map code_bytes g)"

fun pack :: "lz_code list list \<Rightarrow> u8 list" where
  "pack [] = []"
| "pack (g # gs) = group_bytes g @ pack gs"

section \<open>Positions in the ring buffer\<close>

definition ring_pos :: "nat \<Rightarrow> u32" where
  "ring_pos u = of_nat (u mod LZ_N)"

lemma and_1023: "(x :: u32) AND 1023 = take_bit 10 x"
  by (simp add: take_bit_eq_mask mask_eq_exp_minus_1)

lemma ring_pos_and: "of_nat n AND 1023 = ring_pos n"
  by (simp only: and_1023 ring_pos_def take_bit_of_nat) (simp add: take_bit_eq_mod)

lemma ring_pos_add: "(ring_pos u + of_nat k) AND 1023 = ring_pos (u + k)"
proof -
  have "ring_pos u + of_nat k = of_nat (u mod LZ_N + k)" by (simp add: ring_pos_def)
  then show ?thesis by (simp only: ring_pos_and) (simp add: ring_pos_def mod_add_left_eq)
qed

lemma ring_pos_Suc: "(ring_pos u + 1) AND 1023 = ring_pos (Suc u)"
  using ring_pos_add [of u 1] by simp

lemma ring_pos_eq: "ring_pos u = ring_pos v \<longleftrightarrow> u mod LZ_N = v mod LZ_N"
proof -
  have "unat (ring_pos w) = w mod LZ_N" for w
    using mod_less_divisor [of LZ_N w] by (simp only: ring_pos_def) (subst of_nat_u32; simp)
  then show ?thesis by (metis ring_pos_def)
qed

lemma ring_mod_eq: "u mod n = v mod n \<Longrightarrow> u \<le> v \<Longrightarrow> v < u + n \<Longrightarrow> u = v" for u v n :: nat
proof -
  assume a: "u mod n = v mod n" "u \<le> v" "v < u + n"
  then have "(v - u) mod n = 0" using mod_eq_dvd_iff_nat [of u v n] by (simp add: dvd_imp_mod_0)
  moreover have "v - u < n" using a by simp
  ultimately show "u = v" using a by simp
qed

text \<open>The ring buffer holds the last 1024 bytes of the history before time \<open>u\<close>, as far as there are any.\<close>

definition ring_holds :: "(u32 \<Rightarrow> u8) \<Rightarrow> u8 list \<Rightarrow> nat \<Rightarrow> bool" where
  "ring_holds b X u \<longleftrightarrow> (\<forall>v<u. u \<le> v + LZ_N \<longrightarrow> b (ring_pos v) = X ! v)"

lemma ring_holds_put:
  assumes "ring_holds b X u" "c = X ! u"
  shows "ring_holds (b(ring_pos u := c)) X (Suc u)"
  unfolding ring_holds_def
proof (intro allI impI)
  fix v assume v: "v < Suc u" "Suc u \<le> v + LZ_N"
  show "(b(ring_pos u := c)) (ring_pos v) = X ! v"
  proof (cases "v = u")
    case False
    then have "ring_pos v \<noteq> ring_pos u" using v ring_mod_eq [of v LZ_N u] by (auto simp: ring_pos_eq)
    then show ?thesis using assms(1) v False by (simp add: ring_holds_def)
  qed (use assms(2) in simp)
qed

definition spaces :: "u8 list" where
  "spaces = replicate (LZ_N - LZ_F) 0x20"

lemma length_spaces [simp]: "length spaces = 958"
  by (simp add: spaces_def)

lemma decompress_init_fold:
  assumes "n \<le> LZ_N - LZ_F"
  shows "fold (\<lambda>i d. d\<lparr>text_buf := (text_buf d)(write_pos d := 0x20), write_pos := write_pos d + 1\<rparr>)
      [0..<n] (d\<lparr>write_pos := 0\<rparr>)
    = d\<lparr>text_buf := \<lambda>a. if unat a < n then 0x20 else text_buf d a, write_pos := of_nat n\<rparr>"
  using assms
proof (induction n)
  case (Suc n)
  have n: "unat (of_nat n :: u32) = n" using Suc.prems by (subst of_nat_u32) simp_all
  then have "unat a < Suc n \<longleftrightarrow> a = of_nat n \<or> unat a < n" for a :: u32
    by (auto simp: word_unat_eq_iff)
  with Suc show ?case by (simp add: fun_upd_def ac_simps) (simp add: fun_eq_iff if_distrib)
qed simp

lemma decompress_init_holds:
  "write_pos (decompress_init d) = ring_pos 958" "read_pos (decompress_init d) = ring_pos 958"
  "flags (decompress_init d) = 0" "ring_holds (text_buf (decompress_init d)) (spaces @ X) 958"
proof -
  have e: "decompress_init d = d\<lparr>text_buf := \<lambda>a. if unat a < 958 then 0x20 else text_buf d a,
      write_pos := 958, read_pos := 958, flags := 0\<rparr>"
    using decompress_init_fold [of 958 d] by (simp add: decompress_init_def Let_def)
  show "write_pos (decompress_init d) = ring_pos 958" "read_pos (decompress_init d) = ring_pos 958"
    "flags (decompress_init d) = 0" by (simp_all add: e ring_pos_def)
  have "unat (of_nat v :: u32) = v" if "v < 958" for v using that by (subst of_nat_u32) simp_all
  then show "ring_holds (text_buf (decompress_init d)) (spaces @ X) 958"
    by (simp add: e ring_holds_def ring_pos_def nth_append) (simp add: spaces_def)
qed

section \<open>The flags\<close>

fun groups_ok :: "lz_code list list \<Rightarrow> bool" where
  "groups_ok [] \<longleftrightarrow> True"
| "groups_ok [g] \<longleftrightarrow> g \<noteq> [] \<and> length g \<le> 8"
| "groups_ok (g # gs) \<longleftrightarrow> length g = 8 \<and> groups_ok gs"

lemma groups_ok_Cons: "groups_ok (g # gs) \<longleftrightarrow> g \<noteq> [] \<and> length g \<le> 8 \<and> (gs \<noteq> [] \<longrightarrow> length g = 8) \<and> groups_ok gs"
  by (cases gs) auto

lemma bit_group_flags_upto:
  "n \<le> 8 \<Longrightarrow> bit (fold (\<lambda>k f. if is_lit (g ! k) then f OR push_bit k 1 else f) [0..<n] (0 :: u8)) i
     \<longleftrightarrow> i < n \<and> is_lit (g ! i)"
  by (induction n) (auto simp: bits bit_exp_iff less_Suc_eq)

lemma bit_group_flags: "length g \<le> 8 \<Longrightarrow> bit (group_flags g) i \<longleftrightarrow> i < length g \<and> is_lit (g ! i)"
  by (simp add: group_flags_def bit_group_flags_upto)

text \<open>
  The flag register after \<open>j\<close> shifts since the flag byte \<open>c\<close> was read, with the codes \<open>g\<close> of the
  group still to come. The ones above the flag byte count the shifts.
\<close>

definition flags_ok :: "u32 \<Rightarrow> lz_code list \<Rightarrow> bool \<Rightarrow> bool" where
  "flags_ok fl g mo \<longleftrightarrow> fl = 0 \<and> g = [] \<or>
     (\<exists>(c :: u8) j. j \<le> 7 \<and> fl = drop_bit j (ucast c OR 0xFF00) \<and> length g \<le> 7 - j \<and> (mo \<longrightarrow> length g = 7 - j)
        \<and> (\<forall>k<length g. bit c (Suc j + k) \<longleftrightarrow> is_lit (g ! k)))"

lemma bit_FF00 [simp]: "bit (0xFF00 :: int) n \<longleftrightarrow> 8 \<le> n \<and> n < 16"
proof -
  have "(0xFF00 :: int) = push_bit 8 (mask 8)" by (simp add: mask_eq_exp_minus_1)
  then show ?thesis by (simp only: bit_push_bit_iff bit_mask_iff) auto
qed

lemma and_bit: "(x :: u32) AND push_bit k 1 = 0 \<longleftrightarrow> \<not> bit x k"
  by (simp add: and_exp_eq_0_iff_not_bit)

lemma flags_reload: "drop_bit (Suc j) (ucast (c :: u8) OR 0xFF00) AND 0x100 = (0 :: u32) \<longleftrightarrow> 7 \<le> j"
proof -
  have "(0x100 :: u32) = push_bit 8 1" by simp
  then show ?thesis using and_bit [of "drop_bit (Suc j) (ucast c OR 0xFF00)" 8]
    by (auto simp: bit_drop_bit_eq bit_or_iff bit_ucast_iff simp del: drop_bit_or dest: bit_lt_len)
qed

lemma flags_bit: "drop_bit j (ucast (c :: u8) OR 0xFF00) AND 1 \<noteq> (0 :: u32) \<longleftrightarrow> bit c j" if "j < 8"
proof -
  show ?thesis using and_bit [of "drop_bit j (ucast c OR 0xFF00)" 0] that
    by (auto simp: bit_drop_bit_eq bit_or_iff bit_ucast_iff simp del: drop_bit_or)
qed

lemma flags_continue:
  assumes "flags_ok fl (c # g) mo"
  shows "drop_bit 1 fl AND 0x100 \<noteq> 0" "drop_bit 1 fl AND 1 \<noteq> 0 \<longleftrightarrow> is_lit c" "flags_ok (drop_bit 1 fl) g mo"
proof -
  obtain b :: u8 and j where b: "j \<le> 7" "fl = drop_bit j (ucast b OR 0xFF00)" "Suc (length g) \<le> 7 - j"
    "mo \<longrightarrow> Suc (length g) = 7 - j" "\<forall>k<Suc (length g). bit b (Suc j + k) \<longleftrightarrow> is_lit ((c # g) ! k)"
    using assms by (auto simp: flags_ok_def)
  have d: "drop_bit 1 fl = drop_bit (Suc j) (ucast b OR 0xFF00)" by (simp only: b(2) drop_bit_drop_bit plus_1_eq_Suc)
  show "drop_bit 1 fl AND 0x100 \<noteq> 0" using b(3) by (simp only: d flags_reload)
  show "drop_bit 1 fl AND 1 \<noteq> 0 \<longleftrightarrow> is_lit c"
    using b(3) b(5) flags_bit [of "Suc j" b] by (simp only: d) (auto dest: spec [of _ 0])
  have "\<forall>k<length g. bit b (Suc (Suc j) + k) \<longleftrightarrow> is_lit (g ! k)" using b(5) by fastforce
  then show "flags_ok (drop_bit 1 fl) g mo" unfolding flags_ok_def d using b(3,4)
    by (intro disjI2 exI [of _ b] exI [of _ "Suc j"]) auto
qed

lemma flags_end:
  assumes "flags_ok fl [] True"
  shows "drop_bit 1 fl AND 0x100 = 0"
proof -
  { fix b :: u8
    have "drop_bit 1 (drop_bit 7 (ucast b OR 0xFF00)) AND 0x100 = (0 :: u32)"
      using flags_reload [of 7 b] by (simp only: drop_bit_drop_bit) simp }
  then show ?thesis using assms by (auto simp: flags_ok_def)
qed

lemma flags_load:
  assumes "groups_ok ((c # g) # gs)"
  shows "(ucast (group_flags (c # g)) OR 0xFF00) AND 1 \<noteq> (0 :: u32) \<longleftrightarrow> is_lit c"
    "flags_ok (ucast (group_flags (c # g)) OR 0xFF00) g (gs \<noteq> [])"
proof -
  have l: "length (c # g) \<le> 8" "gs \<noteq> [] \<longrightarrow> length (c # g) = 8" using assms by (simp_all add: groups_ok_Cons)
  then show "(ucast (group_flags (c # g)) OR 0xFF00) AND 1 \<noteq> (0 :: u32) \<longleftrightarrow> is_lit c"
    using flags_bit [of 0 "group_flags (c # g)"] by (simp add: bit_group_flags)
  show "flags_ok (ucast (group_flags (c # g)) OR 0xFF00) g (gs \<noteq> [])"
    unfolding flags_ok_def using l
    by (intro disjI2 exI [of _ "group_flags (c # g)"] exI [of _ 0]) (auto simp: bit_group_flags)
qed

section \<open>One code\<close>

lemma lz_put_holds:
  assumes "ring_holds (text_buf d) X u" "write_pos d = ring_pos u" "c = X ! u"
  shows "ring_holds (text_buf (lz_put c d)) X (Suc u)" "write_pos (lz_put c d) = ring_pos (Suc u)"
    "read_pos (lz_put c d) = read_pos d" "flags (lz_put c d) = flags d"
  using ring_holds_put [OF assms(1,3)] by (simp_all add: lz_put_def assms(2) ring_pos_Suc)

text \<open>
  The copy reads behind its own writes, so the source may overlap what it produces: the byte
  read is always one of the last 1024 of the history.
\<close>

lemma lz_copy_holds:
  assumes "ring_holds (text_buf d) X u" "write_pos d = ring_pos u"
    and "v < u" "u \<le> v + LZ_N" "i = ring_pos v" "\<forall>k<l. X ! (v + k) = X ! (u + k)" "n \<le> l"
  shows "let d' = fold (\<lambda>k d. lz_put (text_buf d ((i + of_nat k) AND 1023)) d) [0..<n] d
    in ring_holds (text_buf d') X (u + n) \<and> write_pos d' = ring_pos (u + n) \<and> read_pos d' = read_pos d \<and> flags d' = flags d"
  using assms(7)
proof (induction n)
  case 0
  then show ?case using assms(1,2) by simp
next
  case (Suc n)
  define d' where "d' = fold (\<lambda>k d. lz_put (text_buf d ((i + of_nat k) AND 1023)) d) [0..<n] d"
  have IH: "ring_holds (text_buf d') X (u + n)" "write_pos d' = ring_pos (u + n)" "read_pos d' = read_pos d" "flags d' = flags d"
    using Suc by (simp_all add: d'_def Let_def)
  have "text_buf d' ((i + of_nat n) AND 1023) = X ! (u + n)"
    using IH(1) assms(3-6) Suc.prems by (simp add: ring_pos_add ring_holds_def)
  with lz_put_holds [OF IH(1,2)] IH(3,4) show ?case by (simp add: Let_def d'_def [symmetric])
qed

lemma bit_C0: "bit (0xC0 :: int) n \<longleftrightarrow> 6 \<le> n \<and> n < 8" "bit (0xC0 :: nat) n \<longleftrightarrow> 6 \<le> n \<and> n < 8"
  "bit (0x3F :: int) n \<longleftrightarrow> n < 6"
proof -
  have m: "(0xC0 :: int) = push_bit 6 (mask 2)" "(0xC0 :: nat) = push_bit 6 (mask 2)" "(0x3F :: int) = mask 6"
    by (simp_all add: mask_eq_exp_minus_1)
  show "bit (0xC0 :: int) n \<longleftrightarrow> 6 \<le> n \<and> n < 8" "bit (0xC0 :: nat) n \<longleftrightarrow> 6 \<le> n \<and> n < 8" "bit (0x3F :: int) n \<longleftrightarrow> n < 6"
    by (simp_all only: m bit_push_bit_iff bit_mask_iff) auto
qed

lemma bit_small_nat: "x < 2 ^ k \<Longrightarrow> bit x n \<Longrightarrow> n < k" for x :: nat
  by (metis bit_take_bit_iff take_bit_nat_eq_self)
lemma ref_bytes:
  assumes "p < LZ_N" "3 \<le> l" "l \<le> LZ_F"
  defines "j \<equiv> ucast (of_nat ((drop_bit 2 p AND 0xC0) OR (l - 3)) :: u8) :: u32"
  shows "ucast (of_nat p :: u8) OR push_bit 2 (j AND 0xC0) = of_nat p" "unat ((j AND 0x3F) + 2) + 1 = l"
proof -
  have p: "bit p n \<longrightarrow> n < 10" for n using bit_small_nat [of p 10 n] assms(1) by simp
  have l: "bit (l - 3) n \<longrightarrow> n < 6" for n using bit_small_nat [of "l - 3" 6 n] assms(3) by simp
  have j: "bit j n \<longleftrightarrow> n < 8 \<and> (6 \<le> n \<and> bit p (n + 2) \<or> bit (l - 3) n)" for n
    by (auto simp: j_def bits bit_C0 bit_of_nat_iff add.commute)
  have k: "bit (push_bit 2 (j AND 0xC0)) n \<longleftrightarrow> 8 \<le> n \<and> n < 10 \<and> bit p n" for n
  proof (cases "8 \<le> n")
    case True
    then have "n - 2 + 2 = n" "6 \<le> n - 2" "n - 2 < 8 \<longleftrightarrow> n < 10" by auto
    then show ?thesis using True l [of "n - 2"] by (simp only: bit_push_bit_iff bit_and_iff j) (auto simp: bit_C0)
  next
    case False
    then show ?thesis by (simp only: bit_push_bit_iff bit_and_iff j) (auto simp: bit_C0)
  qed
  show "ucast (of_nat p :: u8) OR push_bit 2 (j AND 0xC0) = of_nat p"
  proof (rule bit_word_eqI)
    fix n assume "n < LENGTH(32)"
    then show "bit (ucast (of_nat p :: u8) OR push_bit 2 (j AND 0xC0)) n = bit (of_nat p :: u32) n"
      using p [of n] by (simp only: bit_or_iff k) (auto simp: bits bit_of_nat_iff)
  qed
  have "j AND 0x3F = of_nat (l - 3)"
  proof (rule bit_word_eqI)
    fix n assume "n < LENGTH(32)"
    then show "bit (j AND 0x3F) n = bit (of_nat (l - 3) :: u32) n"
      using l [of n] by (auto simp: bits bit_C0 bit_of_nat_iff j)
  qed
  moreover have "unat (of_nat (l - 3) + 2 :: u32) = l - 3 + 2"
    using assms(3) by (simp add: unat_word_ariths of_nat_u32)
  ultimately show "unat ((j AND 0x3F) + 2) + 1 = l" using assms(2) by simp
qed

section \<open>Lines that deliver bytes\<close>

text \<open>
  A line delivers \<open>bs\<close> when it serves every exchange in which these bytes are read, with any answers
  between them.
\<close>

definition delivers :: "('s \<Rightarrow> (u32 \<times> 's) option) \<Rightarrow> (u8 \<Rightarrow> 's \<Rightarrow> 's option) \<Rightarrow> 's \<Rightarrow> u8 list \<Rightarrow> bool" where
  "delivers getb putb s bs \<longleftrightarrow> (\<forall>xs. reads_of xs = bs \<longrightarrow> (\<exists>s'. serves getb putb s xs s'))"

lemma delivers_get:
  assumes "delivers getb putb s (b # bs)"
  shows "\<exists>t. getb s = Some (ucast b, t) \<and> delivers getb putb t bs"
proof -
  have s: "\<exists>s'. serves getb putb s (Inl b # xs) s'" if "reads_of xs = bs" for xs
    using assms that by (simp only: delivers_def reads_of.simps)
  from s [of "map Inl bs"] obtain t where t: "getb s = Some (ucast b, t)" by auto
  have "\<exists>s'. serves getb putb t xs s'" if "reads_of xs = bs" for xs using s [OF that] t by auto
  with t show ?thesis by (auto simp: delivers_def)
qed

lemma delivers_put:
  assumes "delivers getb putb s bs"
  shows "\<exists>t. putb c s = Some t \<and> delivers getb putb t bs"
proof -
  have s: "\<exists>s'. serves getb putb s (Inr c # xs) s'" if "reads_of xs = bs" for xs
    using assms that by (simp only: delivers_def reads_of.simps)
  from s [of "map Inl bs"] obtain t where t: "putb c s = Some t" by auto
  have "\<exists>s'. serves getb putb t xs s'" if "reads_of xs = bs" for xs using s [OF that] t by auto
  with t show ?thesis by (auto simp: delivers_def)
qed

section \<open>Decompression\<close>

text \<open>
  The state of the decompressor between two calls: the history is written up to time \<open>u\<close> and read up to
  \<open>r\<close>; \<open>g\<close> are the codes left of the current group and \<open>gs\<close> the groups to come.
\<close>

definition dec_inv :: "u8 list \<Rightarrow> nat \<Rightarrow> nat \<Rightarrow> lz_code list \<Rightarrow> lz_code list list \<Rightarrow> nat \<Rightarrow> lz_dec \<Rightarrow> bool" where
  "dec_inv X r u g gs E d \<longleftrightarrow> r \<le> u \<and> u \<le> r + LZ_F \<and> ring_holds (text_buf d) X u
     \<and> write_pos d = ring_pos u \<and> read_pos d = ring_pos r \<and> flags_ok (flags d) g (gs \<noteq> []) \<and> groups_ok gs
     \<and> describes X u (g @ concat gs) E"

abbreviation pending :: "lz_code list \<Rightarrow> lz_code list list \<Rightarrow> u8 list" where
  "pending g gs \<equiv> concat (map code_bytes g) @ pack gs"

lemma decode_unit:
  assumes "ring_holds (text_buf d) X u" "write_pos d = ring_pos u" "code_at X u c"
    and "delivers getb putb s (code_bytes c @ bs)" "flags d AND 1 \<noteq> 0 \<longleftrightarrow> is_lit c"
  shows "\<exists>d' s'. decompress_code getb (d, s) = Some (d', s')
     \<and> delivers getb putb s' bs \<and> ring_holds (text_buf d') X (u + code_len c) \<and> write_pos d' = ring_pos (u + code_len c)
     \<and> read_pos d' = read_pos d \<and> flags d' = flags d"
proof (cases c)
  case (Lit b)
  then obtain t where "getb s = Some (ucast b, t)" "delivers getb putb t bs"
    using delivers_get [of getb putb s b bs] assms(4) by auto
  moreover have "b = X ! u" using assms(3) Lit by simp
  ultimately show ?thesis using assms(5) Lit lz_put_holds [OF assms(1,2), of b] by (simp add: is_lit_def decompress_code_def)
next
  case (Ref p l)
  let ?j = "of_nat ((drop_bit 2 p AND 0xC0) OR (l - 3)) :: u8"
  obtain v where v: "v < u" "u \<le> v + LZ_N" "p = v mod LZ_N" "\<forall>i<l. X ! (v + i) = X ! (u + i)" "3 \<le> l" "l \<le> LZ_F"
    using assms(3) unfolding Ref code_at.simps by (elim conjE exE) (rule that)
  have "delivers getb putb s (of_nat p # ?j # bs)" using assms(4) Ref by simp
  from delivers_get [OF this] obtain t where t: "getb s = Some (ucast (of_nat p :: u8), t)" "delivers getb putb t (?j # bs)"
    by (elim exE conjE) (rule that)
  from delivers_get [OF t(2)] obtain t' where t': "getb t = Some (ucast ?j, t')" "delivers getb putb t' bs"
    by (elim exE conjE) (rule that)
  have i: "ucast (of_nat p :: u8) OR push_bit 2 (ucast ?j AND 0xC0) = ring_pos v" and n: "unat ((ucast ?j AND 0x3F :: u32) + 2) + 1 = l"
    using ref_bytes [of p l] v by (simp_all add: ring_pos_def)
  show ?thesis
    using t(1) t' lz_copy_holds [OF assms(1,2) v(1,2) refl v(4), of l] assms(5) Ref n
    by (simp add: is_lit_def decompress_code_def i lz_copy_def Let_def del: upt_Suc push_bit_and)
qed


lemma decode_code:
  assumes "dec_inv X u u g gs E d" "u < E" "delivers getb putb s (pending g gs)"
  shows "\<exists>d' s' u' g' gs'. do { ds \<leftarrow> decompress_flag getb (d, s); decompress_code getb ds } = Some (d', s') \<and> delivers getb putb s' (pending g' gs')
    \<and> u < u' \<and> dec_inv X u u' g' gs' E d'"
proof -
  note inv = assms(1) [unfolded dec_inv_def]
  have "g @ concat gs \<noteq> []"
  proof
    assume "g @ concat gs = []"
    then have "describes X u [] E" using inv by metis
    then show False using assms(2) by simp
  qed
  then obtain c g' gs' where cs: "g = c # g' \<and> gs = gs' \<or> g = [] \<and> gs = (c # g') # gs'"
    using inv by (cases g; cases gs) (auto simp: groups_ok_Cons neq_Nil_conv)
  have c: "code_at X u c" "describes X (u + code_len c) (g' @ concat gs') E" "groups_ok gs'"
    using cs inv by (auto simp: groups_ok_Cons)
  have len: "0 < code_len c" "code_len c \<le> LZ_F" using c(1) by (cases c; auto)+
  have "\<exists>d1 s1. decompress_flag getb (d, s) = Some (d1, s1) \<and> delivers getb putb s1 (code_bytes c @ pending g' gs')
      \<and> (flags d1 AND 1 \<noteq> 0 \<longleftrightarrow> is_lit c) \<and> flags_ok (flags d1) g' (gs' \<noteq> [])
      \<and> text_buf d1 = text_buf d \<and> write_pos d1 = write_pos d \<and> read_pos d1 = read_pos d"
    using cs
  proof
    assume g: "g = c # g' \<and> gs = gs'"
    then show ?thesis using flags_continue [of "flags d" c g' "gs \<noteq> []"] inv assms(3) by (simp add: decompress_flag_def)
  next
    assume g: "g = [] \<and> gs = (c # g') # gs'"
    then obtain t where t: "getb s = Some (ucast (group_flags (c # g')), t)" "delivers getb putb t (code_bytes c @ pending g' gs')"
      using delivers_get [of getb putb s "group_flags (c # g')"] assms(3) by (auto simp: group_bytes_def)
    moreover have "drop_bit 1 (flags d) AND 0x100 = 0" using flags_end [of "flags d"] inv g by simp
    ultimately show ?thesis using flags_load [of c g' gs'] inv g by (simp add: decompress_flag_def)
  qed
  then obtain d1 s1 where 1: "decompress_flag getb (d, s) = Some (d1, s1)" "delivers getb putb s1 (code_bytes c @ pending g' gs')"
      "flags d1 AND 1 \<noteq> 0 \<longleftrightarrow> is_lit c" "flags_ok (flags d1) g' (gs' \<noteq> [])"
      "text_buf d1 = text_buf d" "write_pos d1 = write_pos d" "read_pos d1 = read_pos d" by blast
  have r: "ring_holds (text_buf d1) X u" "write_pos d1 = ring_pos u" using inv 1 by simp_all
  from decode_unit [OF r c(1) 1(2,3)] obtain d' s' where
    "decompress_code getb (d1, s1) = Some (d', s')" "delivers getb putb s' (pending g' gs')" "ring_holds (text_buf d') X (u + code_len c)"
    "write_pos d' = ring_pos (u + code_len c)" "read_pos d' = read_pos d1" "flags d' = flags d1"
    by blast
  with 1 c len inv show ?thesis
    by (intro exI [of _ d'] exI [of _ s'] exI [of _ "u + code_len c"] exI [of _ g'] exI [of _ gs']) (simp add: dec_inv_def)
qed

lemma decode_byte:
  assumes "dec_inv X r u g gs E d" "r < E" "delivers getb putb s (pending g gs)"
  shows "\<exists>d' s' u' g' gs'. decompress_get_byte getb (d, s) = Some (ucast (X ! r), d', s')
    \<and> delivers getb putb s' (pending g' gs') \<and> dec_inv X (Suc r) u' g' gs' E d'"
proof -
  have "\<exists>d' s' u' g' gs'. (if read_pos d = write_pos d then do { ds \<leftarrow> decompress_flag getb (d, s); decompress_code getb ds } else Some (d, s)) = Some (d', s')
    \<and> delivers getb putb s' (pending g' gs') \<and> r < u' \<and> dec_inv X r u' g' gs' E d'"
  proof (cases "r = u")
    case True
    then show ?thesis using decode_code [of X u g gs E d getb putb s] assms by (simp add: dec_inv_def)
  next
    case False
    then have "read_pos d \<noteq> write_pos d" using assms(1) ring_mod_eq [of r LZ_N u] by (auto simp: dec_inv_def ring_pos_eq)
    then show ?thesis using assms False by (intro exI [of _ d] exI [of _ s] exI [of _ u] exI [of _ g] exI [of _ gs]) (simp add: dec_inv_def)
  qed
  then obtain d' s' u' g' gs' where 1: "(if read_pos d = write_pos d then do { ds \<leftarrow> decompress_flag getb (d, s); decompress_code getb ds } else Some (d, s)) = Some (d', s')"
    "delivers getb putb s' (pending g' gs')" "r < u'" "dec_inv X r u' g' gs' E d'" by blast
  have "text_buf d' (read_pos d') = X ! r" using 1(3,4) by (simp add: dec_inv_def ring_holds_def)
  with 1 show ?thesis
    by (intro exI [of _ "d'\<lparr>read_pos := ring_pos (Suc r)\<rparr>"] exI [of _ s'] exI [of _ u'] exI [of _ g'] exI [of _ gs'])
      (simp add: dec_inv_def decompress_get_byte_def ring_pos_Suc)
qed

text \<open>The answers of the download go to the line directly.\<close>

definition dec_put :: "(u8 \<Rightarrow> 's \<Rightarrow> 's option) \<Rightarrow> u8 \<Rightarrow> lz_dec \<times> 's \<Rightarrow> (lz_dec \<times> 's) option" where
  "dec_put putb c ds = do { s \<leftarrow> putb c (snd ds); Some (fst ds, s) }"

lemma decoder_serves:
  assumes "dec_inv X r u g gs E d" "delivers getb putb s (pending g gs)" "r + length (reads_of xs) = E"
    and "reads_of xs = drop r (take E X)" "E \<le> length X"
  shows "\<exists>ds'. serves (decompress_get_byte getb) (dec_put putb) (d, s) xs ds'"
  using assms
proof (induction xs arbitrary: r u g gs d s)
  case Nil
  then show ?case by simp
next
  case (Cons x xs)
  show ?case
  proof (cases x)
    case (Inl b)
    have r: "r < E" using Cons.prems(3) Inl by simp
    have b: "b = X ! r" "reads_of xs = drop (Suc r) (take E X)"
      using Cons.prems(4,5) Inl r by (simp_all add: Cons_nth_drop_Suc [symmetric])
    from decode_byte [OF Cons.prems(1) r Cons.prems(2)] obtain d' s' u' g' gs' where
      1: "decompress_get_byte getb (d, s) = Some (ucast (X ! r), d', s')" "delivers getb putb s' (pending g' gs')"
        "dec_inv X (Suc r) u' g' gs' E d'" by blast
    show ?thesis using Cons.IH [OF 1(3,2) _ b(2)] Cons.prems(3,5) Inl 1(1) b(1) by auto
  next
    case (Inr c)
    then obtain t where "putb c s = Some t" "delivers getb putb t (pending g gs)"
      using delivers_put [OF Cons.prems(2)] by blast
    with Cons.IH [OF Cons.prems(1) this(2)] Cons.prems(3-5) Inr show ?thesis by (auto simp: dec_put_def)
  qed
qed

lemma decompressor_delivers:
  assumes "describes (spaces @ bs) 958 (concat gs) (958 + length bs)" "groups_ok gs"
    and "delivers getb putb s (pack gs)"
  shows "delivers (decompress_get_byte getb) (dec_put putb) (decompress_init d, s) bs"
proof -
  have "dec_inv (spaces @ bs) 958 958 [] gs (958 + length bs) (decompress_init d)"
    using decompress_init_holds assms(1,2) by (simp add: dec_inv_def flags_ok_def)
  then show ?thesis
    unfolding delivers_def by (intro allI impI, elim decoder_serves) (use assms(3) in simp_all)
qed

end
