(* ===== verification/Pointer_Tree.thy ===== *)
theory Pointer_Tree
  imports Main "HOL-Library.Tree"
begin

text \<open>
  Binary trees stored in three arrays of node numbers: the left and the right child and the parent of each
  node, as \<open>tools/java/src/patserdow/CompressionOutputStream.java\<close> has them. Nodes are below 1024, and 1024
  is the empty tree. \<open>rep\<close> relates the arrays to a tree of the library. The lemmas show how the tree
  changes when a node is replaced by another subtree, which is the last step of both
  \<open>insertNode\<close> and \<open>deleteNode\<close>.
\<close>

type_synonym links = "nat \<Rightarrow> nat"

abbreviation (input) NIL :: nat where "NIL \<equiv> 1024"

fun rep :: "links \<Rightarrow> links \<Rightarrow> links \<Rightarrow> nat \<Rightarrow> nat \<Rightarrow> nat tree \<Rightarrow> bool" where
  "rep L R P x par Leaf \<longleftrightarrow> x = NIL"
| "rep L R P x par (Node l a r) \<longleftrightarrow> x = a \<and> a < NIL \<and> P a = par \<and> rep L R P (L a) a l \<and> rep L R P (R a) a r"

lemma rep_frame:
  assumes "\<And>a. a \<in> set_tree t \<Longrightarrow> L' a = L a \<and> R' a = R a \<and> P' a = P a" "rep L R P x par t"
  shows "rep L' R' P' x par t"
  using assms by (induction t arbitrary: x par) auto

lemma rep_nodes: "rep L R P x par t \<Longrightarrow> a \<in> set_tree t \<Longrightarrow> a < NIL"
  by (induction t arbitrary: x par) auto

lemma rep_root: "rep L R P x par t \<Longrightarrow> x \<noteq> NIL \<Longrightarrow> x \<in> set_tree t"
  by (cases t) auto

lemma rep_no_root: "rep L R P x par t \<Longrightarrow> a \<notin> set_tree t \<Longrightarrow> a < NIL \<Longrightarrow> x \<noteq> a"
  by (cases t) auto

text \<open>The root of a represented tree may get another parent.\<close>

lemma rep_reparent:
  assumes "rep L R P x par t" "distinct (inorder t)"
  shows "rep L R (P(x := q)) x q t"
proof (cases t)
  case (Node l a r)
  have "rep L R (P(a := q)) (L a) a l" "rep L R (P(a := q)) (R a) a r"
    using assms Node by (auto intro!: rep_frame [where P = P and P' = "P(a := q)"])
  then show ?thesis using assms Node by simp
qed (use assms in simp)

section \<open>Subtrees\<close>

fun subt :: "'a \<Rightarrow> 'a tree \<Rightarrow> 'a tree" where
  "subt q Leaf = Leaf"
| "subt q (Node l a r) = (if a = q then Node l a r else if q \<in> set_tree l then subt q l else subt q r)"

fun subst_tree :: "'a \<Rightarrow> 'a tree \<Rightarrow> 'a tree \<Rightarrow> 'a tree" where
  "subst_tree q u Leaf = Leaf"
| "subst_tree q u (Node l a r) =
     (if a = q then u else if q \<in> set_tree l then Node (subst_tree q u l) a r else Node l a (subst_tree q u r))"

lemma subt_Node: "q \<in> set_tree t \<Longrightarrow> \<exists>l r. subt q t = Node l q r"
  by (induction t) auto

lemma inorder_subst:
  assumes "q \<in> set_tree t"
  shows "\<exists>xs ys. inorder t = xs @ inorder (subt q t) @ ys \<and> (\<forall>u. inorder (subst_tree q u t) = xs @ inorder u @ ys)"
  using assms
proof (induction t)
  case (Node l a r)
  consider "a = q" | "a \<noteq> q" "q \<in> set_tree l" | "a \<noteq> q" "q \<notin> set_tree l" "q \<in> set_tree r" using Node.prems by auto
  then show ?case
  proof cases
    case 1
    then show ?thesis by (intro exI [of _ "[]"]) simp
  next
    case 2
    then obtain xs ys where "inorder l = xs @ inorder (subt q l) @ ys" "\<forall>u. inorder (subst_tree q u l) = xs @ inorder u @ ys"
      using Node.IH(1) by blast
    then show ?thesis using 2 by (intro exI [of _ xs] exI [of _ "ys @ a # inorder r"]) simp
  next
    case 3
    then obtain xs ys where "inorder r = xs @ inorder (subt q r) @ ys" "\<forall>u. inorder (subst_tree q u r) = xs @ inorder u @ ys"
      using Node.IH(2) by blast
    then show ?thesis using 3 by (intro exI [of _ "inorder l @ a # xs"] exI [of _ ys]) simp
  qed
qed simp

text \<open>The nodes outside of the subtree at \<open>q\<close>.\<close>

abbreviation outside :: "'a \<Rightarrow> 'a tree \<Rightarrow> 'a set" where
  "outside q t \<equiv> set_tree t - set_tree (subt q t)"

lemma subst_tree_sets:
  assumes "q \<in> set_tree t" "distinct (inorder t)"
  shows "set_tree (subst_tree q u t) = outside q t \<union> set_tree u"
    and "distinct (inorder u) \<Longrightarrow> set_tree u \<inter> outside q t = {} \<Longrightarrow> distinct (inorder (subst_tree q u t))"
    and "distinct (inorder (subt q t))" "set_tree (subt q t) \<subseteq> set_tree t"
proof -
  obtain xs ys where i: "inorder t = xs @ inorder (subt q t) @ ys" "inorder (subst_tree q u t) = xs @ inorder u @ ys"
    using inorder_subst [OF assms(1)] by blast
  have o: "outside q t = set xs \<union> set ys"
    using assms(2) i(1) by (simp only: set_inorder [symmetric] i(1)) auto
  show "set_tree (subst_tree q u t) = outside q t \<union> set_tree u"
    unfolding o by (simp only: set_inorder [symmetric] i(2)) auto
  show "distinct (inorder u) \<Longrightarrow> set_tree u \<inter> outside q t = {} \<Longrightarrow> distinct (inorder (subst_tree q u t))"
    unfolding o using assms(2) by (simp only: set_inorder [symmetric] i) auto
  show "distinct (inorder (subt q t))" using assms(2) i(1) by simp
  show "set_tree (subt q t) \<subseteq> set_tree t" by (simp only: set_inorder [symmetric] i(1)) auto
qed

lemma rep_subt: "rep L R P x par t \<Longrightarrow> q \<in> set_tree t \<Longrightarrow> rep L R P q (P q) (subt q t)"
  by (induction t arbitrary: x par) auto

section \<open>Replacing a subtree\<close>

text \<open>
  The last step of both operations: the child link that leads from the parent \<open>b\<close> to \<open>q\<close> now leads to \<open>y\<close>.
\<close>

definition relink_l :: "nat \<Rightarrow> nat \<Rightarrow> nat \<Rightarrow> links \<Rightarrow> links \<Rightarrow> links" where
  "relink_l q y b L R = (if R b = q then L else L(b := y))"

definition relink_r :: "nat \<Rightarrow> nat \<Rightarrow> nat \<Rightarrow> links \<Rightarrow> links" where
  "relink_r q y b R = (if R b = q then R(b := y) else R)"

lemma relink_other: "b \<noteq> c \<Longrightarrow> relink_l q y b L R c = L c" "b \<noteq> c \<Longrightarrow> relink_r q y b R c = R c"
  by (simp_all add: relink_l_def relink_r_def)

lemma rep_relink_frame:
  assumes "rep L R P x par t" "\<And>a. a \<in> set_tree t \<Longrightarrow> L' a = L a \<and> R' a = R a \<and> P' a = P a" "b \<notin> set_tree t"
  shows "rep (relink_l q y b L' R') (relink_r q y b R') P' x par t"
proof (rule rep_frame [OF _ assms(1)])
  fix a assume a: "a \<in> set_tree t"
  with assms(3) have "b \<noteq> a" by auto
  with assms(2) [OF a] show "relink_l q y b L' R' a = L a \<and> relink_r q y b R' a = R a \<and> P' a = P a"
    by (simp add: relink_other)
qed

lemma rep_relink:
  assumes "rep L R P x par t" "distinct (inorder t)" "q \<in> set_tree t" "x \<noteq> q"
    and "\<And>a. a \<in> outside q t \<Longrightarrow> L' a = L a \<and> R' a = R a \<and> P' a = P a"
    and "rep L' R' P' y (P q) u" "set_tree u \<inter> outside q t = {}"
  shows "P q \<in> outside q t \<and> rep (relink_l q y (P q) L' R') (relink_r q y (P q) R') P' x par (subst_tree q u t)"
  using assms
proof (induction t arbitrary: x par)
  case (Node l a r)
  let ?L = "relink_l q y (P q) L' R'" and ?R = "relink_r q y (P q) R'"
  have x: "x = a" "a \<noteq> q" "a < NIL" "P a = par" "rep L R P (L a) a l" "rep L R P (R a) a r" using Node.prems(1,4) by auto
  have qN: "q < NIL" using rep_nodes Node.prems(1,3) by blast
  have hang: "rep ?L ?R P' y a u" if "P q = a" "a \<notin> set_tree u"
    using rep_relink_frame [OF Node.prems(6), of L' R' P'] that by simp
  show ?case
  proof (cases "q \<in> set_tree l")
    case True
    have q: "q \<notin> set_tree r" using Node.prems(2) True by auto
    have s: "subt q (Node l a r) = subt q l" using True x(2) by simp
    have "set_tree (subt q l) \<subseteq> set_tree l" using True subst_tree_sets(4) [of q l] Node.prems(2) by simp
    then have out: "outside q (Node l a r) = insert a (outside q l \<union> set_tree r)"
      unfolding s using Node.prems(2) by auto
    note frame = Node.prems(5) [unfolded out] and disj = Node.prems(7) [unfolded out]
    have a: "L' a = L a" "R' a = R a" "P' a = P a" using frame [of a] by auto
    have au: "a \<notin> set_tree u" using disj by auto
    have other: "rep ?L ?R P' (R a) a r" if "P q \<notin> set_tree r"
      by (rule rep_relink_frame [OF x(6) _ that]) (use frame in auto)
    show ?thesis
    proof (cases "L a = q")
      case L: True
      then have Pq: "P q = a" "subt q l = l" "subst_tree q u l = u" using x(5) qN by (cases l; auto)+
      have "R a \<noteq> q" using rep_no_root [OF x(6) q qN] .
      then have "?L a = y" "?R a = R a" using a Pq(1) by (simp_all add: relink_l_def relink_r_def)
      moreover have "rep ?L ?R P' (R a) a r" using other Node.prems(2) Pq(1) by auto
      ultimately show ?thesis using hang [OF Pq(1) au] True x a Pq Node.prems(2) by (simp add: out)
    next
      case False
      have IH: "P q \<in> outside q l \<and> rep ?L ?R P' (L a) a (subst_tree q u l)"
        by (rule Node.IH(1) [OF x(5) _ True False _ Node.prems(6)]) (use Node.prems(2) disj frame in auto)
      then have "P q \<noteq> a" "P q \<notin> set_tree r" using Node.prems(2) by auto
      then show ?thesis using IH other True x a by (simp add: out relink_other)
    qed
  next
    case False
    then have q: "q \<in> set_tree r" using Node.prems(3) x(2) by auto
    have s: "subt q (Node l a r) = subt q r" using False x(2) by simp
    have "set_tree (subt q r) \<subseteq> set_tree r" using q subst_tree_sets(4) [of q r] Node.prems(2) by simp
    then have out: "outside q (Node l a r) = insert a (set_tree l \<union> outside q r)"
      unfolding s using Node.prems(2) by auto
    note frame = Node.prems(5) [unfolded out] and disj = Node.prems(7) [unfolded out]
    have a: "L' a = L a" "R' a = R a" "P' a = P a" using frame [of a] by auto
    have au: "a \<notin> set_tree u" using disj by auto
    have other: "rep ?L ?R P' (L a) a l" if "P q \<notin> set_tree l"
      by (rule rep_relink_frame [OF x(5) _ that]) (use frame in auto)
    show ?thesis
    proof (cases "R a = q")
      case R: True
      then have Pq: "P q = a" "subt q r = r" "subst_tree q u r = u" using x(6) qN by (cases r; auto)+
      have "?L a = L a" "?R a = y" using a Pq(1) R by (simp_all add: relink_l_def relink_r_def)
      moreover have "rep ?L ?R P' (L a) a l" using other Node.prems(2) Pq(1) by auto
      ultimately show ?thesis using hang [OF Pq(1) au] False x a Pq Node.prems(2) by (simp add: out)
    next
      case R: False
      have IH: "P q \<in> outside q r \<and> rep ?L ?R P' (R a) a (subst_tree q u r)"
        by (rule Node.IH(2) [OF x(6) _ q R _ Node.prems(6)]) (use Node.prems(2) disj frame in auto)
      then have "P q \<noteq> a" "P q \<notin> set_tree l" using Node.prems(2) by auto
      then show ?thesis using IH other False x a by (simp add: out relink_other)
    qed
  qed
qed simp

section \<open>A forest with root links\<close>

text \<open>
  Tree \<open>c\<close> hangs at the right child link of the pseudo node \<open>1025 + c\<close>. The trees have no node in common,
  and the nodes below 1024 with the parent \<open>NIL\<close> are those in no tree.
\<close>

abbreviation (input) root_of :: "nat \<Rightarrow> nat" where "root_of c \<equiv> 1025 + c"

definition nodes :: "(nat \<Rightarrow> nat tree) \<Rightarrow> nat set" where
  "nodes T = (\<Union>c<256. set_tree (T c))"

definition forest :: "links \<Rightarrow> links \<Rightarrow> links \<Rightarrow> (nat \<Rightarrow> nat tree) \<Rightarrow> bool" where
  "forest L R P T \<longleftrightarrow>
     (\<forall>c<256. rep L R P (R (root_of c)) (root_of c) (T c) \<and> distinct (inorder (T c)))
   \<and> (\<forall>c<256. \<forall>d<256. c \<noteq> d \<longrightarrow> set_tree (T c) \<inter> set_tree (T d) = {})
   \<and> (\<forall>a<NIL. P a \<noteq> NIL \<longleftrightarrow> a \<in> nodes T)"

lemma forestD:
  assumes "forest L R P T"
  shows "c < 256 \<Longrightarrow> rep L R P (R (root_of c)) (root_of c) (T c)" "c < 256 \<Longrightarrow> distinct (inorder (T c))"
    "c < 256 \<Longrightarrow> d < 256 \<Longrightarrow> c \<noteq> d \<Longrightarrow> set_tree (T c) \<inter> set_tree (T d) = {}"
    "a < NIL \<Longrightarrow> P a \<noteq> NIL \<longleftrightarrow> a \<in> nodes T"
  using assms by (simp_all add: forest_def)

lemma forest_node: "forest L R P T \<Longrightarrow> a \<in> nodes T \<Longrightarrow> a < NIL"
  using rep_nodes by (fastforce simp: forest_def nodes_def)

lemma nodes_upd: "c < 256 \<Longrightarrow> nodes (T(c := t)) = set_tree t \<union> (\<Union>d\<in>{..<256} - {c}. set_tree (T d))"
  by (auto simp: nodes_def split: if_splits)

text \<open>One tree changes, and the links change only at its nodes, at its root link and at nodes in no tree.\<close>

lemma forest_upd:
  assumes "forest L R P T" "c < 256"
    and "rep L' R' P' (R' (root_of c)) (root_of c) t" "distinct (inorder t)"
    and "\<And>d. d < 256 \<Longrightarrow> d \<noteq> c \<Longrightarrow> set_tree t \<inter> set_tree (T d) = {}"
    and frame: "\<And>d a. d < 256 \<Longrightarrow> d \<noteq> c \<Longrightarrow> a \<in> set_tree (T d) \<Longrightarrow> L' a = L a \<and> R' a = R a \<and> P' a = P a"
    and "\<And>d. d < 256 \<Longrightarrow> d \<noteq> c \<Longrightarrow> R' (root_of d) = R (root_of d)"
    and "\<And>a. a < NIL \<Longrightarrow> a \<notin> (\<Union>d\<in>{..<256} - {c}. set_tree (T d)) \<Longrightarrow> P' a \<noteq> NIL \<longleftrightarrow> a \<in> set_tree t"
  shows "forest L' R' P' (T(c := t))"
  unfolding forest_def
proof (intro conjI allI impI)
  fix d assume d: "d < (256 :: nat)"
  show "rep L' R' P' (R' (root_of d)) (root_of d) ((T(c := t)) d)"
  proof (cases "d = c")
    case False
    have "rep L' R' P' (R (root_of d)) (root_of d) (T d)"
      by (rule rep_frame [OF _ forestD(1) [OF assms(1) d]]) (use frame [OF d False] in blast)
    then show ?thesis using assms(7) [OF d False] False by simp
  qed (use assms(3) in simp)
  show "distinct (inorder ((T(c := t)) d))" using assms(4) forestD(2) [OF assms(1) d] by simp
  fix e assume e: "e < (256 :: nat)" "d \<noteq> e"
  show "set_tree ((T(c := t)) d) \<inter> set_tree ((T(c := t)) e) = {}"
    using forestD(3) [OF assms(1) d e] assms(5) [OF d] assms(5) [OF e(1)] e(2) by auto
next
  fix a assume a: "a < NIL"
  show "P' a \<noteq> NIL \<longleftrightarrow> a \<in> nodes (T(c := t))"
  proof (cases "a \<in> (\<Union>d\<in>{..<256} - {c}. set_tree (T d))")
    case True
    then have "P' a = P a" "a \<in> nodes T" using frame by (auto simp: nodes_def)
    then show ?thesis using forestD(4) [OF assms(1) a] True by (simp add: nodes_upd [OF assms(2)])
  next
    case False
    then show ?thesis using assms(8) [OF a False] by (simp add: nodes_upd [OF assms(2)])
  qed
qed

text \<open>
  The subtree at the node \<open>q\<close> of tree \<open>c\<close> is replaced by the tree \<open>u\<close> at \<open>y\<close>, whose nodes are nodes of the
  old subtree or in no tree. Before that the links have changed only at such nodes.
\<close>

lemma forest_replace:
  assumes F: "forest L R P T" and c: "c < 256" and q: "q \<in> set_tree (T c)"
    and frame: "\<And>a. a \<notin> set_tree (subt q (T c)) \<Longrightarrow> a \<notin> N \<Longrightarrow> a \<noteq> NIL \<Longrightarrow> L' a = L a \<and> R' a = R a \<and> P' a = P a"
    and N: "N \<inter> nodes T = {}" "\<And>a. a \<in> N \<Longrightarrow> a < NIL"
    and u: "rep L' R' P' y (P q) u" "distinct (inorder u)"
      "set_tree u \<subseteq> set_tree (subt q (T c)) \<union> N"
    and P: "\<And>a. a \<in> set_tree (subt q (T c)) \<union> N \<Longrightarrow> P' a \<noteq> NIL \<longleftrightarrow> a \<in> set_tree u"
  shows "forest (relink_l q y (P q) L' R') (relink_r q y (P q) R') P' (T(c := subst_tree q u (T c)))"
proof -
  let ?t = "T c" and ?x = "R (root_of c)"
  let ?L = "relink_l q y (P q) L' R'" and ?R = "relink_r q y (P q) R'"
  note t = forestD(1) [OF F c] forestD(2) [OF F c]
  have sub: "set_tree (subt q ?t) \<subseteq> set_tree ?t" using subst_tree_sets(4) [OF q t(2)] .
  have Nt: "N \<inter> set_tree (T d) = {}" if "d < 256" for d using N(1) that by (auto simp: nodes_def)
  have out: "set_tree u \<inter> outside q ?t = {}" using u(3) Nt [OF c] by auto
  have lt: "a < NIL" if "a \<in> set_tree ?t" for a using rep_nodes [OF t(1) that] .
  have fr: "L' a = L a \<and> R' a = R a \<and> P' a = P a" if "a \<in> outside q ?t" for a
    using that frame [of a] Nt [OF c] lt [of a] by auto
  have root: "R' (root_of d) = R (root_of d)" for d
    using frame [of "root_of d"] lt [of "root_of d"] sub N(2) [of "root_of d"] by auto
  have rep: "rep ?L ?R P' (?R (root_of c)) (root_of c) (subst_tree q u ?t) \<and> (P q \<in> set_tree ?t \<or> P q = root_of c)"
  proof (cases "?x = q")
    case True
    then have pq: "P q = root_of c" "subst_tree q u ?t = u" using t(1) lt [OF q] by (cases ?t; auto)+
    have "root_of c \<notin> set_tree u" using u(3) sub lt [of "root_of c"] N(2) [of "root_of c"] by auto
    then have "rep ?L ?R P' y (root_of c) u"
      using rep_relink_frame [OF u(1), of L' R' P' "P q"] pq(1) by simp
    moreover have "?R (root_of c) = y" using True root [of c] pq(1) by (simp add: relink_r_def)
    ultimately show ?thesis using pq by simp
  next
    case False
    have *: "P q \<in> outside q ?t \<and> rep ?L ?R P' ?x (root_of c) (subst_tree q u ?t)"
      by (rule rep_relink [OF t q False fr u(1) out])
    then have "P q \<noteq> root_of c" using lt [of "P q"] by auto
    then show ?thesis using * root [of c] by (simp add: relink_other)
  qed
  have set: "set_tree (subst_tree q u ?t) = outside q ?t \<union> set_tree u" by (rule subst_tree_sets(1) [OF q t(2)])
  have Pq: "P q \<noteq> a" if "a \<in> set_tree (T d)" "d < 256" "d \<noteq> c" for a d
    using rep forestD(3) [OF F that(2) c that(3)] that(1) rep_nodes [OF forestD(1) [OF F that(2)] that(1)] by auto
  show ?thesis
  proof (rule forest_upd [OF F c])
    show "rep ?L ?R P' (?R (root_of c)) (root_of c) (subst_tree q u ?t)" using rep by blast
    show "distinct (inorder (subst_tree q u ?t))" by (rule subst_tree_sets(2) [OF q t(2) u(2) out])
    fix d assume d: "d < (256 :: nat)" "d \<noteq> c"
    note dis = forestD(3) [OF F d(1) c d(2)]
    show "set_tree (subst_tree q u ?t) \<inter> set_tree (T d) = {}" unfolding set using u(3) dis sub Nt [OF d(1)] by blast
    have "P q \<noteq> root_of d" using rep d(2) lt [of "root_of d"] by auto
    then show "?R (root_of d) = R (root_of d)" using root [of d] by (simp add: relink_other)
    fix a assume a: "a \<in> set_tree (T d)"
    have "a \<notin> set_tree (subt q ?t)" "a \<notin> N" "a \<noteq> NIL"
      using a dis sub Nt [OF d(1)] rep_nodes [OF forestD(1) [OF F d(1)] a] by auto
    then show "?L a = L a \<and> ?R a = R a \<and> P' a = P a" using frame [of a] Pq [OF a d] by (simp add: relink_other)
  next
    fix a assume a: "a < NIL" "a \<notin> (\<Union>d\<in>{..<256} - {c}. set_tree (T d))"
    show "P' a \<noteq> NIL \<longleftrightarrow> a \<in> set_tree (subst_tree q u ?t)"
    proof (cases "a \<in> set_tree (subt q ?t) \<union> N")
      case True
      then show ?thesis using P [OF True] u(3) set Nt [OF c] by blast
    next
      case False
      then have "P' a = P a" using frame [of a] a(1) by auto
      moreover have "a \<in> nodes T \<longleftrightarrow> a \<in> set_tree ?t" using a(2) c by (auto simp: nodes_def)
      ultimately show ?thesis using forestD(4) [OF F a(1)] False set u(3) by auto
    qed
  qed
qed

lemma nodes_replace:
  assumes "forest L R P T" "c < 256" "q \<in> set_tree (T c)"
  shows "nodes (T(c := subst_tree q u (T c))) = nodes T - set_tree (subt q (T c)) \<union> set_tree u"
proof -
  have "set_tree (subt q (T c)) \<inter> set_tree (T d) = {}" if "d < 256" "d \<noteq> c" for d
    using subst_tree_sets(4) [OF assms(3) forestD(2) [OF assms(1,2)]] forestD(3) [OF assms(1,2) that(1)] that(2) by blast
  moreover have "nodes T = set_tree (T c) \<union> (\<Union>d\<in>{..<256} - {c}. set_tree (T d))"
    using assms(2) by (auto simp: nodes_def)
  ultimately show ?thesis
    unfolding nodes_upd [OF assms(2)] subst_tree_sets(1) [OF assms(3) forestD(2) [OF assms(1,2)]] by blast
qed

lemma rep_parent_link:
  assumes "rep L R P x par t" "q \<in> set_tree t" "q \<noteq> x"
  shows "R (P q) = q \<or> L (P q) = q"
  using assms
proof (induction t arbitrary: x par)
  case (Node l a r)
  note x = Node.prems(1) [unfolded rep.simps]
  show ?case
  proof (cases "q \<in> set_tree l")
    case True
    then have "q = L a \<Longrightarrow> P q = a" using x by (cases l) auto
    then show ?thesis using Node.IH(1) [of "L a" a] x True by (cases "q = L a") auto
  next
    case False
    then have q: "q \<in> set_tree r" using Node.prems x by auto
    then have "q = R a \<Longrightarrow> P q = a" using x by (cases r) auto
    then show ?thesis using Node.IH(2) [of "R a" a] x q by (cases "q = R a") auto
  qed
qed simp

lemma rep_parent: "rep L R P x par t \<Longrightarrow> q \<in> set_tree t \<Longrightarrow> P q \<in> insert par (set_tree t)"
  by (induction t arbitrary: x par) auto

lemma forest_parent_link:
  assumes "forest L R P T" "c < 256" "q \<in> set_tree (T c)"
  shows "R (P q) = q \<or> L (P q) = q"
proof -
  note t = forestD(1,2) [OF assms(1,2)]
  show "R (P q) = q \<or> L (P q) = q"
  proof (cases "R (root_of c) = q")
    case True
    then show ?thesis using t(1) assms(3) rep_nodes [OF t(1) assms(3)] by (cases "T c") auto
  qed (use rep_parent_link [OF t(1) assms(3)] in auto)
qed

lemma rep_inner_parent:
  assumes "rep L R P x par t" "q \<in> set_tree t" "q \<noteq> x"
  shows "P q \<in> set_tree t"
proof (cases t)
  case (Node l a r)
  then have "q \<in> set_tree l \<or> q \<in> set_tree r" using assms by auto
  then show ?thesis using assms(1) Node rep_parent [of L R P "L a" a l q] rep_parent [of L R P "R a" a r q] by auto
qed (use assms(2) in simp)

lemma rep_parent_ne:
  "rep L R P x par t \<Longrightarrow> distinct (inorder t) \<Longrightarrow> par \<notin> set_tree t \<Longrightarrow> q \<in> set_tree t \<Longrightarrow> P q \<noteq> q"
  by (induction t arbitrary: x par) auto

lemma forest_parent:
  assumes "forest L R P T" "c < 256" "q \<in> set_tree (T c)"
  shows "P q \<noteq> q" "P q \<noteq> NIL" "q < NIL" "P q < 1281" "R (P q) \<noteq> q \<Longrightarrow> P q < NIL"
proof -
  note t = forestD(1,2) [OF assms(1,2)]
  show q: "q < NIL" using rep_nodes [OF t(1) assms(3)] .
  have r: "root_of c \<notin> set_tree (T c)" using rep_nodes [OF t(1), of "root_of c"] by auto
  show "P q \<noteq> q" using rep_parent_ne [OF t r assms(3)] .
  have p: "P q \<in> insert (root_of c) (set_tree (T c))" using rep_parent [OF t(1) assms(3)] .
  then show "P q \<noteq> NIL" "P q < 1281" using rep_nodes [OF t(1), of "P q"] assms(2) by auto
  assume R: "R (P q) \<noteq> q"
  show "P q < NIL"
  proof (cases "q = R (root_of c)")
    case True
    then show ?thesis using t(1) q R assms(3) by (cases "T c") auto
  next
    case False
    then have "P q \<in> set_tree (T c)" using rep_inner_parent [OF t(1) assms(3)] by blast
    then show ?thesis using rep_nodes [OF t(1)] by blast
  qed
qed

text \<open>Three uses of the replacement: a new leaf, a new node in the place of an old one, a node less.\<close>

lemma rep_subt_Node:
  assumes "forest L R P T" "c < 256" "q \<in> set_tree (T c)"
  obtains l r where "subt q (T c) = Node l q r" "rep L R P (L q) q l" "rep L R P (R q) q r"
    "distinct (inorder (Node l q r))" "set_tree (Node l q r) \<subseteq> set_tree (T c)"
proof -
  note t = forestD(1,2) [OF assms(1,2)]
  obtain l r where n: "subt q (T c) = Node l q r" using subt_Node [OF assms(3)] by blast
  moreover have "rep L R P q (P q) (Node l q r)" using rep_subt [OF t(1) assms(3)] n by simp
  moreover have "distinct (inorder (Node l q r))" "set_tree (Node l q r) \<subseteq> set_tree (T c)"
    using subst_tree_sets(3,4) [OF assms(3) t(2)] n by metis+
  ultimately show ?thesis using that [of l r] by (simp only: rep.simps)
qed

lemma relink_same:
  assumes "R b = q \<or> L b = q"
  shows "relink_l q q b L R = L" "relink_r q q b R = R"
  using assms by (auto simp: relink_l_def relink_r_def)

lemma forest_leaf_root:
  assumes "forest L R P T" "c < 256" "r < NIL" "r \<notin> nodes T" "L r = NIL" "R r = NIL" "R (root_of c) = NIL"
  shows "forest L (R(root_of c := r)) (P(r := root_of c)) (T(c := Node Leaf r Leaf))" "T c = Leaf"
proof -
  show T: "T c = Leaf" using forestD(1) [OF assms(1,2)] assms(7) by (cases "T c") auto
  have lt: "a < NIL" if "d < 256" "a \<in> set_tree (T d)" for d a using rep_nodes [OF forestD(1) [OF assms(1) that(1)] that(2)] .
  have nr: "r \<notin> set_tree (T d)" if "d < 256" for d using assms(4) that by (auto simp: nodes_def)
  show "forest L (R(root_of c := r)) (P(r := root_of c)) (T(c := Node Leaf r Leaf))"
  proof (rule forest_upd [OF assms(1,2)])
    fix a assume "a < NIL" "a \<notin> (\<Union>d\<in>{..<256} - {c}. set_tree (T d))"
    then show "(P(r := root_of c)) a \<noteq> NIL \<longleftrightarrow> a \<in> set_tree (Node Leaf r Leaf)"
      using forestD(4) [OF assms(1), of a] T by (auto simp: nodes_def)
  next
    fix d a assume d: "d < (256 :: nat)" "d \<noteq> c" "a \<in> set_tree (T d)"
    then have "a \<noteq> r" "a \<noteq> root_of c" using nr lt [OF d(1,3)] by auto
    then show "L a = L a \<and> (R(root_of c := r)) a = R a \<and> (P(r := root_of c)) a = P a" by simp
  qed (use assms nr in auto)
qed

lemma forest_leaf:
  assumes "forest L R P T" "c < 256" "r < NIL" "r \<notin> nodes T" "L r = NIL" "R r = NIL" "b \<in> set_tree (T c)"
  shows "R b = NIL \<Longrightarrow> \<exists>t. forest L (R(b := r)) (P(r := b)) (T(c := t)) \<and> set_tree t = insert r (set_tree (T c))"
    and "L b = NIL \<Longrightarrow> \<exists>t. forest (L(b := r)) R (P(r := b)) (T(c := t)) \<and> set_tree t = insert r (set_tree (T c))"
proof -
  obtain l rr where n: "subt b (T c) = Node l b rr" "rep L R P (L b) b l" "rep L R P (R b) b rr"
    "distinct (inorder (Node l b rr))" "set_tree (Node l b rr) \<subseteq> set_tree (T c)" by (rule rep_subt_Node [OF assms(1,2,7)])
  have nr: "r \<notin> set_tree (T c)" using assms(2,4) by (auto simp: nodes_def)
  note pb = forest_parent [OF assms(1,2,7)] forest_parent_link [OF assms(1,2,7)]
  have Pn: "P a \<noteq> NIL" if "a \<in> set_tree (Node l b rr)" for a
    using forest_parent(2) [OF assms(1,2)] that n(5) by blast
  have set: "set_tree (subst_tree b u (T c)) = insert r (set_tree (T c))"
    if "set_tree u = insert r (set_tree (Node l b rr))" for u
    unfolding subst_tree_sets(1) [OF assms(7) forestD(2) [OF assms(1,2)]] that n(1) using n(5) by blast
  { assume R: "R b = NIL"
    then have rr: "rr = Leaf" using n(3) by (cases rr) auto
    let ?u = "Node l b (Node Leaf r Leaf)" and ?R = "R(b := r)" and ?P = "P(r := b)"
    have "rep L ?R ?P (L b) b l" by (rule rep_frame [OF _ n(2)]) (use n(4,5) nr in auto)
    then have "rep L ?R ?P b (P b) ?u" using assms nr pb by auto
    then have "forest (relink_l b b (P b) L ?R) (relink_r b b (P b) ?R) ?P (T(c := subst_tree b ?u (T c)))"
      by (intro forest_replace [OF assms(1,2,7), where N = "{r}"]) (use n(1,4,5) rr nr Pn assms(3,4) pb in auto)
    moreover have "relink_l b b (P b) L ?R = L" "relink_r b b (P b) ?R = ?R" using pb by (intro relink_same; auto)+
    ultimately show "\<exists>t. forest L ?R ?P (T(c := t)) \<and> set_tree t = insert r (set_tree (T c))"
      using set [of ?u] rr by (intro exI [of _ "subst_tree b ?u (T c)"]) auto }
  { assume L: "L b = NIL"
    then have l: "l = Leaf" using n(2) by (cases l) auto
    let ?u = "Node (Node Leaf r Leaf) b rr" and ?L = "L(b := r)" and ?P = "P(r := b)"
    have "rep ?L R ?P (R b) b rr" by (rule rep_frame [OF _ n(3)]) (use n(4,5) nr in auto)
    then have "rep ?L R ?P b (P b) ?u" using assms nr pb by auto
    then have "forest (relink_l b b (P b) ?L R) (relink_r b b (P b) R) ?P (T(c := subst_tree b ?u (T c)))"
      by (intro forest_replace [OF assms(1,2,7), where N = "{r}"]) (use n(1,4,5) l nr Pn assms(3,4) pb in auto)
    moreover have "relink_l b b (P b) ?L R = ?L" "relink_r b b (P b) R = R" using pb by (intro relink_same; auto)+
    ultimately show "\<exists>t. forest ?L R ?P (T(c := t)) \<and> set_tree t = insert r (set_tree (T c))"
      using set [of ?u] l by (intro exI [of _ "subst_tree b ?u (T c)"]) auto }
qed

lemma forest_swap:
  assumes "forest L R P T" "c < 256" "r < NIL" "r \<notin> nodes T" "q \<in> set_tree (T c)"
  defines "P' \<equiv> P(r := P q, L q := r, R q := r)"
  shows "\<exists>t. forest (relink_l q r (P q) (L(r := L q)) (R(r := R q))) (relink_r q r (P q) (R(r := R q))) (P'(q := NIL)) (T(c := t))
    \<and> set_tree t = insert r (set_tree (T c)) - {q}"
    and "L q \<le> NIL" "R q \<le> NIL" "L q \<noteq> q" "R q \<noteq> q" "L q \<noteq> r" "R q \<noteq> r"
proof -
  obtain l rr where n: "subt q (T c) = Node l q rr" "rep L R P (L q) q l" "rep L R P (R q) q rr"
    "distinct (inorder (Node l q rr))" "set_tree (Node l q rr) \<subseteq> set_tree (T c)" by (rule rep_subt_Node [OF assms(1,2,5)])
  have nr: "r \<notin> set_tree (T c)" using assms(2,4) by (auto simp: nodes_def)
  note pq = forest_parent [OF assms(1,2,5)]
  have Pn: "P a \<noteq> NIL" if "a \<in> set_tree (Node l q rr)" for a
    using forest_parent(2) [OF assms(1,2)] that n(5) by blast
  have lr: "L q \<in> insert NIL (set_tree l)" "R q \<in> insert NIL (set_tree rr)" using rep_root [OF n(2)] rep_root [OF n(3)] by auto
  have lt: "a < NIL" if "a \<in> set_tree (T c)" for a using forest_parent(3) [OF assms(1,2) that] .
  show ne: "L q \<le> NIL" "R q \<le> NIL" "L q \<noteq> q" "R q \<noteq> q" "L q \<noteq> r" "R q \<noteq> r"
    using lr n(4,5) nr less_imp_le [OF lt] less_imp_neq [OF pq(3)] assms(3) by auto
  have nil: "NIL \<notin> set_tree (T c)" using lt [of NIL] by auto
  then have x: "L q \<notin> set_tree rr" "R q \<notin> set_tree l" using lr n(4,5) by auto
  let ?u = "Node l r rr" and ?L = "L(r := L q)" and ?R = "R(r := R q)" and ?P = "P'(q := NIL)"
  have "rep ?L ?R ?P (L q) r l"
    by (rule rep_frame [OF _ rep_reparent [OF n(2), of r]]) (use n(4,5) nr x ne in \<open>auto simp: P'_def\<close>)
  moreover have "rep ?L ?R ?P (R q) r rr"
    by (rule rep_frame [OF _ rep_reparent [OF n(3), of r]]) (use n(4,5) nr x ne in \<open>auto simp: P'_def\<close>)
  ultimately have "rep ?L ?R ?P r (P q) ?u" using assms(3) ne nr assms(5) by (auto simp: P'_def)
  then have "forest (relink_l q r (P q) ?L ?R) (relink_r q r (P q) ?R) ?P (T(c := subst_tree q ?u (T c)))"
  proof (rule forest_replace [OF assms(1,2,5), where N = "{r}", rotated 3])
    fix a assume "a \<in> set_tree (subt q (T c)) \<union> {r}"
    then show "?P a \<noteq> NIL \<longleftrightarrow> a \<in> set_tree ?u" using n(1,4,5) nr Pn [of a] pq assms(3,5) by (auto simp: P'_def)
  next
    fix a assume "a \<notin> set_tree (subt q (T c))" "a \<notin> {r}" "a \<noteq> NIL"
    then show "?L a = L a \<and> ?R a = R a \<and> ?P a = P a" using n(1) lr by (auto simp: P'_def)
  qed (use n(1,4,5) nr assms(3,4) in auto)
  moreover have "set_tree (subst_tree q ?u (T c)) = insert r (set_tree (T c)) - {q}"
    unfolding subst_tree_sets(1) [OF assms(5) forestD(2) [OF assms(1,2)]] n(1) using n(4,5) nr assms(5) by auto
  ultimately show "\<exists>t. forest (relink_l q r (P q) ?L ?R) (relink_r q r (P q) ?R) ?P (T(c := t))
    \<and> set_tree t = insert r (set_tree (T c)) - {q}" by blast
qed

text \<open>
  A node is deleted: the links may first change within its subtree, so that they represent at \<open>y\<close> a
  tree \<open>u\<close> of the other nodes of the subtree.
\<close>

lemma forest_remove:
  assumes "forest L R P T" "c < 256" "q \<in> set_tree (T c)" "subt q (T c) = Node l q rr"
    and frame: "\<And>a. a \<notin> set_tree l \<Longrightarrow> a \<notin> set_tree rr \<Longrightarrow> a \<noteq> NIL \<Longrightarrow> L' a = L a \<and> R' a = R a \<and> P' a = P a"
    and u: "rep L' R' P' y par u" "distinct (inorder u)" "set_tree u = set_tree l \<union> set_tree rr"
  shows "\<exists>t. forest (relink_l q y (P q) L' R') (relink_r q y (P q) R') (P'(y := P q, q := NIL)) (T(c := t))
    \<and> set_tree t = set_tree (T c) - {q}"
proof -
  note t = forestD(2) [OF assms(1,2)]
  have d: "distinct (inorder (Node l q rr))" "set_tree (Node l q rr) \<subseteq> set_tree (T c)"
    using subst_tree_sets(3,4) [OF assms(3) t] assms(4) by metis+
  note pq = forest_parent [OF assms(1-3)]
  have y: "y \<in> insert NIL (set_tree u)" using rep_root [OF u(1)] by auto
  have q: "q \<notin> set_tree u" using u(3) d(1) by auto
  have P: "P' a \<noteq> NIL" if "a \<in> set_tree u" "a \<noteq> y" for a
    using rep_inner_parent [OF u(1) that] rep_nodes [OF u(1), of "P' a"] by auto
  let ?P = "P'(y := P q, q := NIL)"
  have "rep L' R' (P'(y := P q)) y (P q) u" by (rule rep_reparent [OF u(1,2)])
  then have r: "rep L' R' ?P y (P q) u" by (rule rep_frame [rotated]) (use q in auto)
  have "forest (relink_l q y (P q) L' R') (relink_r q y (P q) R') ?P (T(c := subst_tree q u (T c)))"
  proof (rule forest_replace [OF assms(1-3), where N = "{}", rotated 3])
    fix a assume "a \<in> set_tree (subt q (T c)) \<union> {}"
    then show "?P a \<noteq> NIL \<longleftrightarrow> a \<in> set_tree u" using assms(4) u(3) q P [of a] pq by auto
  next
    fix a assume "a \<notin> set_tree (subt q (T c))" "a \<notin> {}" "a \<noteq> NIL"
    then show "L' a = L a \<and> R' a = R a \<and> ?P a = P a" using assms(4) frame [of a] y u(3) by auto
  qed (use r u assms(4) in auto)
  moreover have "set_tree (subst_tree q u (T c)) = set_tree (T c) - {q}"
    unfolding subst_tree_sets(1) [OF assms(3) t] assms(4) u(3) using d by auto
  ultimately show ?thesis by blast
qed

text \<open>The last node of a right spine is taken out, and its left subtree takes its place.\<close>

lemma rep_unlink:
  assumes "rep L R P x par t" "distinct (inorder t)" "m \<in> set_tree t" "m \<noteq> x" "R m = NIL" "R (P m) = m"
  shows "\<exists>t'. rep L (R(P m := L m)) (P(L m := P m)) x par t' \<and> set_tree t' = set_tree t - {m} \<and> distinct (inorder t')"
    and "P m \<in> set_tree t - {m}" "L m \<in> insert NIL (set_tree t - {m})"
proof -
  obtain l r where n: "subt m t = Node l m r" using subt_Node [OF assms(3)] by blast
  have sub: "rep L R P (L m) m l" "rep L R P (R m) m r" using rep_subt [OF assms(1,3)] n by simp_all
  then have r: "r = Leaf" using assms(5) by (cases r) auto
  have d: "distinct (inorder (Node l m r))" "set_tree (Node l m r) \<subseteq> set_tree t"
    using subst_tree_sets(3,4) [OF assms(3,2)] n by metis+
  have lm: "L m \<in> insert NIL (set_tree l)" using rep_root [OF sub(1)] by auto
  have nil: "NIL \<notin> set_tree t" using rep_nodes [OF assms(1), of NIL] by auto
  have "P m \<in> outside m t \<and> rep (relink_l m (L m) (P m) L R) (relink_r m (L m) (P m) R) (P(L m := P m)) x par (subst_tree m l t)"
  proof (rule rep_relink [OF assms(1-3)])
    show "rep L R (P(L m := P m)) (L m) (P m) l" using rep_reparent [OF sub(1)] d(1) by simp
    show "set_tree l \<inter> outside m t = {}" using n by auto
    show "L a = L a \<and> R a = R a \<and> (P(L m := P m)) a = P a" if "a \<in> outside m t" for a
      using that lm n nil by auto
  qed (use assms(4) in simp)
  then have *: "P m \<in> outside m t" "rep L (R(P m := L m)) (P(L m := P m)) x par (subst_tree m l t)"
    using assms(6) by (simp_all add: relink_l_def relink_r_def)
  have set: "set_tree (subst_tree m l t) = set_tree t - {m}"
    unfolding subst_tree_sets(1) [OF assms(3,2)] n r using d r by auto
  have "distinct (inorder (subst_tree m l t))"
    by (rule subst_tree_sets(2) [OF assms(3,2)]) (use d(1) n in auto)
  with *(2) set show "\<exists>t'. rep L (R(P m := L m)) (P(L m := P m)) x par t' \<and> set_tree t' = set_tree t - {m} \<and> distinct (inorder t')"
    by blast
  show "P m \<in> set_tree t - {m}" using *(1) n by auto
  show "L m \<in> insert NIL (set_tree t - {m})" using lm d by auto
qed

text \<open>A node \<open>m\<close> above the trees at its left child and at \<open>b\<close>.\<close>

lemma rep_join:
  assumes "rep L R P (L m) m l" "rep L R P b q r" "distinct (inorder l)" "distinct (inorder r)"
    and "m < NIL" "m \<notin> set_tree l" "m \<notin> set_tree r" "set_tree l \<inter> set_tree r = {}"
  shows "rep L (R(m := b)) (P(b := m)) m (P m) (Node l m r)"
proof -
  have b: "b \<in> insert NIL (set_tree r)" using rep_root [OF assms(2)] by auto
  have "NIL \<notin> set_tree l" using rep_nodes [OF assms(1), of NIL] by auto
  then have "rep L (R(m := b)) (P(b := m)) (L m) m l"
    by (intro rep_frame [OF _ assms(1)]) (use assms(6,8) b in auto)
  moreover have "rep L (R(m := b)) (P(b := m)) b m r"
    by (rule rep_frame [OF _ rep_reparent [OF assms(2,4)]]) (use assms(7) in auto)
  moreover have "b \<noteq> m" using b assms(5,7) by auto
  ultimately show ?thesis using assms(5) by simp
qed

lemma forest_parent_outside:
  assumes "forest L R P T" "c < 256" "q \<in> set_tree (T c)"
  shows "P q \<notin> set_tree (subt q (T c))"
proof (cases "R (root_of c) = q")
  case True
  note t = forestD(1,2) [OF assms(1,2)]
  have "P q = root_of c" using t(1) True assms(3) forest_parent(3) [OF assms] by (cases "T c") auto
  moreover have "a < NIL" if "a \<in> set_tree (subt q (T c))" for a
    using subst_tree_sets(4) [OF assms(3) t(2)] rep_nodes [OF t(1), of a] that by auto
  ultimately show ?thesis by fastforce
next
  case False
  note t = forestD(1,2) [OF assms(1,2)]
  have "P q \<in> outside q (T c)"
    using rep_relink [OF t assms(3) False, of L R P q "subt q (T c)"] rep_subt [OF t(1) assms(3)] by blast
  then show ?thesis by blast
qed

end
