(* ===== verification/Ser_Compress.thy ===== *)
theory Ser_Compress
  imports Boot_Decompress Pointer_Tree
begin

text \<open>
  The compressor of the host, \<open>tools/java/src/patserdow/CompressionOutputStream.java\<close>. An array is a function
  on its indices, and an access outside of the length the source allocates is the exception \<open>None\<close>. The loops
  that follow the tree links are partial functions, so that a cycle would be \<open>None\<close> too. The lemmas show that inserting
  and deleting a string keep the arrays a forest of search trees, end, and raise no exception.
\<close>

section \<open>The compressor\<close>

record lz_enc =
  textBuf :: "nat \<Rightarrow> u8"
  matchPosition :: nat
  matchLength :: nat
  lastMatchLength :: nat
  lchild :: links
  rchild :: links
  parent :: links
  codeBufPtr :: nat
  codeBuf :: "nat \<Rightarrow> u8"
  codeMask :: u8
  currLen :: nat
  currPos :: nat
  killPos :: nat
  writeCount :: nat
  textSize :: u64
  codeSize :: u64
  outStream :: "u8 list"

definition initTree :: "lz_enc \<Rightarrow> lz_enc" where
  "initTree s = s\<lparr>rchild := fold (\<lambda>i f. f(LZ_N + 1 + i := NIL)) [0..<256] (rchild s),
     parent := fold (\<lambda>i f. f(i := NIL)) [0..<LZ_N] (parent s)\<rparr>"

text \<open>The fields of a new object are 0, and so are the elements of its arrays.\<close>

definition new_object :: lz_enc where
  "new_object = \<lparr>textBuf = (\<lambda>_. 0), matchPosition = 0, matchLength = 0, lastMatchLength = 0,
     lchild = (\<lambda>_. 0), rchild = (\<lambda>_. 0), parent = (\<lambda>_. 0), codeBufPtr = 0, codeBuf = (\<lambda>_. 0), codeMask = 0,
     currLen = 0, currPos = 0, killPos = 0, writeCount = 0, textSize = 0, codeSize = 0, outStream = []\<rparr>"

definition compressionOutputStream :: lz_enc where
  "compressionOutputStream =
     (let s = initTree new_object;
          s = s\<lparr>codeBuf := (codeBuf s)(0 := 0), codeBufPtr := 1, codeMask := 1, currPos := LZ_N - LZ_F, currLen := 0\<rparr>
      in s\<lparr>textBuf := fold (\<lambda>i f. f(i := 0x20)) [0..<currPos s] (textBuf s), killPos := 0\<rparr>)"

text \<open>The comparison loop of \<open>insertNode\<close>: the first index that differs, and the last comparison.\<close>

function compare_from :: "(nat \<Rightarrow> u8) \<Rightarrow> nat \<Rightarrow> nat \<Rightarrow> nat \<Rightarrow> int \<Rightarrow> (nat \<times> int) option" where
  "compare_from b r p i cmp =
     (if i < LZ_F
      then if r + i < LZ_N + LZ_F - 1 \<and> p + i < LZ_N + LZ_F - 1
        then let cmp = sint (b (r + i)) - sint (b (p + i))
             in if cmp \<noteq> 0 then Some (i, cmp) else compare_from b r p (i + 1) cmp
        else None
      else Some (i, cmp))"
  by pat_completeness auto
termination by (relation "measure (\<lambda>(b, r, p, i, cmp). LZ_F - i)") auto

declare compare_from.simps [simp del]

text \<open>The search of \<open>insertNode\<close>: it ends with a new leaf, or at a node with the same string (\<open>Some p\<close>).\<close>

partial_function (option) insert_search :: "nat \<Rightarrow> int \<Rightarrow> nat \<Rightarrow> lz_enc \<Rightarrow> (nat option \<times> lz_enc) option" where
  "insert_search r cmp p s =
     (if (if cmp \<ge> 0 then p \<ge> LZ_N + 257 else p \<ge> LZ_N + 1) then None
      else if cmp \<ge> 0 \<and> rchild s p = NIL
      then Some (None, s\<lparr>rchild := (rchild s)(p := r), parent := (parent s)(r := p)\<rparr>)
      else if cmp < 0 \<and> lchild s p = NIL
      then Some (None, s\<lparr>lchild := (lchild s)(p := r), parent := (parent s)(r := p)\<rparr>)
      else
        let p = (if cmp \<ge> 0 then rchild s p else lchild s p) in
        case compare_from (textBuf s) r p 1 cmp of
          None \<Rightarrow> None
        | Some (i, cmp) \<Rightarrow>
            if i > matchLength s
            then let s = s\<lparr>matchPosition := p, matchLength := i\<rparr>
                 in if matchLength s \<ge> LZ_F then Some (Some p, s) else insert_search r cmp p s
            else insert_search r cmp p s)"

text \<open>\<open>if (rchild[parent[p]] == p) rchild[parent[p]] = q; else lchild[parent[p]] = q;\<close>, then \<open>parent[p] = NIL\<close>.\<close>

definition relink :: "nat \<Rightarrow> nat \<Rightarrow> lz_enc \<Rightarrow> lz_enc option" where
  "relink p q s =
     (if parent s p \<ge> LZ_N + 257 \<or> rchild s (parent s p) \<noteq> p \<and> parent s p \<ge> LZ_N + 1 then None
      else let s = (if rchild s (parent s p) = p then s\<lparr>rchild := (rchild s)(parent s p := q)\<rparr>
                    else s\<lparr>lchild := (lchild s)(parent s p := q)\<rparr>)
           in Some (s\<lparr>parent := (parent s)(p := NIL)\<rparr>))"

definition insertNode :: "nat \<Rightarrow> lz_enc \<Rightarrow> lz_enc option" where
  "insertNode r s =
     (if r \<ge> LZ_N + 1 then None
      else do {
        let p = LZ_N + 1 + unat (textBuf s r);
        let s = s\<lparr>rchild := (rchild s)(r := NIL), lchild := (lchild s)(r := NIL), matchLength := 0\<rparr>;
        (m, s) \<leftarrow> insert_search r 1 p s;
        case m of
          None \<Rightarrow> Some s
        | Some p \<Rightarrow>
            if p \<ge> LZ_N + 1 \<or> lchild s p \<ge> LZ_N + 1 \<or> rchild s p \<ge> LZ_N + 1 then None
            else do {
              let s = s\<lparr>parent := (parent s)(r := parent s p)\<rparr>;
              let s = s\<lparr>lchild := (lchild s)(r := lchild s p)\<rparr>;
              let s = s\<lparr>rchild := (rchild s)(r := rchild s p)\<rparr>;
              let s = s\<lparr>parent := (parent s)(lchild s p := r)\<rparr>;
              let s = s\<lparr>parent := (parent s)(rchild s p := r)\<rparr>;
              relink p r s
            }
      })"

text \<open>\<open>do q = rchild[q]; while (rchild[q] != NIL);\<close>\<close>

partial_function (option) rightmost :: "links \<Rightarrow> nat \<Rightarrow> nat option" where
  "rightmost R q =
     (if q \<ge> LZ_N + 257 then None
      else let q = R q in
        if q \<ge> LZ_N + 257 then None
        else if R q \<noteq> NIL then rightmost R q else Some q)"

text \<open>The part of \<open>deleteNode\<close> that chooses the node \<open>q\<close> which takes the place of \<open>p\<close>.\<close>

definition delete_choose :: "nat \<Rightarrow> lz_enc \<Rightarrow> (nat \<times> lz_enc) option" where
  "delete_choose p s =
     (if rchild s p = NIL then Some (lchild s p, s)
      else if lchild s p = NIL then Some (rchild s p, s)
      else do {
        let q = lchild s p;
        (q, s) \<leftarrow>
          (if q \<ge> LZ_N + 257 then None
           else if rchild s q \<noteq> NIL then do {
             q \<leftarrow> rightmost (rchild s) q;
             if q \<ge> LZ_N + 1 \<or> parent s q \<ge> LZ_N + 257 \<or> lchild s q \<ge> LZ_N + 1 \<or> lchild s p \<ge> LZ_N + 1 then None
             else do {
               let s = s\<lparr>rchild := (rchild s)(parent s q := lchild s q)\<rparr>;
               let s = s\<lparr>parent := (parent s)(lchild s q := parent s q)\<rparr>;
               let s = s\<lparr>lchild := (lchild s)(q := lchild s p)\<rparr>;
               Some (q, s\<lparr>parent := (parent s)(lchild s p := q)\<rparr>)
             }
           }
           else Some (q, s));
        if q \<ge> LZ_N + 257 \<or> rchild s p \<ge> LZ_N + 1 then None
        else do {
          let s = s\<lparr>rchild := (rchild s)(q := rchild s p)\<rparr>;
          Some (q, s\<lparr>parent := (parent s)(rchild s p := q)\<rparr>)
        }
      })"

definition deleteNode :: "nat \<Rightarrow> lz_enc \<Rightarrow> lz_enc option" where
  "deleteNode p s =
     (if p \<ge> LZ_N + 1 then None
      else if parent s p = NIL then Some s
      else do {
        (q, s) \<leftarrow> delete_choose p s;
        if q \<ge> LZ_N + 1 then None
        else relink p q (s\<lparr>parent := (parent s)(q := parent s p)\<rparr>)
      })"

definition flushBuffer :: "lz_enc \<Rightarrow> lz_enc" where
  "flushBuffer s =
     (if codeBufPtr s > 1
      then s\<lparr>outStream := outStream s @ map (codeBuf s) [0..<codeBufPtr s], codeSize := codeSize s + of_nat (codeBufPtr s),
         codeBuf := (codeBuf s)(0 := 0), codeBufPtr := 1, codeMask := 1\<rparr>
      else s)"

text \<open>\<open>codeBuf[codeBufPtr++] = b\<close>.\<close>

definition put_code :: "u8 \<Rightarrow> lz_enc \<Rightarrow> lz_enc option" where
  "put_code b s =
     (if codeBufPtr s < 17
      then Some (s\<lparr>codeBuf := (codeBuf s)(codeBufPtr s := b), codeBufPtr := codeBufPtr s + 1\<rparr>)
      else None)"

definition encode :: "lz_enc \<Rightarrow> lz_enc option" where
  "encode s =
     (if currLen s = 0 then Some s
      else do {
        let s = (if matchLength s > currLen s then s\<lparr>matchLength := currLen s\<rparr> else s);
        s \<leftarrow> (if matchLength s \<le> LZ_THRESHOLD
               then if currPos s < LZ_N + LZ_F - 1
                 then let s = s\<lparr>matchLength := 1, codeBuf := (codeBuf s)(0 := codeBuf s 0 OR codeMask s)\<rparr>
                      in put_code (textBuf s (currPos s)) s
                 else None
               else do {
                 s \<leftarrow> put_code (of_nat (matchPosition s)) s;
                 put_code (of_nat ((drop_bit 2 (matchPosition s) AND 0xC0) OR (matchLength s - 3))) s
               });
        let s = s\<lparr>codeMask := push_bit 1 (codeMask s)\<rparr>;
        let s = (if codeMask s = 0 then flushBuffer s else s);
        Some (s\<lparr>lastMatchLength := matchLength s\<rparr>)
      })"

text \<open>The loop over the first strings: \<open>insertNode(currPos - i)\<close> for \<open>i\<close> from 1 to \<open>F\<close>.\<close>

fun insert_before :: "nat list \<Rightarrow> lz_enc \<Rightarrow> lz_enc option" where
  "insert_before [] s = Some s"
| "insert_before (i # is) s =
     (if currPos s < i then None else do { s \<leftarrow> insertNode (currPos s - i) s; insert_before is s })"

definition advance :: "lz_enc \<Rightarrow> lz_enc" where
  "advance s = s\<lparr>killPos := (killPos s + 1) AND (LZ_N - 1), currPos := (currPos s + 1) AND (LZ_N - 1)\<rparr>"

definition lz_write :: "u8 \<Rightarrow> lz_enc \<Rightarrow> lz_enc option" where
  "lz_write b s =
     (let s = s\<lparr>textSize := textSize s + 1\<rparr> in
      if currLen s < LZ_F
      then if currPos s + currLen s < LZ_N + LZ_F - 1
        then let s = s\<lparr>textBuf := (textBuf s)(currPos s + currLen s := b), currLen := currLen s + 1\<rparr>
             in if currLen s = LZ_F
                then do { s \<leftarrow> insert_before [1..<LZ_F + 1] s; s \<leftarrow> insertNode (currPos s) s; encode s }
                else Some s
        else None
      else do {
        s \<leftarrow> deleteNode (killPos s) s;
        if killPos s < LZ_N + LZ_F - 1
        then do {
          let s = s\<lparr>textBuf := (textBuf s)(killPos s := b)\<rparr>;
          let s = (if killPos s < LZ_F - 1 then s\<lparr>textBuf := (textBuf s)(killPos s + LZ_N := b)\<rparr> else s);
          let s = advance s;
          s \<leftarrow> insertNode (currPos s) s;
          let s = s\<lparr>writeCount := writeCount s + 1\<rparr>;
          if writeCount s = lastMatchLength s
          then do { s \<leftarrow> encode s; Some (s\<lparr>writeCount := 0\<rparr>) }
          else Some s
        }
        else None
      })"

fun lz_writes :: "u8 list \<Rightarrow> lz_enc \<Rightarrow> lz_enc option" where
  "lz_writes [] s = Some s"
| "lz_writes (b # bs) s = do { s \<leftarrow> lz_write b s; lz_writes bs s }"

text \<open>The two loops of \<open>finish\<close>; \<open>currLen\<close> cannot become negative here, so a natural number is enough.\<close>

partial_function (option) finish_shift :: "lz_enc \<Rightarrow> lz_enc option" where
  "finish_shift s =
     (let more = writeCount s < lastMatchLength s; s = s\<lparr>writeCount := writeCount s + 1\<rparr> in
      if more
      then if currLen s = 0 then None
        else do {
          s \<leftarrow> deleteNode (killPos s) s;
          let s = advance s;
          let s = s\<lparr>currLen := currLen s - 1\<rparr>;
          s \<leftarrow> (if currLen s > 0 then insertNode (currPos s) s else Some s);
          finish_shift s
        }
      else Some s)"

partial_function (option) finish_codes :: "lz_enc \<Rightarrow> lz_enc option" where
  "finish_codes s =
     (if currLen s > 0
      then do { s \<leftarrow> finish_shift s; s \<leftarrow> encode s; finish_codes (s\<lparr>writeCount := 0\<rparr>) }
      else Some s)"

definition lz_finish :: "lz_enc \<Rightarrow> lz_enc option" where
  "lz_finish s = do { s \<leftarrow> finish_codes s; Some (flushBuffer s) }"

text \<open>What the line gets when a text is written to a new stream and the stream is finished.\<close>

definition compress :: "u8 list \<Rightarrow> u8 list option" where
  "compress bs = do { s \<leftarrow> lz_writes bs compressionOutputStream; s \<leftarrow> lz_finish s; Some (outStream s) }"

section \<open>The search trees\<close>

abbreviation trees :: "lz_enc \<Rightarrow> (nat \<Rightarrow> nat tree) \<Rightarrow> bool" where
  "trees s T \<equiv> forest (lchild s) (rchild s) (parent s) T"

lemma relink_eq:
  assumes "parent s p < 1281" "rchild s (parent s p) \<noteq> p \<Longrightarrow> parent s p < NIL"
  shows "relink p q s = Some (s\<lparr>lchild := relink_l p q (parent s p) (lchild s) (rchild s),
     rchild := relink_r p q (parent s p) (rchild s), parent := (parent s)(p := NIL)\<rparr>)"
  using assms by (cases s) (auto simp: relink_def relink_l_def relink_r_def)

lemma rightmost_spine:
  assumes "rep L R P x par (Node l x r)" "r \<noteq> Leaf"
  shows "\<exists>m\<in>set_tree r. rightmost R x = Some m \<and> R m = NIL \<and> R (P m) = m"
  using assms
proof (induction r arbitrary: x par l)
  case (Node rl a rr)
  have x: "x < NIL" "R x = a" "a < NIL" "P a = x" "rep L R P a x (Node rl a rr)" "rep L R P (R a) a rr" using Node.prems by auto
  show ?case
  proof (cases "rr = Leaf")
    case True
    then show ?thesis using x by (subst rightmost.simps) auto
  next
    case False
    then have "R a \<noteq> NIL" using x(6) by (cases rr) auto
    then have "rightmost R x = rightmost R a" using x by (subst rightmost.simps) auto
    then show ?thesis using Node.IH(2) [OF x(5) False] by auto
  qed
qed simp

definition unchanged_off :: "nat set \<Rightarrow> lz_enc \<Rightarrow> links \<Rightarrow> links \<Rightarrow> links \<Rightarrow> bool" where
  "unchanged_off A s L R P \<longleftrightarrow> (\<forall>a. a \<notin> A \<longrightarrow> a \<noteq> NIL \<longrightarrow> L a = lchild s a \<and> R a = rchild s a \<and> P a = parent s a)"

text \<open>Two children: the last node of the right spine of the left subtree takes the place of \<open>p\<close>.\<close>

lemma delete_choose_two:
  assumes "rep (lchild s) (rchild s) (parent s) p par (Node l p r)" "distinct (inorder (Node l p r))" "l \<noteq> Leaf" "r \<noteq> Leaf"
  shows "\<exists>m L R P u x. delete_choose p s = Some (m, s\<lparr>lchild := L, rchild := R, parent := P\<rparr>)
    \<and> unchanged_off (set_tree l \<union> set_tree r) s L R P
    \<and> rep L R P m x u \<and> distinct (inorder u) \<and> set_tree u = set_tree l \<union> set_tree r"
proof -
  let ?L = "lchild s" and ?R = "rchild s" and ?P = "parent s"
  have reps: "rep ?L ?R ?P (?L p) p l" "rep ?L ?R ?P (?R p) p r" "p < NIL" using assms(1) by auto
  obtain ll q lr where l: "l = Node ll q lr" using assms(3) by (cases l) auto
  then have q: "?L p = q" "q < NIL" "?P q = p" "rep ?L ?R ?P (?L q) q ll" "rep ?L ?R ?P (?R q) q lr" using reps(1) by auto
  have p: "p \<notin> set_tree l" "p \<notin> set_tree r" using assms(2) by auto
  have nil: "NIL \<notin> set_tree l" "NIL \<notin> set_tree r" using rep_nodes [OF reps(1), of NIL] rep_nodes [OF reps(2), of NIL] by auto
  have Rp: "?R p \<in> set_tree r" "?R p < NIL"
    using reps(2) assms(4) rep_nodes [OF reps(2), of "?R p"] by (cases r; auto)+
  have d: "distinct (inorder l)" "distinct (inorder r)" "set_tree l \<inter> set_tree r = {}" using assms(2) by auto
  show ?thesis
  proof (cases "lr = Leaf")
    case True
    have "rep ?L (?R(q := ?R p)) (?P(?R p := q)) q (?P q) (Node ll q r)"
      by (rule rep_join [OF q(4) reps(2)]) (use d l q(2) in auto)
    moreover have "?R p \<noteq> q" using Rp(1) d(3) l by auto
    moreover have "delete_choose p s = Some (q, s\<lparr>lchild := ?L, rchild := ?R(q := ?R p), parent := ?P(?R p := q)\<rparr>)"
      using q True Rp p l by (auto simp: delete_choose_def)
    ultimately show ?thesis using True d l Rp(1)
      by (intro exI [of _ q] exI [of _ ?L] exI [of _ "?R(q := ?R p)"] exI [of _ "?P(?R p := q)"] exI [of _ "Node ll q r"]
        exI [of _ "?P q"]) (auto simp: unchanged_off_def)
  next
    case False
    then have Rq: "?R q \<noteq> NIL" using q(5) by (cases lr) auto
    obtain m where m: "m \<in> set_tree lr" "rightmost ?R q = Some m" "?R m = NIL" "?R (?P m) = m"
      using rightmost_spine [of ?L ?R ?P q p ll lr] reps(1) q(1) l False by auto
    have ml: "m \<in> set_tree l" "m \<noteq> q" using m(1) l d(1) by auto
    let ?R1 = "?R(?P m := ?L m)" and ?P1 = "?P(?L m := ?P m)"
    note un = rep_unlink [OF reps(1) d(1) ml(1) _ m(3,4)]
    have "m \<noteq> ?L p" using ml q by simp
    note un = un [OF this]
    obtain l' where l': "rep ?L ?R1 ?P1 q p l'" "set_tree l' = set_tree l - {m}" "distinct (inorder l')" using un(1) q(1) by auto
    let ?L2 = "?L(m := q)" and ?P2 = "?P1(q := m)"
    have l2: "rep ?L2 ?R1 ?P2 (?L2 m) m l'"
      using rep_frame [OF _ rep_reparent [OF l'(1,3), of m], of ?L2 ?R1 ?P2] l'(2) by auto
    have r2: "rep ?L2 ?R1 ?P2 (?R p) p r"
      by (rule rep_frame [OF _ reps(2)]) (use un(2,3) ml d(3) nil l in auto)
    have "rep ?L2 (?R1(m := ?R p)) (?P2(?R p := m)) m (?P2 m) (Node l' m r)"
      by (rule rep_join [OF l2 r2 l'(3) d(2)]) (use l'(2) ml d(3) rep_nodes [OF reps(1) ml(1)] in auto)
    moreover have "distinct (inorder (Node l' m r))" "set_tree (Node l' m r) = set_tree l \<union> set_tree r"
      using d l'(2,3) ml(1) by auto
    moreover have "unchanged_off (set_tree l \<union> set_tree r) s ?L2 (?R1(m := ?R p)) (?P2(?R p := m))"
      unfolding unchanged_off_def using ml(1) un(2,3) Rp(1) l by auto
    moreover have "delete_choose p s = Some (m, s\<lparr>lchild := ?L2, rchild := ?R1(m := ?R p), parent := ?P2(?R p := m)\<rparr>)"
    proof -
      have "?R p \<noteq> m" "?P m \<noteq> p" "m \<noteq> p" using Rp(1) d(3) ml p un(2) by auto
      moreover have "m < NIL" "?P m < NIL" "?L m \<le> NIL"
        using rep_nodes [OF reps(1), of m] rep_nodes [OF reps(1), of "?P m"] rep_nodes [OF reps(1), of "?L m"] ml(1) un(2,3) by auto
      ultimately show ?thesis using q(1,2) Rq m(2) Rp(2) by (simp add: delete_choose_def)
    qed
    ultimately show ?thesis by (intro exI conjI)
  qed
qed

lemma delete_choose_ok:
  assumes "rep (lchild s) (rchild s) (parent s) p par (Node l p r)" "distinct (inorder (Node l p r))"
  shows "\<exists>y L R P u x. delete_choose p s = Some (y, s\<lparr>lchild := L, rchild := R, parent := P\<rparr>)
    \<and> unchanged_off (set_tree l \<union> set_tree r) s L R P
    \<and> rep L R P y x u \<and> distinct (inorder u) \<and> set_tree u = set_tree l \<union> set_tree r"
proof -
  let ?L = "lchild s" and ?R = "rchild s" and ?P = "parent s"
  have reps: "rep ?L ?R ?P (?L p) p l" "rep ?L ?R ?P (?R p) p r" using assms(1) by auto
  have d: "distinct (inorder l)" "distinct (inorder r)" using assms(2) by auto
  consider "r = Leaf" | "r \<noteq> Leaf" "l = Leaf" | "r \<noteq> Leaf" "l \<noteq> Leaf" by auto
  then show ?thesis
  proof cases
    case 1
    then have "delete_choose p s = Some (?L p, s)" using reps(2) by (simp add: delete_choose_def)
    then show ?thesis using reps(1) d(1) 1
      by (intro exI [of _ "?L p"] exI [of _ ?L] exI [of _ ?R] exI [of _ ?P] exI [of _ l] exI [of _ p]) (simp add: unchanged_off_def)
  next
    case 2
    then have "?R p \<noteq> NIL" "?L p = NIL" using reps by (cases r; auto)+
    then have "delete_choose p s = Some (?R p, s)" by (simp add: delete_choose_def)
    then show ?thesis using reps(2) d(2) 2
      by (intro exI [of _ "?R p"] exI [of _ ?L] exI [of _ ?R] exI [of _ ?P] exI [of _ r] exI [of _ p]) (simp add: unchanged_off_def)
  next
    case 3
    then show ?thesis using delete_choose_two [OF assms] by blast
  qed
qed

lemma deleteNode_ok:
  assumes "trees s T" "p < NIL"
  shows "\<exists>L R P T'. deleteNode p s = Some (s\<lparr>lchild := L, rchild := R, parent := P\<rparr>) \<and> forest L R P T'
    \<and> (\<forall>c<256. set_tree (T' c) \<subseteq> set_tree (T c) - {p})"
proof (cases "parent s p = NIL")
  case True
  then have "p \<notin> nodes T" using forestD(4) [OF assms] by simp
  then show ?thesis using True assms by (intro exI [of _ "lchild s"] exI [of _ "rchild s"] exI [of _ "parent s"] exI [of _ T])
    (auto simp: deleteNode_def nodes_def)
next
  case False
  then obtain c where c: "c < 256" "p \<in> set_tree (T c)" using forestD(4) [OF assms] by (auto simp: nodes_def)
  obtain l r where n: "subt p (T c) = Node l p r" "rep (lchild s) (rchild s) (parent s) (lchild s p) p l"
    "rep (lchild s) (rchild s) (parent s) (rchild s p) p r" "distinct (inorder (Node l p r))" "set_tree (Node l p r) \<subseteq> set_tree (T c)"
    by (rule rep_subt_Node [OF assms(1) c])
  have "rep (lchild s) (rchild s) (parent s) p (parent s p) (Node l p r)" using n assms(2) by simp
  from delete_choose_ok [OF this n(4)] obtain y L R P u x where
    y: "delete_choose p s = Some (y, s\<lparr>lchild := L, rchild := R, parent := P\<rparr>)"
    and un: "unchanged_off (set_tree l \<union> set_tree r) s L R P"
    and u: "rep L R P y x u" "distinct (inorder u)" "set_tree u = set_tree l \<union> set_tree r" by (elim exE conjE)
  have fr: "L a = lchild s a \<and> R a = rchild s a \<and> P a = parent s a" if "a \<notin> set_tree l" "a \<notin> set_tree r" "a \<noteq> NIL" for a
    using un that by (simp add: unchanged_off_def)
  note pp = forest_parent [OF assms(1) c]
  have p: "p \<notin> set_tree l" "p \<notin> set_tree r" using n(4) by auto
  have yn: "y \<in> insert NIL (set_tree u)" using rep_root [OF u(1)] by auto
  have pu: "p \<notin> set_tree u" using u(3) p by simp
  then have y2: "y \<le> NIL" "y \<noteq> p" using yn rep_nodes [OF u(1), of y] assms(2) by (elim insertE; simp; blast)+
  have P: "P p = parent s p" using fr [of p] p assms(2) by simp
  let ?P = "P(y := parent s p)"
  obtain t where t: "forest (relink_l p y (parent s p) L R) (relink_r p y (parent s p) R) (?P(p := NIL)) (T(c := t))"
    "set_tree t = set_tree (T c) - {p}" using forest_remove [OF assms(1) c n(1) fr u] by blast
  have out: "parent s p \<notin> set_tree (Node l p r)" using forest_parent_outside [OF assms(1) c] n(1) by simp
  then have Rp: "R (parent s p) = rchild s (parent s p)" using fr [of "parent s p"] pp(2) by simp
  have "deleteNode p s = relink p y (s\<lparr>lchild := L, rchild := R, parent := ?P\<rparr>)"
    using False y y2 P assms(2) by (simp add: deleteNode_def)
  also have "\<dots> = Some (s\<lparr>lchild := relink_l p y (parent s p) L R, rchild := relink_r p y (parent s p) R, parent := ?P(p := NIL)\<rparr>)"
    using relink_eq [of "s\<lparr>lchild := L, rchild := R, parent := ?P\<rparr>" p y] pp(4,5) y2(2) Rp P by simp
  finally have del: "deleteNode p s = \<dots>" .
  have "set_tree ((T(c := t)) d) \<subseteq> set_tree (T d) - {p}" if "d < 256" for d
    using t(2) forestD(3) [OF assms(1) c(1) that] c(2) by (cases "d = c") auto
  with del t(1) show ?thesis by blast
qed

section \<open>Inserting a string\<close>

lemma compare_ok:
  assumes "r < 1024" "p < 1024" "j \<le> 66"
  shows "\<exists>i c. compare_from b r p j cmp = Some (i, c) \<and> j \<le> i \<and> i \<le> 66 \<and> (\<forall>k. j \<le> k \<longrightarrow> k < i \<longrightarrow> b (p + k) = b (r + k))"
  using assms
proof (induction b r p j cmp rule: compare_from.induct)
  case (1 b r p i cmp)
  show ?case
  proof (cases "i < 66 \<and> b (r + i) = b (p + i)")
    case True
    then obtain i' c where i': "compare_from b r p (i + 1) 0 = Some (i', c)" "i + 1 \<le> i'" "i' \<le> 66"
      "\<forall>k. i + 1 \<le> k \<longrightarrow> k < i' \<longrightarrow> b (p + k) = b (r + k)"
      using 1(1) [of 0] 1(2-) by auto
    then have "b (p + k) = b (r + k)" if "i \<le> k" "k < i'" for k using that True by (cases "k = i") auto
    then show ?thesis using True i' 1(2-) by (subst compare_from.simps) auto
  next
    case False
    then show ?thesis using 1(2-) by (subst compare_from.simps) (auto simp: Let_def dest: signed_word_eqI)
  qed
qed

text \<open>A match of length \<open>l\<close> at a node of \<open>M\<close>; the first byte is the same because the nodes are of the same tree.\<close>

definition match_at :: "(nat \<Rightarrow> u8) \<Rightarrow> nat \<Rightarrow> nat set \<Rightarrow> nat \<Rightarrow> nat \<Rightarrow> bool" where
  "match_at b r M p l \<longleftrightarrow> l \<le> LZ_F \<and> (l = 0 \<or> p \<in> M \<and> (\<forall>k. 1 \<le> k \<longrightarrow> k < l \<longrightarrow> b (p + k) = b (r + k)))"

abbreviation matched :: "nat \<Rightarrow> nat \<Rightarrow> lz_enc \<Rightarrow> lz_enc" where
  "matched p l s \<equiv> s\<lparr>matchPosition := p, matchLength := l\<rparr>"

definition search_result :: "nat \<Rightarrow> nat set \<Rightarrow> nat set \<Rightarrow> lz_enc \<Rightarrow> nat option \<times> lz_enc \<Rightarrow> bool" where
  "search_result r M B s res \<longleftrightarrow> (\<exists>p l. match_at (textBuf s) r M p l \<and>
     ((\<exists>q\<in>M. res = (Some q, matched p l s))
    \<or> (\<exists>b\<in>B. rchild s b = NIL \<and> res = (None, matched p l s\<lparr>rchild := (rchild s)(b := r), parent := (parent s)(r := b)\<rparr>))
    \<or> (\<exists>b\<in>B. b < NIL \<and> lchild s b = NIL \<and> res = (None, matched p l s\<lparr>lchild := (lchild s)(b := r), parent := (parent s)(r := b)\<rparr>))))"

lemma search_result_matched:
  "search_result r M B (matched p l s) res = search_result r M B s res"
  by (simp add: search_result_def)

lemma search_result_mono: "search_result r M B s res \<Longrightarrow> B \<subseteq> B' \<Longrightarrow> search_result r M B' s res"
  unfolding search_result_def by blast

lemma insert_search_ok:
  assumes "rep (lchild s) (rchild s) (parent s) x y t" "r < NIL" "set_tree t \<subseteq> M"
    and "if cmp \<ge> 0 then x = rchild s p \<and> p < 1281 else x = lchild s p \<and> p < NIL"
    and "match_at (textBuf s) r M (matchPosition s) (matchLength s)"
  shows "\<exists>res. insert_search r cmp p s = Some res \<and> search_result r M (insert p (set_tree t)) s res"
  using assms
proof (induction t arbitrary: x y p cmp s)
  case Leaf
  have "matched (matchPosition s) (matchLength s) s = s" by simp
  then show ?case using Leaf by (subst insert_search.simps) (force simp: search_result_def split: if_splits)
next
  case (Node tl a tr)
  have a: "x = a" "a < NIL" "rep (lchild s) (rchild s) (parent s) (lchild s a) a tl" "rep (lchild s) (rchild s) (parent s) (rchild s a) a tr"
    "a \<in> M" using Node.prems(1,3) by auto
  obtain i c where i: "compare_from (textBuf s) r a 1 cmp = Some (i, c)" "1 \<le> i" "i \<le> 66"
    "\<forall>k. 1 \<le> k \<longrightarrow> k < i \<longrightarrow> textBuf s (a + k) = textBuf s (r + k)"
    using compare_ok [of r a 1 "textBuf s" cmp] Node.prems(2) a(2) by auto
  define s' where "s' = (if i > matchLength s then matched a i s else s)"
  have step: "insert_search r cmp p s = (if i > matchLength s \<and> i \<ge> 66 then Some (Some a, s') else insert_search r c a s')"
    using Node.prems(4) a(1,2) i(1) by (subst insert_search.simps) (auto simp: s'_def Let_def)
  define mp ml where "mp = (if i > matchLength s then a else matchPosition s)" and "ml = max i (matchLength s)"
  have s': "s' = matched mp ml s" by (simp add: s'_def mp_def ml_def)
  have m: "match_at (textBuf s) r M mp ml"
    using Node.prems(5) i a(5) by (auto simp: mp_def ml_def match_at_def)
  show ?case
  proof (cases "i > matchLength s \<and> i \<ge> 66")
    case True
    have "search_result r M (insert p (set_tree (Node tl a tr))) s (Some a, s')"
      unfolding search_result_def s' using m a(5) by (intro exI [of _ mp] exI [of _ ml]) simp
    then show ?thesis using step True by simp
  next
    case False
    have links: "lchild s' = lchild s" "rchild s' = rchild s" "parent s' = parent s" "textBuf s' = textBuf s"
      "matchPosition s' = mp" "matchLength s' = ml" by (simp_all add: s')
    have sub: "set_tree tl \<subseteq> M" "set_tree tr \<subseteq> M" using Node.prems(3) by auto
    have "\<exists>res. insert_search r c a s' = Some res \<and> search_result r M (insert p (set_tree (Node tl a tr))) s' res"
    proof (cases "c \<ge> 0")
      case True
      have "\<exists>res. insert_search r c a s' = Some res \<and> search_result r M (insert a (set_tree tr)) s' res"
        by (rule Node.IH(2) [where x = "rchild s a" and y = a]) (use links a sub Node.prems(2) m True in simp_all)
      then show ?thesis by (elim exE conjE) (intro exI conjI, assumption, erule search_result_mono, auto)
    next
      case c: False
      have "\<exists>res. insert_search r c a s' = Some res \<and> search_result r M (insert a (set_tree tl)) s' res"
        by (rule Node.IH(1) [where x = "lchild s a" and y = a]) (use links a sub Node.prems(2) m c in simp_all)
      then show ?thesis by (elim exE conjE) (intro exI conjI, assumption, erule search_result_mono, auto)
    qed
    then show ?thesis unfolding s' search_result_matched using step [unfolded s'] False by simp
  qed
qed

text \<open>The links of a node in no tree may change.\<close>

lemma forest_clear:
  assumes "forest L R P T" "r < NIL" "r \<notin> nodes T"
  shows "forest (L(r := x)) (R(r := y)) P T"
  unfolding forest_def
proof (intro conjI allI impI)
  fix d assume d: "d < (256 :: nat)"
  have "rep (L(r := x)) (R(r := y)) P (R (root_of d)) (root_of d) (T d)"
    by (rule rep_frame [OF _ forestD(1) [OF assms(1) d]]) (use assms(3) d in \<open>auto simp: nodes_def\<close>)
  then show "rep (L(r := x)) (R(r := y)) P ((R(r := y)) (root_of d)) (root_of d) (T d)" using assms(2) by simp
qed (use forestD [OF assms(1)] in auto)

text \<open>\<open>insertNode\<close> after its search: with a leaf it is done, else the node \<open>q\<close> found is replaced.\<close>

abbreviation node_cleared :: "nat \<Rightarrow> lz_enc \<Rightarrow> lz_enc" where
  "node_cleared r s \<equiv> s\<lparr>rchild := (rchild s)(r := NIL), lchild := (lchild s)(r := NIL), matchLength := 0\<rparr>"

lemma insertNode_leaf:
  assumes "r < NIL" "insert_search r 1 (root_of (unat (textBuf s r))) (node_cleared r s) = Some (None, s')"
  shows "insertNode r s = Some s'"
  using assms by (simp add: insertNode_def Let_def)

lemma insertNode_swap:
  assumes "r < NIL" "insert_search r 1 (root_of (unat (textBuf s r))) (node_cleared r s) = Some (Some q, s')"
    and "trees s' T" "c < 256" "q \<in> set_tree (T c)" "r \<notin> nodes T"
  shows "\<exists>L R P t. insertNode r s = Some (s'\<lparr>lchild := L, rchild := R, parent := P\<rparr>) \<and> forest L R P (T(c := t))
    \<and> set_tree t \<subseteq> insert r (set_tree (T c))"
proof -
  let ?P = "parent s'" and ?L = "lchild s'" and ?R = "rchild s'"
  note sw = forest_swap [OF assms(3,4,1,6,5)] and pq = forest_parent [OF assms(3-5)]
  let ?L' = "?L(r := ?L q)" and ?R' = "?R(r := ?R q)" and ?P' = "?P(r := ?P q, ?L q := r, ?R q := r)"
  have nr: "r \<notin> set_tree (T c)" using assms(4,6) by (auto simp: nodes_def)
  have qr: "q \<noteq> r" using nr assms(5) by auto
  have Pr: "?P q \<noteq> r"
    using rep_parent [OF forestD(1) [OF assms(3,4)] assms(5)] nr assms(1) by auto
  obtain t where t: "forest (relink_l q r (?P q) ?L' ?R') (relink_r q r (?P q) ?R') (?P'(q := NIL)) (T(c := t))"
    "set_tree t = insert r (set_tree (T c)) - {q}" using sw(1) by blast
  let ?s2 = "s'\<lparr>lchild := ?L', rchild := ?R', parent := ?P'\<rparr>"
  have "insertNode r s = relink q r ?s2"
    using assms(1,2) pq(3) sw(2-) qr by (simp add: insertNode_def Let_def)
  also have "\<dots> = Some (s'\<lparr>lchild := relink_l q r (?P q) ?L' ?R', rchild := relink_r q r (?P q) ?R', parent := ?P'(q := NIL)\<rparr>)"
    using relink_eq [of ?s2 q r] pq qr Pr sw(4,5) by simp
  finally have "insertNode r s = \<dots>" .
  moreover have "set_tree t \<subseteq> insert r (set_tree (T c))" using t(2) by auto
  ultimately show ?thesis using t(1) by blast
qed

lemma insertNode_ok:
  assumes "trees s T" "r < NIL" "r \<notin> nodes T"
  defines "c \<equiv> unat (textBuf s r)"
  shows "\<exists>p l L R P t. insertNode r s = Some (matched p l s\<lparr>lchild := L, rchild := R, parent := P\<rparr>) \<and> forest L R P (T(c := t))
    \<and> set_tree t \<subseteq> insert r (set_tree (T c)) \<and> match_at (textBuf s) r (set_tree (T c)) p l"
proof -
  have c: "c < 256" unfolding c_def using unsigned_less [where 'a = nat, of "textBuf s r"] by simp
  define L R where "L = (lchild s)(r := NIL)" and "R = (rchild s)(r := NIL)"
  let ?M = "set_tree (T c)" and ?P = "parent s"
  define s0 where "s0 = node_cleared r s"
  have s0: "lchild s0 = L" "rchild s0 = R" "parent s0 = ?P" "textBuf s0 = textBuf s" "matchLength s0 = 0" by (simp_all add: s0_def L_def R_def)
  have F: "forest L R ?P T" unfolding L_def R_def by (rule forest_clear [OF assms(1-3)])
  have r0: "L r = NIL" "R r = NIL" by (simp_all add: L_def R_def)
  have "\<exists>res. insert_search r 1 (root_of c) s0 = Some res \<and> search_result r ?M (insert (root_of c) ?M) s0 res"
    by (rule insert_search_ok [where x = "R (root_of c)" and y = "root_of c"])
      (use forestD(1) [OF F c] c assms(2) in \<open>simp_all add: s0 match_at_def\<close>)
  then obtain m s1 where ms: "insert_search r 1 (root_of c) s0 = Some (m, s1)" "search_result r ?M (insert (root_of c) ?M) s0 (m, s1)"
    by fast
  then obtain p l where res: "insert_search r 1 (root_of c) s0 = Some (m, s1)" "match_at (textBuf s) r ?M p l"
    and cs: "(\<exists>q\<in>?M. m = Some q \<and> s1 = matched p l s0)
      \<or> (\<exists>b\<in>insert (root_of c) ?M. R b = NIL \<and> m = None \<and> s1 = matched p l s0\<lparr>rchild := R(b := r), parent := ?P(r := b)\<rparr>)
      \<or> (\<exists>b\<in>insert (root_of c) ?M. b < NIL \<and> L b = NIL \<and> m = None \<and> s1 = matched p l s0\<lparr>lchild := L(b := r), parent := ?P(r := b)\<rparr>)"
    unfolding search_result_def by (elim exE conjE) (simp add: s0)
  have "\<exists>L R P t. insertNode r s = Some (s1\<lparr>lchild := L, rchild := R, parent := P\<rparr>) \<and> forest L R P (T(c := t))
    \<and> set_tree t \<subseteq> insert r ?M"
    using cs
  proof (elim disjE bexE conjE)
    fix q assume 1: "q \<in> ?M" "m = Some q" "s1 = matched p l s0"
    from 1 show ?thesis using insertNode_swap [OF assms(2) _ _ c 1(1) assms(3)] res(1) F by (simp add: c_def s0 s0_def [symmetric])
  next
    fix b assume 2: "b \<in> insert (root_of c) ?M" "R b = NIL" "m = None"
      "s1 = matched p l s0\<lparr>rchild := R(b := r), parent := ?P(r := b)\<rparr>"
    from 2 have "insertNode r s = Some s1" using insertNode_leaf [OF assms(2)] res(1) by (simp add: c_def s0_def)
    moreover have "\<exists>t. forest L (R(b := r)) (?P(r := b)) (T(c := t)) \<and> set_tree t \<subseteq> insert r ?M"
    proof (cases "b = root_of c")
      case True
      then show ?thesis using forest_leaf_root [OF F c assms(2,3) r0] 2(2) by (intro exI [of _ "Node Leaf r Leaf"]) simp
    next
      case False
      then show ?thesis using forest_leaf(1) [OF F c assms(2,3) r0 _ 2(2)] 2(1) by auto
    qed
    ultimately show ?thesis using 2(4)
      by (elim exE) (rule exI [of _ L], rule exI [of _ "R(b := r)"], rule exI [of _ "?P(r := b)"], auto simp: s0_def L_def)
  next
    fix b assume 3: "b \<in> insert (root_of c) ?M" "b < NIL" "L b = NIL" "m = None"
      "s1 = matched p l s0\<lparr>lchild := L(b := r), parent := ?P(r := b)\<rparr>"
    then have b: "b \<in> ?M" by auto
    from 3 have "insertNode r s = Some s1" using insertNode_leaf [OF assms(2)] res(1) by (simp add: c_def s0_def)
    moreover have "s1\<lparr>lchild := L(b := r), rchild := R, parent := ?P(r := b)\<rparr> = s1" using 3(5) by (simp add: s0_def R_def)
    moreover obtain t where "forest (L(b := r)) R (?P(r := b)) (T(c := t))" "set_tree t \<subseteq> insert r ?M"
      using forest_leaf(2) [OF F c assms(2,3) r0 b 3(3)] by auto
    ultimately show ?thesis by metis
  qed
  moreover have "s1\<lparr>lchild := L', rchild := R', parent := P'\<rparr> = matched p l s\<lparr>lchild := L', rchild := R', parent := P'\<rparr>" for L' R' P'
    using cs by (auto simp: s0_def)
  ultimately show ?thesis using res(2) by metis
qed

end
