(* ===== verification/Boot_Image.thy ===== *)
theory Boot_Image
  imports Boot_Download
begin

text \<open>
  What the receiver of \<open>download.c\<close> makes of an application image: the byte stream of the header and
  the segments, and the main memory it leaves.
\<close>

section \<open>Words from bytes\<close>

primrec be_from :: "nat \<Rightarrow> u8 list \<Rightarrow> u32" where
  "be_from k [] = 0"
| "be_from k (b # bs) = push_bit k (ucast b) OR be_from (k - 8) bs"

text \<open>The big-endian word that begins with the given bytes; missing ones are zero.\<close>

definition be_word :: "u8 list \<Rightarrow> u32" where
  "be_word bs = be_from 24 bs"

lemma be_from_append: "be_from k (xs @ [b]) = be_from k xs OR push_bit (k - 8 * length xs) (ucast b)"
  by (induction xs arbitrary: k) (simp_all add: or.assoc)

lemma be_word_append: "be_word (xs @ [b]) = be_word xs OR push_bit (24 - 8 * length xs) (ucast b)"
  by (simp add: be_word_def be_from_append)

lemma be_word_Nil [simp]: "be_word [] = 0"
  by (simp add: be_word_def)

lemma be_word_be32: "be_word (be32 w) = w"
  using be32_shift [of w] by (simp add: be_word_def be32_def push_bit_or or.assoc)

text \<open>The amount by which a byte is shifted into its word.\<close>

lemma dl_shift: "j < 2 ^ 32 \<Longrightarrow> unat ((3 - of_nat j mod 4) * 8 :: u32) = 24 - 8 * (j mod 4)"
proof -
  assume "j < 2 ^ 32"
  then have m: "unat (of_nat j mod 4 :: u32) = j mod 4" by (simp add: unat_mod of_nat_u32)
  then have "unat (3 - of_nat j mod 4 :: u32) = 3 - j mod 4"
    by (subst unat_sub) (simp_all add: word_le_nat_alt)
  moreover have "unat d \<le> 3 \<Longrightarrow> unat (d * 8) = unat d * 8" for d :: u32 by (simp add: unat_word_ariths)
  ultimately have "unat ((3 - of_nat j mod 4) * 8 :: u32) = (3 - j mod 4) * 8" by (metis diff_le_self)
  then show ?thesis by simp
qed

section \<open>Header words\<close>

text \<open>Ready for the next header word.\<close>

definition dl_ready :: "dl_section \<Rightarrow> bool" where
  "dl_ready s \<longleftrightarrow> section_byte_count s = 0 \<and> integer s = 0"

lemma dl_header_byte:
  assumes "current_state s \<noteq> STATE_SECTION_DATA" "section_byte_count s = of_nat j" "j < 3"
  shows "dl_payload b s = Some (s\<lparr>integer := integer s OR push_bit (24 - 8 * j) b, section_byte_count := of_nat (Suc j)\<rparr>)"
proof -
  have "unat (of_nat (Suc j) :: u32) = Suc j" using assms(3) by (simp add: of_nat_u32 del: of_nat_Suc)
  then have "of_nat (Suc j) \<noteq> (4 :: u32)" "of_nat (Suc j) mod 4 \<noteq> (0 :: u32)"
    using assms(3) by (auto simp: word_unat_eq_iff unat_mod simp del: of_nat_Suc)
  moreover have "unat ((3 - of_nat j mod 4) * 8 :: u32) = 24 - 8 * j"
    using dl_shift [of j] assms(3) by simp
  ultimately show ?thesis
    using assms(1,2) by (simp add: dl_payload_def Let_def add.commute)
qed

lemma dl_header_part:
  assumes "current_state s \<noteq> STATE_SECTION_DATA" "dl_ready s" "length bs < 4"
  shows "dl_payloads bs s = Some (s\<lparr>integer := be_word bs, section_byte_count := of_nat (length bs)\<rparr>)"
  using assms(3)
proof (induction bs rule: rev_induct)
  case Nil
  then show ?case using assms(2) by (simp add: dl_ready_def)
next
  case (snoc b bs)
  then show ?case
    using assms(1) by (simp add: dl_payloads_append dl_header_byte [of _ "length bs"] be_word_append)
qed

lemma dl_header_word:
  assumes "current_state s \<in> {STATE_ENTRYPOINT, STATE_SECTION_NUMBER, STATE_SECTION_FILESIZE, STATE_SECTION_OFFSET}"
    and "dl_ready s"
  shows "dl_payloads (be32 w) s =
    Some ((dl_field (s\<lparr>integer := w\<rparr>))\<lparr>integer := 0, section_byte_count := 0, current_state := dl_next (current_state s)\<rparr>)"
proof -
  define bs where "bs = [ucast (drop_bit 24 w), ucast (drop_bit 16 w), ucast (drop_bit 8 w) :: u8]"
  have w: "be_word bs OR ucast (ucast w :: u8) = w"
    using be_word_be32 [of w] be_word_append [of bs "ucast w"] by (simp add: bs_def be32_def)
  have "dl_payloads bs s = Some (s\<lparr>integer := be_word bs, section_byte_count := 3\<rparr>)"
    using dl_header_part [OF _ assms(2), of bs] assms(1) by (auto simp: bs_def)
  moreover have "be32 w = bs @ [ucast w]" by (simp add: bs_def be32_def)
  ultimately show ?thesis
    using assms w by (auto simp: dl_payloads_append dl_payload_def dl_field_def dl_ready_def)
qed

section \<open>Segments\<close>

record segment =
  seg_offset :: u32
  seg_memsize :: u32
  seg_data :: "u8 list"

definition seg_bytes :: "segment \<Rightarrow> u8 list" where
  "seg_bytes g = be32 (of_nat (length (seg_data g))) @ be32 (seg_offset g) @ be32 (seg_memsize g) @ seg_data g"

text \<open>A word-aligned segment that fits into the address space.\<close>

definition seg_ok :: "segment \<Rightarrow> bool" where
  "seg_ok g \<longleftrightarrow> unat (seg_offset g) mod 4 = 0
     \<and> unat (seg_offset g) + max (length (seg_data g)) (unat (seg_memsize g)) + 4 \<le> 2 ^ 32"

text \<open>Bytes written as words from the word \<open>base\<close> on, and a whole segment with its cleared rest.\<close>

definition wr_words :: "nat \<Rightarrow> u8 list \<Rightarrow> (nat \<Rightarrow> u32) \<Rightarrow> nat \<Rightarrow> u32" where
  "wr_words base bs m =
     (\<lambda>i. if base \<le> i \<and> i < base + (length bs + 3) div 4 then be_word (take 4 (drop (4 * (i - base)) bs)) else m i)"

definition load_segment :: "segment \<Rightarrow> (nat \<Rightarrow> u32) \<Rightarrow> nat \<Rightarrow> u32" where
  "load_segment g m =
     (let base = unat (seg_offset g) div 4; n = (length (seg_data g) + 3) div 4 in
      (\<lambda>i. if base + n \<le> i \<and> i < base + (unat (seg_memsize g) + 3) div 4 then 0 else wr_words base (seg_data g) m i))"

lemma wr_words_Nil [simp]: "wr_words base [] m = m"
  by (auto simp: wr_words_def fun_eq_iff)

lemma wr_words_append:
  "wr_words base (bs @ [b]) m
     = (wr_words base bs m)(base + length bs div 4 := be_word (drop (4 * (length bs div 4)) bs @ [b]))"
proof
  fix i
  let ?q = "length bs div 4"
  consider "i < base" | "base \<le> i" "i - base < ?q" | "i = base + ?q" | "base + ?q < i" by linarith
  then show "wr_words base (bs @ [b]) m i = ((wr_words base bs m)(base + ?q := be_word (drop (4 * ?q) bs @ [b]))) i"
  proof cases
    case 2
    then have "4 * (i - base) + 4 \<le> length bs" by (simp add: less_eq_div_iff_mult_less_eq Suc_le_eq)
    with 2 show ?thesis by (auto simp: wr_words_def)
  next
    case 3
    have "length (drop (4 * ?q) bs) \<le> 3" by (simp add: minus_mult_div_eq_mod)
    moreover have "?q < (length bs + 1 + 3) div 4" by simp
    ultimately show ?thesis using 3 by (simp add: wr_words_def)
  qed (auto simp: wr_words_def)
qed

lemma zero_fill_ok:
  assumes "unat off mod 4 = 0" "unat off + unat memsize + 4 \<le> 2 ^ 32" "cnt = of_nat (4 * c)" "4 * c \<le> unat memsize + 3"
  shows "zero_fill off cnt memsize m = Some (\<lambda>i. if unat off div 4 + c \<le> i \<and> i < unat off div 4 + (unat memsize + 3) div 4
    then 0 else m i)"
  using assms(3,4)
proof (induction "(unat memsize + 3) div 4 - c" arbitrary: c cnt m)
  case 0
  then have c: "unat memsize \<le> 4 * c" "c = (unat memsize + 3) div 4" by simp_all
  then have "unat cnt = 4 * c" using 0 assms(2) by (simp add: of_nat_u32 del: of_nat_mult)
  then have "\<not> cnt < memsize" using c by (simp add: word_less_nat_alt)
  then show ?case using c by (subst zero_fill.simps) (auto simp: fun_eq_iff)
next
  case (Suc k)
  then have c: "4 * c < unat memsize" by simp
  then have u: "unat cnt = 4 * c" using Suc.prems assms(2) by (simp add: of_nat_u32 del: of_nat_mult)
  then have lt: "cnt < memsize" using c by (simp add: word_less_nat_alt)
  have "unat (off + cnt) = unat off + 4 * c" using u c assms(2) by (simp add: unat_word_ariths)
  then have i: "unat ((off + cnt) div 4) = unat off div 4 + c" by (simp add: unat_div)
  have "zero_fill off (cnt + 4) memsize (m(unat off div 4 + c := 0)) = Some (\<lambda>i. if unat off div 4 + Suc c \<le> i
      \<and> i < unat off div 4 + (unat memsize + 3) div 4 then 0 else (m(unat off div 4 + c := 0)) i)"
    using Suc.hyps(2) Suc.prems c by (intro Suc.hyps(1)) auto
  moreover have "c < (unat memsize + 3) div 4" using c by simp
  ultimately show ?case
    using lt i by (subst zero_fill.simps) (auto simp: fun_eq_iff)
qed

section \<open>The contents of a segment\<close>

text \<open>The state after the bytes \<open>bs\<close> of the contents, short of the end.\<close>

definition dl_in_data :: "dl_section \<Rightarrow> u8 list \<Rightarrow> dl_section" where
  "dl_in_data s bs = s\<lparr>section_byte_count := of_nat (length bs), integer := be_word (drop (4 * (length bs div 4)) bs),
     main_mem := wr_words (unat (section_offset s) div 4) bs (main_mem s)\<rparr>"

text \<open>The state after the whole segment.\<close>

definition dl_done :: "dl_section \<Rightarrow> segment \<Rightarrow> dl_section" where
  "dl_done s g = s\<lparr>section_byte_count := 0, integer := 0, section_count := section_count s + 1,
     current_state := STATE_SECTION_FILESIZE, main_mem := load_segment g (main_mem s)\<rparr>"

lemma zero_fill_segment:
  assumes "seg_ok g" "n = length (seg_data g)"
  shows "zero_fill (seg_offset g) ((of_nat n + 3) AND NOT 3) (seg_memsize g)
      (wr_words (unat (seg_offset g) div 4) (seg_data g) m) = Some (load_segment g m)"
proof -
  let ?c = "(n + 3) div 4" and ?ms = "seg_memsize g" and ?m = "wr_words (unat (seg_offset g) div 4) (seg_data g) m"
  have "n + 3 < 2 ^ 32" using assms by (auto simp: seg_ok_def)
  then have "unat (of_nat n + 3 :: u32) = n + 3"
    using of_nat_u32 [of "n + 3"] by simp
  then have u: "unat ((of_nat n + 3) AND NOT 3 :: u32) = 4 * ?c"
    by (simp only: and_not_3 unat_walign mult.commute)
  then have "4 * ?c < 2 ^ 32" using unat_u32_lt by metis
  with u have cnt: "(of_nat n + 3) AND NOT 3 = (of_nat (4 * ?c) :: u32)"
    by (simp only: word_unat_eq_iff of_nat_u32)
  show ?thesis
  proof (cases "4 * ?c \<le> unat ?ms + 3")
    case True
    have "unat (seg_offset g) mod 4 = 0" "unat (seg_offset g) + unat ?ms + 4 \<le> 2 ^ 32"
      using assms(1) by (auto simp: seg_ok_def)
    from zero_fill_ok [OF this cnt True, of ?m] show ?thesis
      using assms(2) by (simp add: load_segment_def Let_def)
  next
    case False
    then have "\<not> (of_nat n + 3) AND NOT 3 < ?ms" using u by (simp add: word_less_nat_alt)
    moreover have "(unat ?ms + 3) div 4 \<le> ?c" using False by simp
    ultimately show ?thesis
      using assms(2) by (subst zero_fill.simps) (auto simp: load_segment_def Let_def fun_eq_iff)
  qed
qed

lemma dl_data_byte:
  assumes "current_state s = STATE_SECTION_DATA" "section_offset s = seg_offset g" "seg_ok g"
    and "section_filesize s = of_nat (length (seg_data g))" "section_memsize s = seg_memsize g"
    and "seg_data g = bs @ b # cs"
  shows "dl_payload (ucast b) (dl_in_data s bs) = Some (if cs = [] then dl_done s g else dl_in_data s (bs @ [b]))"
proof -
  let ?n = "length bs" and ?o = "seg_offset g"
  have lt: "unat ?o + length (seg_data g) + 4 \<le> 2 ^ 32" "unat ?o mod 4 = 0" using assms(3) by (auto simp: seg_ok_def)
  then have n: "?n < 2 ^ 32" "?n + 1 < 2 ^ 32" "?n + 1 \<le> length (seg_data g)" using assms(6) by simp_all
  have un: "unat (of_nat ?n :: u32) = ?n" "unat (of_nat ?n + 1 :: u32) = ?n + 1"
    using of_nat_u32 [OF n(1)] of_nat_u32 [OF n(2)] by (simp_all add: add.commute)
  have "unat (?o + of_nat ?n :: u32) = unat ?o + ?n" using lt n un by (simp add: unat_word_ariths)
  then have idx: "unat ((?o + (of_nat ?n + 1) - 1) div 4 :: u32) = unat ?o div 4 + ?n div 4"
    using lt(2) by (simp add: unat_div div_add1_eq)
  have md: "?n - 4 * (?n div 4) = ?n mod 4" by (simp add: minus_mult_div_eq_mod)
  have int: "be_word (drop (4 * (?n div 4)) bs) OR push_bit (unat ((3 - of_nat ?n mod 4) * 8 :: u32)) (ucast b)
      = be_word (drop (4 * (?n div 4)) bs @ [b])"
    unfolding dl_shift [OF n(1)] be_word_append by (simp add: md)
  have fin: "of_nat ?n + 1 = (of_nat (length (seg_data g)) :: u32) \<longleftrightarrow> cs = []"
  proof -
    have "unat (of_nat (length (seg_data g)) :: u32) = length (seg_data g)" using lt(1) by (intro of_nat_u32) simp
    then show ?thesis using un(2) assms(6) by (simp add: word_unat_eq_iff)
  qed
  let ?m = "(wr_words (unat ?o div 4) bs (main_mem s))(unat ?o div 4 + ?n div 4 := be_word (drop (4 * (?n div 4)) bs @ [b]))"
  have m: "?m = wr_words (unat ?o div 4) (bs @ [b]) (main_mem s)" by (simp add: wr_words_append)
  show ?thesis
  proof (cases "cs = []")
    case True
    have "zero_fill ?o ((of_nat ?n + 1 + 3) AND NOT 3) (seg_memsize g) ?m = Some (load_segment g (main_mem s))"
      using zero_fill_segment [OF assms(3) refl, of "main_mem s"] fin True assms(6) unfolding m by (simp add: add.commute)
    with True assms fin idx int show ?thesis
      by (simp add: dl_payload_def dl_in_data_def Let_def dl_done_def del: fun_upd_apply)
  next
    case False
    have "(of_nat ?n + 1) mod 4 = (0 :: u32) \<longleftrightarrow> (?n + 1) mod 4 = 0"
      by (simp add: word_unat_eq_iff unat_mod un)
    moreover have "drop (4 * (Suc ?n div 4)) (bs @ [b]) = (if Suc ?n mod 4 = 0 then [] else drop (4 * (?n div 4)) bs @ [b])"
    proof (cases "Suc ?n mod 4 = 0")
      case True
      then have "4 * (Suc ?n div 4) = Suc ?n" by (metis mult_div_mod_eq add.right_neutral)
      with True show ?thesis by simp
    qed (simp add: div_Suc)
    ultimately show ?thesis
      using False assms fin idx int
      by (auto simp: dl_payload_def dl_in_data_def Let_def add.commute wr_words_append)
  qed
qed

lemma dl_data_prefix:
  assumes "current_state s = STATE_SECTION_DATA" "section_offset s = seg_offset g" "seg_ok g"
    and "section_filesize s = of_nat (length (seg_data g))" "section_memsize s = seg_memsize g"
    and "seg_data g = bs @ cs" "cs \<noteq> []" "dl_ready s"
  shows "dl_payloads bs s = Some (dl_in_data s bs)"
  using assms(6,7)
proof (induction bs arbitrary: cs rule: rev_induct)
  case Nil
  then show ?case using assms(8) by (simp add: dl_in_data_def dl_ready_def)
next
  case (snoc b bs)
  then have "dl_payloads bs s = Some (dl_in_data s bs)" by simp
  then show ?case
    using dl_data_byte [OF assms(1-5), of bs b cs] snoc.prems by (simp add: dl_payloads_append)
qed

lemma dl_data:
  assumes "current_state s = STATE_SECTION_DATA" "section_offset s = seg_offset g" "seg_ok g"
    and "section_filesize s = of_nat (length (seg_data g))" "section_memsize s = seg_memsize g"
    and "seg_data g \<noteq> []" "dl_ready s"
  shows "dl_payloads (seg_data g) s = Some (dl_done s g)"
proof -
  obtain bs b where d: "seg_data g = bs @ [b]" using assms(6) by (metis rev_exhaust)
  then show ?thesis
    using dl_data_prefix [OF assms(1-5), of bs "[b]"] dl_data_byte [OF assms(1-5), of bs b "[]"] assms(7)
    by (simp add: dl_payloads_append)
qed

section \<open>A whole segment\<close>

text \<open>The state with the header of a segment read, ready for its contents.\<close>

definition dl_seg :: "dl_section \<Rightarrow> segment \<Rightarrow> dl_section" where
  "dl_seg s g = s\<lparr>section_filesize := of_nat (length (seg_data g)), section_offset := seg_offset g,
     section_memsize := seg_memsize g\<rparr>"

definition dl_at_segment :: "dl_section \<Rightarrow> bool" where
  "dl_at_segment s \<longleftrightarrow> current_state s = STATE_SECTION_FILESIZE \<and> dl_ready s"

definition dl_keeps :: "dl_section \<Rightarrow> dl_section \<Rightarrow> bool" where
  "dl_keeps s s' \<longleftrightarrow> section_count s' = section_count s \<and> section_number s' = section_number s"

lemma dl_seg_two_words:
  assumes "dl_at_segment s"
  shows "dl_payloads (be32 v @ be32 w) s = Some (s\<lparr>section_filesize := v, section_offset := w, current_state := STATE_SECTION_MEMSIZE\<rparr>)"
  using assms dl_header_word [of s v] dl_header_word [of "s\<lparr>section_filesize := v, current_state := STATE_SECTION_OFFSET\<rparr>" w]
  by (cases s) (simp add: dl_payloads_append dl_at_segment_def dl_field_def dl_ready_def)

lemma dl_memsize_word:
  assumes "current_state s = STATE_SECTION_MEMSIZE" "dl_ready s" "seg_ok g"
    and "section_filesize s = of_nat (length (seg_data g))" "section_offset s = seg_offset g"
  shows "dl_payloads (be32 (seg_memsize g)) s = Some (
    let s = s\<lparr>section_memsize := seg_memsize g, current_state := STATE_SECTION_DATA\<rparr>
    in if seg_data g = [] then dl_done s g else s)"
proof -
  let ?w = "seg_memsize g"
  define bs where "bs = [ucast (drop_bit 24 ?w), ucast (drop_bit 16 ?w), ucast (drop_bit 8 ?w) :: u8]"
  have w: "be_word bs OR ucast (ucast ?w :: u8) = ?w"
    using be_word_be32 [of ?w] be_word_append [of bs "ucast ?w"] by (simp add: bs_def be32_def)
  have part: "dl_payloads bs s = Some (s\<lparr>integer := be_word bs, section_byte_count := 3\<rparr>)"
    using dl_header_part [OF _ assms(2), of bs] assms(1) by (auto simp: bs_def)
  have b: "be32 ?w = bs @ [ucast ?w]" by (simp add: bs_def be32_def)
  have "length (seg_data g) < 2 ^ 32" using assms(3) by (auto simp: seg_ok_def)
  then have z: "section_filesize s = 0 \<longleftrightarrow> seg_data g = []"
    using assms(4) of_nat_u32 [of "length (seg_data g)"] by (auto simp: word_unat_eq_iff)
  have "zero_fill (seg_offset g) 0 ?w (main_mem s) = Some (load_segment g (main_mem s))" if "seg_data g = []"
    using zero_fill_segment [OF assms(3) refl, of "main_mem s"] that by simp
  with part assms w z show ?thesis
    by (auto simp: b dl_payloads_append dl_payload_def dl_field_def dl_ready_def Let_def dl_done_def)
qed

lemma dl_segment:
  assumes "dl_at_segment s" "seg_ok g"
  shows "dl_payloads (seg_bytes g) s = Some (dl_done (dl_seg s g) g)"
proof -
  let ?s = "s\<lparr>section_filesize := of_nat (length (seg_data g)), section_offset := seg_offset g, current_state := STATE_SECTION_MEMSIZE\<rparr>"
  let ?d = "?s\<lparr>section_memsize := seg_memsize g, current_state := STATE_SECTION_DATA\<rparr>"
  have "dl_ready ?s" using assms(1) by (simp add: dl_at_segment_def dl_ready_def)
  then have "dl_payloads (be32 (seg_memsize g)) ?s = Some (if seg_data g = [] then dl_done ?d g else ?d)"
    using dl_memsize_word [of ?s g] assms(2) by (simp add: Let_def)
  moreover have "dl_payloads (seg_data g) ?d = Some (dl_done ?d g)" if "seg_data g \<noteq> []"
    using that assms by (intro dl_data) (simp_all add: dl_ready_def dl_at_segment_def)
  moreover have "dl_done ?d g = dl_done (dl_seg s g) g" by (simp add: dl_done_def dl_seg_def)
  ultimately show ?thesis
    using dl_seg_two_words [OF assms(1)]
    by (auto simp: seg_bytes_def dl_payloads_append append_assoc [symmetric] simp del: append_assoc)
qed

lemma dl_at_segment_done: "dl_at_segment (dl_done s g)"
  by (simp add: dl_done_def dl_at_segment_def dl_ready_def)

text \<open>A proper beginning of a segment leaves the number of sections received as it is.\<close>

lemma dl_segment_prefix:
  assumes "dl_at_segment s" "seg_ok g" "seg_bytes g = xs @ ys" "ys \<noteq> []"
  shows "\<exists>s'. dl_payloads xs s = Some s' \<and> dl_keeps s s'"
proof -
  define v w z where "v = of_nat (length (seg_data g)) + (0 :: u32)" and "w = seg_offset g" and "z = seg_memsize g"
  let ?d = "(dl_seg s g)\<lparr>current_state := STATE_SECTION_DATA\<rparr>"
  let ?m = "s\<lparr>section_filesize := v, section_offset := w, current_state := STATE_SECTION_MEMSIZE\<rparr>"
  let ?h = "be32 v @ be32 w @ be32 z"
  have sb: "seg_bytes g = ?h @ seg_data g" by (simp add: seg_bytes_def v_def w_def z_def)
  have len: "length (be32 x) = 4" for x by (simp add: be32_def)
  have xs: "xs = take (length xs) (?h @ seg_data g)" using assms(3) sb by simp
  have rdy: "dl_ready ?m" "dl_ready s" "current_state s = STATE_SECTION_FILESIZE"
    using assms(1) by (simp_all add: dl_at_segment_def dl_ready_def)
  consider "length xs < 4" | "4 \<le> length xs" "length xs < 8" | "8 \<le> length xs" "length xs < 12" | "12 \<le> length xs"
    by linarith
  then show ?thesis
  proof cases
    case 1
    then show ?thesis using dl_header_part [of s xs] rdy by (simp add: dl_keeps_def)
  next
    case 2
    let ?o = "s\<lparr>section_filesize := v, current_state := STATE_SECTION_OFFSET\<rparr>"
    define ts where "ts = take (length xs - 4) (be32 w)"
    from 2 xs have "xs = be32 v @ ts" "length ts < 4" by (simp_all add: len ts_def)
    moreover have "dl_payloads (be32 v) s = Some ?o"
      using dl_header_word [of s v] rdy by (cases s) (simp add: dl_field_def dl_ready_def)
    moreover have "dl_ready ?o" using rdy by (simp add: dl_ready_def)
    ultimately show ?thesis
      using dl_header_part [of ?o ts] by (simp add: dl_payloads_append dl_keeps_def)
  next
    case 3
    define ts where "ts = take (length xs - 8) (be32 z)"
    from 3 xs have "xs = (be32 v @ be32 w) @ ts" "length ts < 4" by (simp_all add: len ts_def)
    then show ?thesis
      using dl_seg_two_words [OF assms(1), of v w] dl_header_part [of ?m ts] rdy(1)
      by (simp only: dl_payloads_append) (simp add: dl_keeps_def)
  next
    case 4
    define bs cs where "bs = take (length xs - 12) (seg_data g)" and "cs = drop (length xs - 12) (seg_data g)"
    have bc: "seg_data g = bs @ cs" by (simp add: bs_def cs_def)
    from 4 xs have x: "xs = (be32 v @ be32 w) @ be32 z @ bs" by (simp add: len bs_def)
    then have "cs = ys" using assms(3) sb bc by simp
    then have d: "seg_data g = bs @ cs" "cs \<noteq> []" "seg_data g \<noteq> []" using bc assms(4) by simp_all
    have "dl_payloads (be32 z) ?m = Some ?d"
      using dl_memsize_word [of ?m g] rdy(1) assms(2) d(3) by (simp add: Let_def v_def w_def z_def dl_seg_def)
    moreover have "dl_payloads bs ?d = Some (dl_in_data ?d bs)"
      using d assms(2) rdy by (intro dl_data_prefix [of _ g _ cs]) (simp_all add: dl_seg_def dl_ready_def)
    ultimately have "dl_payloads xs s = Some (dl_in_data ?d bs)"
      using dl_seg_two_words [OF assms(1), of v w] unfolding x by (simp only: dl_payloads_append bind.bind_lunit)
    then show ?thesis by (simp add: dl_keeps_def dl_in_data_def dl_seg_def)
  qed
qed

section \<open>An image\<close>

definition image_bytes :: "u32 \<Rightarrow> segment list \<Rightarrow> u8 list" where
  "image_bytes e gs = be32 e @ be32 (of_nat (length gs)) @ concat (map seg_bytes gs)"

definition load_image :: "segment list \<Rightarrow> (nat \<Rightarrow> u32) \<Rightarrow> nat \<Rightarrow> u32" where
  "load_image gs m = fold load_segment gs m"

lemma dl_segments:
  assumes "dl_at_segment s" "list_all seg_ok gs"
  shows "\<exists>s'. dl_payloads (concat (map seg_bytes gs)) s = Some s' \<and> dl_at_segment s' \<and> entrypoint s' = entrypoint s
    \<and> section_number s' = section_number s \<and> section_count s' = section_count s + of_nat (length gs)
    \<and> main_mem s' = load_image gs (main_mem s)"
  using assms
proof (induction gs arbitrary: s)
  case Nil
  then show ?case by (simp add: load_image_def)
next
  case (Cons g gs)
  let ?s = "dl_done (dl_seg s g) g"
  have "dl_payloads (seg_bytes g) s = Some ?s" using Cons.prems by (simp add: dl_segment)
  moreover have "entrypoint ?s = entrypoint s" "section_number ?s = section_number s"
    "section_count ?s = section_count s + 1" "main_mem ?s = load_segment g (main_mem s)"
    by (simp_all add: dl_done_def dl_seg_def)
  ultimately show ?case
    using Cons.IH [OF dl_at_segment_done, of "dl_seg s g" g] Cons.prems
    by (auto simp: dl_payloads_append load_image_def)
qed

lemma dl_segments_prefix:
  assumes "dl_at_segment s" "list_all seg_ok gs" "concat (map seg_bytes gs) = xs @ ys" "ys \<noteq> []"
  shows "\<exists>s' k. dl_payloads xs s = Some s' \<and> k < length gs \<and> section_number s' = section_number s
    \<and> section_count s' = section_count s + of_nat k"
  using assms
proof (induction gs arbitrary: s xs)
  case Nil
  then show ?case by simp
next
  case (Cons g gs)
  let ?s = "dl_done (dl_seg s g) g"
  from Cons.prems(3) have eq: "seg_bytes g @ concat (map seg_bytes gs) = xs @ ys" by simp
  consider (inside) us where "seg_bytes g = xs @ us" "us \<noteq> []"
    | (behind) zs where "xs = seg_bytes g @ zs" "concat (map seg_bytes gs) = zs @ ys"
    using eq by (auto simp: append_eq_append_conv2) blast
  then show ?case
  proof cases
    case inside
    with dl_segment_prefix [OF Cons.prems(1) _ inside] Cons.prems(2) show ?thesis
      by (auto simp: dl_keeps_def intro!: exI [of _ 0])
  next
    case behind
    obtain s' k where "dl_payloads zs ?s = Some s'" "k < length gs" "section_number s' = section_number ?s"
      "section_count s' = section_count ?s + of_nat k"
      using Cons.IH [OF dl_at_segment_done _ behind(2), of "dl_seg s g" g] Cons.prems by auto
    then show ?thesis
      using Cons.prems behind(1)
      by (intro exI [of _ s'] exI [of _ "Suc k"])
        (simp add: dl_payloads_append dl_segment dl_done_def dl_seg_def)
  qed
qed

end
