(* ===== verification/Ser_Transmit.thy ===== *)
theory Ser_Transmit
  imports Boot_Image
begin

text \<open>
  The host side of the download, \<open>tools/java/src/patserdow\<close>: \<open>Transmitter.java\<close> and the sending part
  of \<open>Main.java\<close>. An exception is \<open>None\<close>. The bytes handed to the output stream are collected in
  the state; the responses of the receiver come from outside, as the list of those that have
  arrived when the transmitter looks. The main theorem joins both sides of the line.
\<close>

section \<open>The transmitter\<close>

record transmitter =
  responseQueue :: "int list"
  written :: "u8 list"

abbreviation (input) FRAME_SIZE :: nat where "FRAME_SIZE \<equiv> 255"

text \<open>
  An input stream is the list of the pieces that are read one after the other; a read returns
  bytes of the current piece only. \<open>None\<close> is the result \<open>-1\<close> at the end.
\<close>

fun read_stream :: "nat \<Rightarrow> u8 list list \<Rightarrow> (u8 list \<times> u8 list list) option" where
  "read_stream n [] = None"
| "read_stream n ([] # ps) = read_stream n ps"
| "read_stream n (p # ps) = Some (take n p, drop n p # ps)"

text \<open>\<open>java.util.zip.CRC32\<close>: the CRC-32 of the bit sequence, each byte with its least significant bit first.\<close>

definition crc32_bit :: "bool \<Rightarrow> u32 \<Rightarrow> u32" where
  "crc32_bit b r = (if bit r 0 \<noteq> b then drop_bit 1 r XOR poly else drop_bit 1 r)"

definition java_crc32 :: "u8 list \<Rightarrow> u32" where
  "java_crc32 bs = fold (\<lambda>b r. fold (\<lambda>i. crc32_bit (bit b i)) [0..<8] r) bs 0xFFFFFFFF XOR 0xFFFFFFFF"

definition tx_ack :: "int \<Rightarrow> transmitter \<Rightarrow> transmitter option" where
  "tx_ack response t =
     (case responseQueue t of
        [] \<Rightarrow> None
      | e # q \<Rightarrow> let t = t\<lparr>responseQueue := q\<rparr> in if response \<noteq> e then None else Some t)"

fun tx_acks :: "int list \<Rightarrow> transmitter \<Rightarrow> transmitter option" where
  "tx_acks [] t = Some t"
| "tx_acks (r # rs) t = do { t \<leftarrow> tx_ack r t; tx_acks rs t }"

definition tx_send_frame :: "bool \<Rightarrow> u8 list \<Rightarrow> int list \<Rightarrow> transmitter \<Rightarrow> transmitter option" where
  "tx_send_frame sync frame arrived t =
     (let t = t\<lparr>written := written t @ frame\<rparr> in
      if sync then (case arrived of [] \<Rightarrow> None | r # _ \<Rightarrow> tx_ack r t)
      else tx_acks arrived t)"

lemma read_stream_length: "read_stream n ps = Some (bs, qs) \<Longrightarrow> 0 < n \<Longrightarrow> 0 < length bs \<and> length bs \<le> n"
  by (induction n ps rule: read_stream.induct) auto

text \<open>
  The arrived responses are given per frame; after the end of the list none arrive. \<open>remaining\<close> is the
  value of the Java \<open>int\<close>, which may be negative: then nothing is sent. It only decreases towards 0,
  so that the subtraction does not wrap.
\<close>

function tx_send ::
    "bool \<Rightarrow> u8 list list \<Rightarrow> int \<Rightarrow> int list list \<Rightarrow> transmitter \<Rightarrow> (int list list \<times> transmitter) option" where
  "tx_send sync stream remaining arrived t =
     (if remaining > 0
      then let size = (if remaining < int FRAME_SIZE then remaining else int FRAME_SIZE) in
        case read_stream (nat size) stream of
          None \<Rightarrow> None
        | Some (bs, stream) \<Rightarrow>
            let crc = java_crc32 bs;
                frame = of_nat (length bs) # be32 crc @ bs;
                t = t\<lparr>responseQueue := responseQueue t @ [uint (crc AND 0xFF)]\<rparr>
            in case tx_send_frame sync frame (case arrived of [] \<Rightarrow> [] | a # _ \<Rightarrow> a) t of
                 None \<Rightarrow> None
               | Some t \<Rightarrow> tx_send sync stream (remaining - int (length bs)) (tl arrived) t
      else Some (arrived, t))"
  by pat_completeness auto
termination
  by (relation "measure (\<lambda>(_, _, remaining, _, _). nat remaining)")
    (auto dest!: read_stream_length split: if_splits)

declare tx_send.simps [simp del]

text \<open>\<open>finish\<close>: the responses still missing are read and compared; \<open>None\<close> also when they do not come.\<close>

fun tx_finish :: "int list \<Rightarrow> transmitter \<Rightarrow> transmitter option" where
  "tx_finish rs t =
     (if responseQueue t = [] then Some t
      else case rs of [] \<Rightarrow> None | r # rs \<Rightarrow> (case tx_ack r t of None \<Rightarrow> None | Some t \<Rightarrow> tx_finish rs t))"

declare tx_finish.simps [simp del]

section \<open>Sending an executable\<close>

text \<open>A program header of the ELF file, as the ELF library returns it.\<close>

record program_header =
  ph_filesize :: u32
  ph_memsize :: u32
  ph_fileoffset :: u32
  ph_paddr :: u32

definition send_header ::
    "bool \<Rightarrow> u32 \<Rightarrow> nat \<Rightarrow> int list list \<Rightarrow> transmitter \<Rightarrow> (int list list \<times> transmitter) option" where
  "send_header sync e n arrived t = tx_send sync [be32 e @ be32 (of_nat n)] 8 arrived t"

text \<open>The length handed to \<open>send\<close> is a sum of two \<open>int\<close>s, which wraps at 32 bits and is read as signed.\<close>

definition send_segment ::
    "bool \<Rightarrow> u8 list \<Rightarrow> program_header \<Rightarrow> int list list \<times> transmitter \<Rightarrow> (int list list \<times> transmitter) option" where
  "send_segment sync file ph st =
     (case st of (arrived, t) \<Rightarrow>
      let segment_header = be32 (ph_filesize ph) @ be32 (ph_paddr ph) @ be32 (ph_memsize ph)
      in tx_send sync [segment_header, drop (unat (ph_fileoffset ph)) file] (sint (12 + ph_filesize ph)) arrived t)"

fun send_segments ::
    "bool \<Rightarrow> u8 list \<Rightarrow> program_header list \<Rightarrow> int list list \<times> transmitter \<Rightarrow> (int list list \<times> transmitter) option" where
  "send_segments sync file [] st = Some st"
| "send_segments sync file (ph # phs) st = do { st \<leftarrow> send_segment sync file ph st; send_segments sync file phs st }"

definition send_program ::
    "bool \<Rightarrow> u8 list \<Rightarrow> u32 \<Rightarrow> program_header list \<Rightarrow> int list list \<Rightarrow> (int list list \<times> transmitter) option" where
  "send_program sync file e phs arrived =
     do {
       st \<leftarrow> send_header sync e (length phs) arrived \<lparr>responseQueue = [], written = []\<rparr>;
       send_segments sync file phs st
     }"

section \<open>The two checksums agree\<close>

lemma crc_shift_xor: "crc_shift (r XOR d) = crc32_bit (bit d 0) r XOR drop_bit 1 d"
proof -
  have "(w AND 1 > 0) = bit w 0" for w :: u32 by (simp add: and_one_eq bit_0 word_gt_0 odd_iff_mod_2_eq_one)
  then show ?thesis
    unfolding crc_shift_def crc32_bit_def
    by (cases "bit r 0"; cases "bit d 0") (simp_all add: bit_xor_iff drop_bit_xor xor.assoc xor.commute xor.left_commute)
qed

lemma crc_shifts_xor:
  "fold (\<lambda>_. crc_shift) [0..<k] (r XOR d) = fold (\<lambda>i. crc32_bit (bit d i)) [0..<k] r XOR drop_bit k d"
  by (induction k) (simp_all add: crc_shift_xor bit_drop_bit_eq)

lemma crc_byte_bits: "crc_byte r (ucast b) = fold (\<lambda>i. crc32_bit (bit b i)) [0..<8] r" for b :: u8
proof -
  have "drop_bit 8 (ucast b :: u32) = 0" by (rule bit_word_eqI) (auto simp: bits dest: bit_lt_len)
  moreover have "fold (\<lambda>i. crc32_bit (bit (ucast b :: u32) i)) [0..<8] r = fold (\<lambda>i. crc32_bit (bit b i)) [0..<8] r"
    by (rule fold_cong) (auto simp: bits)
  ultimately show ?thesis unfolding crc_byte_def crc_shifts_xor by simp
qed

lemma java_crc32_eq: "java_crc32 bs = crc32 bs"
  by (simp add: java_crc32_def crc32_def crc_list_def crc_byte_bits)

section \<open>Frames\<close>

text \<open>The response to a frame, and the transcript of frames with their responses on the receiver's side.\<close>

definition reply :: "u8 list \<Rightarrow> u8" where
  "reply bs = ucast (crc32 bs)"

definition transcript :: "u8 list list \<Rightarrow> (u8 + u8) list" where
  "transcript css = concat (map (\<lambda>c. map Inl (packet c) @ [Inr (reply c)]) css)"

definition frames_ok :: "u8 list list \<Rightarrow> bool" where
  "frames_ok css \<longleftrightarrow> list_all (\<lambda>c. c \<noteq> [] \<and> length c \<le> FRAME_SIZE) css"

lemma uint_reply: "uint (take_bit 8 (java_crc32 bs)) = uint (reply bs)"
proof -
  have "uint (take_bit 8 w) = uint (ucast w :: u8)" for w :: u32
    by (simp add: unsigned_take_bit_eq unsigned_ucast_eq)
  then show ?thesis by (simp add: java_crc32_eq reply_def)
qed

lemma tx_ack_queue:
  "tx_ack r t = Some t' \<Longrightarrow> responseQueue t = r # responseQueue t' \<and> written t' = written t"
  by (auto simp: tx_ack_def split: list.splits if_splits)

lemma tx_acks_queue:
  "tx_acks rs t = Some t' \<Longrightarrow> responseQueue t = rs @ responseQueue t' \<and> written t' = written t"
  by (induction rs arbitrary: t) (auto split: bind_splits dest!: tx_ack_queue)

lemma tx_send_frame_queue:
  "tx_send_frame sync frame arrived t = Some t' \<Longrightarrow>
     (\<exists>acked. responseQueue t = acked @ responseQueue t') \<and> written t' = written t @ frame"
  by (fastforce simp: tx_send_frame_def Let_def split: if_splits list.splits dest!: tx_ack_queue tx_acks_queue)

lemma read_stream_concat: "read_stream n ps = Some (bs, qs) \<Longrightarrow> concat ps = bs @ concat qs"
  by (induction n ps rule: read_stream.induct) auto

text \<open>What a successful \<open>send\<close> has written: the first bytes of the stream, in frames.\<close>

definition sent_frames :: "transmitter \<Rightarrow> u8 list \<Rightarrow> transmitter \<Rightarrow> u8 list list \<Rightarrow> bool" where
  "sent_frames t bs t' css \<longleftrightarrow> concat css = bs \<and> frames_ok css \<and> written t' = written t @ concat (map packet css)
     \<and> (\<exists>acked. responseQueue t @ map (uint \<circ> reply) css = acked @ responseQueue t')"

lemma sent_frames_append:
  assumes "sent_frames t xs t1 css" "sent_frames t1 ys t2 dss"
  shows "sent_frames t (xs @ ys) t2 (css @ dss)"
proof -
  from assms obtain a b where "responseQueue t @ map (uint \<circ> reply) css = a @ responseQueue t1"
    "responseQueue t1 @ map (uint \<circ> reply) dss = b @ responseQueue t2"
    unfolding sent_frames_def by blast
  then have "responseQueue t @ map (uint \<circ> reply) (css @ dss) = (a @ b) @ responseQueue t2"
    by (metis append_assoc map_append)
  with assms show ?thesis by (auto simp: sent_frames_def frames_ok_def)
qed

lemma tx_send_frames:
  assumes "tx_send sync ps n arrived t = Some (arrived', t')"
  shows "nat n \<le> length (concat ps) \<and> (\<exists>css. sent_frames t (take (nat n) (concat ps)) t' css)"
  using assms
proof (induction sync ps n arrived t rule: tx_send.induct)
  case (1 sync ps n arrived t)
  show ?case
  proof (cases "n > 0")
    case False
    then show ?thesis
      using "1.prems" by (subst (asm) tx_send.simps) (auto simp: sent_frames_def frames_ok_def intro!: exI [of _ "[]"])
  next
    case True
    define size where "size = (if n < int FRAME_SIZE then n else int FRAME_SIZE)"
    obtain bs qs where r: "read_stream (nat size) ps = Some (bs, qs)"
      using "1.prems" True by (subst (asm) tx_send.simps) (auto simp: Let_def size_def split: option.splits)
    let ?crc = "java_crc32 bs"
    let ?t = "t\<lparr>responseQueue := responseQueue t @ [uint (?crc AND 0xFF)]\<rparr>"
    obtain t1 where t1: "tx_send_frame sync (packet bs) (case arrived of [] \<Rightarrow> [] | a # _ \<Rightarrow> a) ?t = Some t1"
      and rec: "tx_send sync qs (n - int (length bs)) (tl arrived) t1 = Some (arrived', t')"
      using "1.prems" True r
      by (subst (asm) tx_send.simps) (auto simp: Let_def size_def packet_def java_crc32_eq split: option.splits)
    have l: "0 < length bs" "length bs \<le> nat size" using read_stream_length [OF r] True by (auto simp: size_def)
    have "nat n - length bs \<le> length (concat qs) \<and> (\<exists>css. sent_frames t1 (take (nat n - length bs) (concat qs)) t' css)"
      using "1.IH" [OF True size_def r refl refl refl refl, of t1] t1 rec True
      by (simp add: packet_def java_crc32_eq nat_minus_as_int)
    then obtain css where css: "nat n - length bs \<le> length (concat qs)" "sent_frames t1 (take (nat n - length bs) (concat qs)) t' css" by blast
    have "sent_frames t bs t1 [bs]"
      using tx_send_frame_queue [OF t1] l
      by (auto simp: sent_frames_def frames_ok_def size_def uint_reply split: if_splits)
    from sent_frames_append [OF this css(2)] show ?thesis
      using css(1) l read_stream_concat [OF r] by (auto simp: size_def split: if_splits)
  qed
qed

text \<open>The segment a program header describes.\<close>

definition ph_segment :: "u8 list \<Rightarrow> program_header \<Rightarrow> segment" where
  "ph_segment file ph = \<lparr>seg_offset = ph_paddr ph, seg_memsize = ph_memsize ph,
     seg_data = take (unat (ph_filesize ph)) (drop (unat (ph_fileoffset ph)) file)\<rparr>"

lemma length_be32 [simp]: "length (be32 w) = 4"
  by (simp add: be32_def)

text \<open>The length of the segment with its header fits an \<open>int\<close>.\<close>

definition ph_fits :: "program_header \<Rightarrow> bool" where
  "ph_fits ph \<longleftrightarrow> unat (ph_filesize ph) + 12 < 2 ^ 31"

lemma ph_fits_length: "ph_fits ph \<Longrightarrow> sint (12 + ph_filesize ph) = int (12 + unat (ph_filesize ph))"
proof -
  assume "ph_fits ph"
  then have l: "12 + unat (ph_filesize ph) < 2 ^ 31" by (simp add: ph_fits_def)
  then have "unat (12 + ph_filesize ph) = 12 + unat (ph_filesize ph)"
    by (simp add: unat_word_ariths)
  then have "uint (12 + ph_filesize ph) = int (12 + unat (ph_filesize ph))"
    by (metis uint_nat)
  moreover have "int (12 + unat (ph_filesize ph)) < int (2 ^ 31)" using l by (simp only: of_nat_less_iff)
  ultimately show ?thesis
    by (simp only: sint_uint) (rule signed_take_bit_int_eq_self, simp_all)
qed

lemma send_segment_frames:
  assumes "send_segment sync file ph (arrived, t) = Some (arrived', t')" "ph_fits ph"
  shows "\<exists>css. sent_frames t (seg_bytes (ph_segment file ph)) t' css"
proof -
  let ?h = "be32 (ph_filesize ph) @ be32 (ph_paddr ph) @ be32 (ph_memsize ph)" and ?d = "drop (unat (ph_fileoffset ph)) file"
  have s: "tx_send sync [?h, ?d] (int (12 + unat (ph_filesize ph))) arrived t = Some (arrived', t')"
    using assms(1) ph_fits_length [OF assms(2)] by (simp add: send_segment_def Let_def)
  have "take (12 + unat (ph_filesize ph)) (concat [?h, ?d]) = seg_bytes (ph_segment file ph)"
    using tx_send_frames [OF s, unfolded nat_int] by (simp add: seg_bytes_def ph_segment_def min_absorb2)
  with tx_send_frames [OF s, unfolded nat_int] show ?thesis by metis
qed

lemma send_segments_frames:
  assumes "send_segments sync file phs (arrived, t) = Some (arrived', t')" "list_all ph_fits phs"
  shows "\<exists>css. sent_frames t (concat (map (seg_bytes \<circ> ph_segment file) phs)) t' css"
  using assms
proof (induction phs arbitrary: arrived t)
  case Nil
  then show ?case by (auto simp: sent_frames_def frames_ok_def intro!: exI [of _ "[]"])
next
  case (Cons ph phs)
  then obtain a1 t1 where s: "send_segment sync file ph (arrived, t) = Some (a1, t1)"
    "send_segments sync file phs (a1, t1) = Some (arrived', t')" by (auto split: bind_splits)
  have "ph_fits ph" "list_all ph_fits phs" using Cons.prems(2) by simp_all
  from send_segment_frames [OF s(1) this(1)] Cons.IH [OF s(2) this(2)] show ?case
    by (auto dest: sent_frames_append)
qed

lemma send_program_frames:
  assumes "send_program sync file e phs arrived = Some (arrived', t)" "list_all ph_fits phs"
  shows "\<exists>css. sent_frames \<lparr>responseQueue = [], written = []\<rparr> (image_bytes e (map (ph_segment file) phs)) t css"
proof -
  let ?t0 = "\<lparr>responseQueue = [], written = []\<rparr>" and ?h = "be32 e @ be32 (of_nat (length phs))"
  from assms(1) obtain a1 t1 where s: "tx_send sync [?h] 8 arrived ?t0 = Some (a1, t1)"
    "send_segments sync file phs (a1, t1) = Some (arrived', t)"
    by (auto simp: send_program_def send_header_def split: bind_splits)
  from tx_send_frames [OF s(1)] obtain css where "sent_frames ?t0 ?h t1 css" by auto
  moreover from send_segments_frames [OF s(2) assms(2)] obtain dss
    where "sent_frames t1 (concat (map (seg_bytes \<circ> ph_segment file) phs)) t dss" by blast
  ultimately show ?thesis
    using sent_frames_append by (fastforce simp: image_bytes_def)
qed

section \<open>The image at the receiver\<close>

lemma dl_init_simps [simp]:
  "packet_size (dl_init m) = 0" "section_number (sect (dl_init m)) = - 1" "section_count (sect (dl_init m)) = 0"
  "current_state (sect (dl_init m)) = STATE_ENTRYPOINT" "main_mem (sect (dl_init m)) = m" "dl_ready (sect (dl_init m))"
  by (simp_all add: dl_init_def dl_ready_def)

text \<open>The state with both words of the image header read.\<close>

lemma dl_image_header:
  "\<exists>s. dl_payloads (be32 e @ be32 w) (sect (dl_init m)) = Some s \<and> dl_at_segment s \<and> entrypoint s = e
     \<and> section_number s = w \<and> section_count s = 0 \<and> main_mem s = m"
proof -
  let ?s0 = "sect (dl_init m)"
  let ?s1 = "(dl_field (?s0\<lparr>integer := e\<rparr>))\<lparr>integer := 0, section_byte_count := 0, current_state := STATE_SECTION_NUMBER\<rparr>"
  have "dl_payloads (be32 e) ?s0 = Some ?s1" using dl_header_word [of ?s0 e] by simp
  moreover have "dl_payloads (be32 w) ?s1 = Some ((dl_field (?s1\<lparr>integer := w\<rparr>))\<lparr>integer := 0, section_byte_count := 0,
      current_state := STATE_SECTION_FILESIZE\<rparr>)"
    using dl_header_word [of ?s1 w] by (simp add: dl_ready_def)
  ultimately show ?thesis
    by (simp add: dl_payloads_append dl_at_segment_def dl_ready_def dl_field_def dl_init_def)
qed

lemma dl_image:
  assumes "list_all seg_ok gs"
  shows "\<exists>q. dl_payloads (image_bytes e gs) (sect (dl_init m)) = Some q \<and> entrypoint q = e
    \<and> section_count q = section_number q \<and> main_mem q = load_image gs m"
proof -
  obtain s where "dl_payloads (be32 e @ be32 (of_nat (length gs))) (sect (dl_init m)) = Some s" "dl_at_segment s"
    "entrypoint s = e" "section_number s = of_nat (length gs)" "section_count s = 0" "main_mem s = m"
    using dl_image_header by blast
  with dl_segments [OF \<open>dl_at_segment s\<close> assms] show ?thesis
    by (auto simp: image_bytes_def dl_payloads_append append_assoc [symmetric] simp del: append_assoc)
qed

lemma dl_image_prefix:
  assumes "list_all seg_ok gs" "length gs < 2 ^ 32 - 1" "image_bytes e gs = xs @ ys" "ys \<noteq> []"
  shows "\<exists>q. dl_payloads xs (sect (dl_init m)) = Some q \<and> section_count q \<noteq> section_number q"
proof -
  let ?s0 = "sect (dl_init m)" and ?n = "of_nat (length gs) :: u32"
  let ?s1 = "(dl_field (?s0\<lparr>integer := e\<rparr>))\<lparr>integer := 0, section_byte_count := 0, current_state := STATE_SECTION_NUMBER\<rparr>"
  have xs: "xs = take (length xs) (be32 e @ be32 ?n @ concat (map seg_bytes gs))"
    using assms(3) by (simp add: image_bytes_def)
  consider "length xs < 4" | "4 \<le> length xs" "length xs < 8" | "8 \<le> length xs" by linarith
  then show ?thesis
  proof cases
    case 1
    then show ?thesis using dl_header_part [of ?s0 xs] by simp
  next
    case 2
    define ts where "ts = take (length xs - 4) (be32 ?n)"
    from 2 xs have "xs = be32 e @ ts" "length ts < 4" by (simp_all add: ts_def)
    moreover have "dl_payloads (be32 e) ?s0 = Some ?s1" using dl_header_word [of ?s0 e] by simp
    ultimately show ?thesis
      using dl_header_part [of ?s1 ts] by (simp add: dl_payloads_append dl_ready_def dl_field_def)
  next
    case 3
    define zs where "zs = take (length xs - 8) (concat (map seg_bytes gs))"
    from 3 xs have x: "xs = (be32 e @ be32 ?n) @ zs" by (simp add: zs_def)
    then have "concat (map seg_bytes gs) = zs @ ys" using assms(3) by (simp add: image_bytes_def)
    moreover obtain s where s: "dl_payloads (be32 e @ be32 ?n) ?s0 = Some s" "dl_at_segment s"
      "section_number s = ?n" "section_count s = 0" using dl_image_header by blast
    ultimately obtain q k where "dl_payloads zs s = Some q" "k < length gs" "section_number q = ?n" "section_count q = of_nat k"
      using dl_segments_prefix [OF s(2) assms(1) _ assms(4), of zs] by auto
    moreover have "unat (of_nat k :: u32) = k" "unat ?n = length gs"
      using calculation(2) assms(2) by (simp_all add: of_nat_u32)
    then have "of_nat k \<noteq> ?n" using calculation(2) by auto
    ultimately show ?thesis using s(1) unfolding x by (simp only: dl_payloads_append) simp
  qed
qed

lemma transcript_Cons: "transcript (c # css) = (map Inl (packet c) @ [Inr (reply c)]) @ transcript css"
  by (simp add: transcript_def)

lemma dl_frames:
  assumes "frames_ok css" "css \<noteq> []" "packet_size p = 0" "dl_payloads (concat css) (sect p) = Some q"
    and "section_count q = section_number q"
    and "\<And>xs ys. concat css = xs @ ys \<Longrightarrow> ys \<noteq> [] \<Longrightarrow> \<exists>q. dl_payloads xs (sect p) = Some q \<and> section_count q \<noteq> section_number q"
    and "serves getb putb s (transcript css) s'"
  shows "download_loop getb putb p s = Some (entrypoint q, q, s')"
  using assms
proof (induction css arbitrary: p s)
  case Nil
  then show ?case by simp
next
  case (Cons c css)
  have c: "c \<noteq> []" "length c \<le> 255" "frames_ok css" using Cons.prems(1) by (simp_all add: frames_ok_def)
  obtain t where t: "serves getb putb s (map Inl (packet c) @ [Inr (ucast (crc32 c))]) t" "serves getb putb t (transcript css) s'"
    using Cons.prems(7) by (auto simp: transcript_Cons serves_append reply_def)
  obtain q1 where q1: "dl_payloads c (sect p) = Some q1" "dl_payloads (concat css) q1 = Some q"
    using Cons.prems(4) by (auto simp: dl_payloads_append split: bind_splits)
  from dl_packet [OF c(1,2) Cons.prems(3) q1(1) t(1)] obtain p' where
    p': "sect p' = q1" "packet_size p' = 0" "download_loop getb putb p s = dl_verdict getb putb p' t" by blast
  show ?case
  proof (cases "css = []")
    case True
    then show ?thesis using p' q1 t(2) Cons.prems(5) by (simp add: dl_verdict_def transcript_def)
  next
    case False
    then have ne: "concat css \<noteq> []" using c(3) by (cases css) (auto simp: frames_ok_def)
    have "section_count q1 \<noteq> section_number q1" using Cons.prems(6) [of c "concat css"] ne q1(1) by auto
    then have "download_loop getb putb p s = download_loop getb putb p' t" using p' by (simp add: dl_verdict_def)
    also have "\<dots> = Some (entrypoint q, q, s')"
    proof (rule Cons.IH [OF c(3) False p'(2)])
      fix xs ys assume "concat css = xs @ ys" "ys \<noteq> []"
      then show "\<exists>q. dl_payloads xs (sect p') = Some q \<and> section_count q \<noteq> section_number q"
        using Cons.prems(6) [of "c @ xs" ys] q1(1) p'(1) by (simp add: dl_payloads_append)
    qed (use q1 p' t Cons.prems(5) in simp_all)
    finally show ?thesis .
  qed
qed

section \<open>Both sides of the line\<close>

text \<open>
  C18. The checksum loop of the boot loader computes the CRC-32 of the host.
\<close>

theorem bootloader_crc_is_crc32:
  "fold (\<lambda>b c. crc_byte c (ucast b)) bs 0xFFFFFFFF XOR 0xFFFFFFFF = java_crc32 bs"
  by (simp add: java_crc32_eq crc32_def crc_list_def)

lemma transcript_bytes: "reads_of (transcript css) = concat (map packet css)" "writes_of (transcript css) = map reply css"
  by (induction css) (simp_all add: transcript_def comp_def)

lemma program_received:
  assumes "send_program sync file e phs arrived = Some (arrived', t)"
    and "list_all (seg_ok \<circ> ph_segment file) phs" "length phs < 2 ^ 32 - 1" and fits: "list_all ph_fits phs"
    and line: "\<And>xs. reads_of xs = written t \<Longrightarrow> \<exists>s'. serves getb putb s xs s'"
  shows "\<exists>xs s'. reads_of xs = written t \<and> serves getb putb s xs s'
    \<and> download getb putb m s = Some (e, load_image (map (ph_segment file) phs) m, s')
    \<and> (\<exists>acked. map uint (writes_of xs) = acked @ responseQueue t)"
proof -
  let ?gs = "map (ph_segment file) phs"
  have ok: "list_all seg_ok ?gs" "length ?gs < 2 ^ 32 - 1" using assms(2,3) by (simp_all add: list.pred_map)
  from send_program_frames [OF assms(1) fits] obtain css where
    css: "concat css = image_bytes e ?gs" "frames_ok css" "written t = concat (map packet css)"
    and ack: "\<exists>acked. map (uint \<circ> reply) css = acked @ responseQueue t"
    by (auto simp: sent_frames_def)
  obtain s' where s': "serves getb putb s (transcript css) s'"
    using line [of "transcript css"] css(3) by (auto simp: transcript_bytes)
  obtain q where q: "dl_payloads (image_bytes e ?gs) (sect (dl_init m)) = Some q" "entrypoint q = e"
    "section_count q = section_number q" "main_mem q = load_image ?gs m" using dl_image [OF ok(1)] by blast
  have "css \<noteq> []" using css(1) by (auto simp: image_bytes_def be32_def)
  then have "download_loop getb putb (dl_init m) s = Some (entrypoint q, q, s')"
  proof (rule dl_frames [OF css(2)])
    fix xs ys assume "concat css = xs @ ys" "ys \<noteq> []"
    then show "\<exists>q. dl_payloads xs (sect (dl_init m)) = Some q \<and> section_count q \<noteq> section_number q"
      using dl_image_prefix [OF ok, of e xs ys m] css(1) by simp
  qed (use css(1) q(1,3) s' in simp_all)
  then have "download getb putb m s = Some (e, load_image ?gs m, s')" using q by (simp add: download_def)
  with s' css(3) ack show ?thesis
    by (intro exI [of _ "transcript css"] exI [of _ s']) (simp add: transcript_bytes comp_def)
qed

text \<open>
  C4. The download round trip, for a program whose segments are loaded at word-aligned addresses and
  end within the 32-bit address space, whose segment lengths with the 12 bytes of the segment header
  fit a Java \<open>int\<close>, and which has fewer than 2^32 - 1 segments. When the host has sent such a program
  without an exception, and a line serves the receiver every exchange in which it reads the bytes
  the host wrote, then \<open>download\<close> returns the entry point, and the main memory holds the segments of the
  file with their cleared rests. What the receiver answers is what the host still expects after the
  responses it has already accepted.
\<close>

theorem download_receives_program:
  assumes "send_program sync file e phs arrived = Some (arrived', t)"
    and "list_all (seg_ok \<circ> ph_segment file) phs" "length phs < 2 ^ 32 - 1" and fits: "list_all ph_fits phs"
    and line: "\<And>xs. reads_of xs = written t \<Longrightarrow> \<exists>s'. serves getb putb s xs s'"
  shows "\<exists>xs s'. reads_of xs = written t \<and> serves getb putb s xs s'
    \<and> download getb putb m s = Some (e, load_image (map (ph_segment file) phs) m, s')
    \<and> (\<exists>acked. map uint (writes_of xs) = acked @ responseQueue t)"
  using assms(1-3) fits line by (rule program_received)

text \<open>A line that holds the bytes not yet read and collects the answers.\<close>

fun queue_get :: "u8 list \<times> u8 list \<Rightarrow> (u32 \<times> u8 list \<times> u8 list) option" where
  "queue_get ([], out) = None"
| "queue_get (b # bs, out) = Some (ucast b, bs, out)"

fun queue_put :: "u8 \<Rightarrow> u8 list \<times> u8 list \<Rightarrow> (u8 list \<times> u8 list) option" where
  "queue_put c (bs, out) = Some (bs, out @ [c])"

lemma queue_serves: "serves queue_get queue_put (reads_of xs @ bs, out) xs (bs, out @ writes_of xs)"
proof (induction xs arbitrary: out)
  case (Cons x xs)
  have "serves queue_get queue_put (reads_of xs @ bs, out @ [c]) xs (bs, out @ c # writes_of xs)" for c
    using Cons.IH [of "out @ [c]"] by simp
  with Cons.IH [of out] show ?case by (cases x) auto
qed simp

theorem download_receives_program_witness:
  "\<exists>t s'. send_program False [1, 2, 3, 4, 5] 0x20000 [\<lparr>ph_filesize = 5, ph_memsize = 9, ph_fileoffset = 0, ph_paddr = 0x100\<rparr>] []
       = Some ([], t)
     \<and> download queue_get queue_put (\<lambda>_. 7) (written t, []) = Some (0x20000, load_image [\<lparr>seg_offset = 0x100, seg_memsize = 9,
         seg_data = [1, 2, 3, 4, 5]\<rparr>] (\<lambda>_. 7), s')"
proof -
  let ?ph = "\<lparr>ph_filesize = 5, ph_memsize = 9, ph_fileoffset = 0, ph_paddr = 0x100\<rparr>"
  obtain t where t: "send_program False [1, 2, 3, 4, 5] 0x20000 [?ph] [] = Some ([], t)"
    by (simp add: send_program_def send_header_def send_segment_def Let_def tx_send_frame_def tx_send.simps be32_def)
  have "\<exists>s'. serves queue_get queue_put (written t, []) xs s'" if "reads_of xs = written t" for xs
    using queue_serves [of xs "[]" "[]"] that by auto
  from download_receives_program [OF t _ _ _ this, of "\<lambda>_. 7"] t show ?thesis
    by (auto simp: seg_ok_def ph_segment_def ph_fits_def)
qed

text \<open>
  C19. A damaged frame ends the download: when a frame arrives whose checksum field is not the checksum
  of its contents, \<open>download\<close> answers with the last byte of the checksum it has computed and
  returns \<open>NULL\<close>.
\<close>

theorem download_rejects_damage:
  assumes "packet_size p = 0" "bs \<noteq> []" "length bs \<le> 255" "c \<noteq> java_crc32 bs"
    and "dl_payloads bs (sect p) = Some q"
    and "serves getb putb s (map Inl (of_nat (length bs) # be32 c @ bs) @ [Inr (ucast (java_crc32 bs))]) s'"
  shows "download_loop getb putb p s = Some (0, q, s')"
  using dl_packet_crc [OF assms(2,3,1,5), of getb putb s c s'] assms(4,6) by (auto simp: java_crc32_eq)

theorem download_rejects_damage_witness:
  "\<exists>q s'. download_loop queue_get queue_put (dl_init (\<lambda>_. 0)) ([1, 0, 0, 0, 0, 9], []) = Some (0, q, s')"
proof -
  have "java_crc32 [9] \<noteq> 0" by code_simp
  moreover obtain q where "dl_payloads [9] (sect (dl_init (\<lambda>_. 0))) = Some q"
    using dl_header_part [of "sect (dl_init (\<lambda>_. 0))" "[9]"] by simp
  moreover have "serves queue_get queue_put ([1, 0, 0, 0, 0, 9], []) (map Inl [1, 0, 0, 0, 0, 9] @ [Inr (ucast (java_crc32 [9]))])
      ([], [ucast (java_crc32 [9])])"
    using queue_serves [of "map Inl [1, 0, 0, 0, 0, 9] @ [Inr (ucast (java_crc32 [9]))]" "[]" "[]"] by simp
  ultimately show ?thesis
    using download_rejects_damage [of "dl_init (\<lambda>_. 0)" "[9]" 0 q queue_get queue_put "([1, 0, 0, 0, 0, 9], [])"
        "([], [ucast (java_crc32 [9])])"] by (auto simp: be32_def)
qed

end
