(* ===== verification/Ser_Roundtrip.thy ===== *)
theory Ser_Roundtrip
  imports Ser_Compress Ser_Transmit
begin

text \<open>
  Compression on the host and decompression in the boot loader fit together. The invariant of the compressor relates its
  buffer, its trees and its code buffer to the text written so far. For every text the compressor finishes without an exception,
  and what it has written are the packed codes of a list that describes the text; the decompressor then returns the
  text. The last lemma is the download of a program over a compressed line.
\<close>

section \<open>The window\<close>

text \<open>
  Time counts the bytes of the history, as in the decompressor. The buffer holds the last 1024 bytes, each at
  its time modulo 1024, and the bytes at the first 65 positions a second time behind the end, once they
  have been read into a place where a string wraps around.
\<close>

definition buf_holds :: "(nat \<Rightarrow> u8) \<Rightarrow> u8 list \<Rightarrow> bool" where
  "buf_holds b X \<longleftrightarrow> (\<forall>t<length X. length X \<le> t + 1024 \<longrightarrow>
     b (t mod 1024) = X ! t \<and> (1024 \<le> t \<longrightarrow> t mod 1024 < 65 \<longrightarrow> b (t mod 1024 + 1024) = X ! t))"

lemma buf_read:
  assumes "buf_holds b X" "k < 66" "v + k < length X" "length X \<le> v + k + 1024"
  shows "b (v mod 1024 + k) = X ! (v + k)"
proof (cases "v mod 1024 + k < 1024")
  case True
  then have "v mod 1024 + k = (v + k) mod 1024" by (metis mod_add_left_eq mod_less)
  then show ?thesis using assms by (simp add: buf_holds_def)
next
  case False
  have "(v + k) mod 1024 = (v mod 1024 + k) mod 1024" by (simp add: mod_add_left_eq)
  also have "\<dots> = (v mod 1024 + k - 1024) mod 1024" using False by (intro le_mod_geq) linarith
  also have "\<dots> = v mod 1024 + k - 1024"
  proof (rule mod_less)
    have "v mod 1024 < 1024" by simp
    then show "v mod 1024 + k - 1024 < 1024" using assms(2) by linarith
  qed
  finally have m: "(v + k) mod 1024 = v mod 1024 + k - 1024" .
  moreover have "v mod 1024 < 1024" "v mod 1024 \<le> v" by simp_all
  ultimately have "(v + k) mod 1024 < 65" "(v + k) mod 1024 + 1024 = v mod 1024 + k" "1024 \<le> v + k"
    using False assms(2) by linarith+
  then show ?thesis using assms unfolding buf_holds_def by metis
qed

lemma buf_write:
  assumes "buf_holds b X"
  shows "buf_holds (if 1024 \<le> length X \<and> length X mod 1024 < 65
      then b(length X mod 1024 := x, length X mod 1024 + 1024 := x) else b(length X mod 1024 := x)) (X @ [x])"
    (is "buf_holds ?b _")
  unfolding buf_holds_def
proof (intro allI impI)
  fix t assume t: "t < length (X @ [x])" "length (X @ [x]) \<le> t + 1024"
  have lt: "u mod 1024 < 1024" for u :: nat by simp
  have ne: "u mod 1024 + 1024 \<noteq> v mod 1024" for u v :: nat using lt [of v] by linarith
  show "?b (t mod 1024) = (X @ [x]) ! t \<and> (1024 \<le> t \<longrightarrow> t mod 1024 < 65 \<longrightarrow> ?b (t mod 1024 + 1024) = (X @ [x]) ! t)"
  proof (cases "t = length X")
    case True
    then show ?thesis using ne by (auto simp: ne [symmetric])
  next
    case False
    then have l: "t < length X" using t by simp
    then have m: "t mod 1024 \<noteq> length X mod 1024" using t ring_mod_eq [of t 1024 "length X"] by auto
    have o: "b (t mod 1024) = X ! t" "1024 \<le> t \<longrightarrow> t mod 1024 < 65 \<longrightarrow> b (t mod 1024 + 1024) = X ! t"
      using assms l t(2) by (simp_all add: buf_holds_def)
    then show ?thesis using l m ne by (auto simp: nth_append ne [symmetric])
  qed
qed

text \<open>The nodes of tree \<open>c\<close> are positions of times in \<open>A\<close> at which the byte is \<open>c\<close>.\<close>

definition nodes_in :: "u8 list \<Rightarrow> nat set \<Rightarrow> (nat \<Rightarrow> nat tree) \<Rightarrow> bool" where
  "nodes_in X A T \<longleftrightarrow> (\<forall>c<256. \<forall>p\<in>set_tree (T c). \<exists>v\<in>A. p = v mod 1024 \<and> v < length X \<and> unat (X ! v) = c)"

lemma nodes_inD: "nodes_in X A T \<Longrightarrow> p \<in> nodes T \<Longrightarrow> \<exists>v\<in>A. p = v mod 1024"
  by (fastforce simp: nodes_in_def nodes_def)

lemma nodes_in_append: "nodes_in X A T \<Longrightarrow> nodes_in (X @ ys) A T"
  unfolding nodes_in_def by (metis length_append nth_append trans_less_add1)

lemma unat_u8: "unat (x :: u8) < 256"
  using unsigned_less [where 'a = nat, of x] by simp

lemma insert_time:
  assumes "trees s T" "nodes_in X A T" "\<forall>v\<in>A. v mod 1024 \<noteq> u mod 1024" "u < length X" "textBuf s (u mod 1024) = X ! u"
  shows "\<exists>p l L R P T'. insertNode (u mod 1024) s = Some (matched p l s\<lparr>lchild := L, rchild := R, parent := P\<rparr>) \<and> forest L R P T'
    \<and> nodes_in X (insert u A) T' \<and> l \<le> 66
    \<and> (l = 0 \<or> (\<exists>v\<in>A. p = v mod 1024 \<and> v < length X \<and> X ! v = X ! u
          \<and> (\<forall>k. 1 \<le> k \<longrightarrow> k < l \<longrightarrow> textBuf s (p + k) = textBuf s (u mod 1024 + k))))"
proof -
  have "u mod 1024 \<notin> nodes T" using nodes_inD [OF assms(2)] assms(3) by metis
  from insertNode_ok [OF assms(1) _ this] obtain p l L R P t where
    i: "insertNode (u mod 1024) s = Some (matched p l s\<lparr>lchild := L, rchild := R, parent := P\<rparr>)"
      "forest L R P (T(unat (X ! u) := t))" "set_tree t \<subseteq> insert (u mod 1024) (set_tree (T (unat (X ! u))))"
      "match_at (textBuf s) (u mod 1024) (set_tree (T (unat (X ! u)))) p l"
    by (auto simp: assms(5))
  have "nodes_in X (insert u A) (T(unat (X ! u) := t))"
    unfolding nodes_in_def using assms(2,4) i(3) by (auto simp: nodes_in_def)
  moreover have "\<exists>v\<in>A. p = v mod 1024 \<and> v < length X \<and> X ! v = X ! u" if "p \<in> set_tree (T (unat (X ! u)))"
    using assms(2) that unat_u8 by (fastforce simp: nodes_in_def word_unat_eq_iff)
  ultimately show ?thesis using i(1,2,4) unfolding match_at_def by metis
qed

section \<open>The code buffer\<close>

lemma describes_append: "describes X u (cs @ ds) w \<longleftrightarrow> (\<exists>v. describes X u cs v \<and> describes X v ds w)"
  by (induction X u cs w rule: describes.induct) auto

lemma code_at_append: "code_at X u c \<Longrightarrow> code_at (X @ ys) u c"
proof (cases c)
  case (Ref p l)
  assume "code_at X u c"
  then obtain v where v: "v < u" "u \<le> v + LZ_N" "p = v mod LZ_N" "\<forall>i<l. X ! (v + i) = X ! (u + i)" "3 \<le> l" "l \<le> LZ_F" "u + l \<le> length X"
    unfolding Ref code_at.simps by (elim conjE exE) (rule that)
  then have "\<forall>i<l. (X @ ys) ! (v + i) = (X @ ys) ! (u + i)" by (simp add: nth_append)
  then show ?thesis unfolding Ref code_at.simps using v by auto
qed (auto simp: nth_append)

lemma describes_mono: "describes X u cs w \<Longrightarrow> describes (X @ ys) u cs w"
  by (induction X u cs w rule: describes.induct) (auto intro: code_at_append)

lemma code_len_bytes: "0 < length (code_bytes c)" "length (code_bytes c) \<le> 2"
  by (cases c; simp)+

lemma length_concat_bytes: "length (concat (map code_bytes g)) \<le> 2 * length g"
proof (induction g)
  case (Cons c g)
  then show ?case using code_len_bytes(2) [of c] by simp
qed simp

lemma group_flags_snoc: "group_flags (g @ [c]) = (if is_lit c then group_flags g OR push_bit (length g) 1 else group_flags g)"
proof -
  have "fold (\<lambda>k f. if is_lit ((g @ [c]) ! k) then f OR push_bit k 1 else f) [0..<length g] 0 = group_flags g"
    unfolding group_flags_def by (intro fold_cong) (auto simp: nth_append)
  then show ?thesis by (simp add: group_flags_def)
qed

lemma pack_snoc: "pack (gs @ [g]) = pack gs @ group_bytes g"
  by (induction gs) simp_all

text \<open>
  The groups \<open>gs\<close> are written, and the code buffer holds the begun group \<open>g\<close>: together they describe the
  history from its start to time \<open>E\<close>.
\<close>

definition codes_ok :: "u8 list \<Rightarrow> nat \<Rightarrow> lz_enc \<Rightarrow> bool" where
  "codes_ok X E s \<longleftrightarrow> (\<exists>gs g. list_all (\<lambda>h. length h = 8) gs \<and> length g < 8 \<and> describes X 958 (concat gs @ g) E
     \<and> outStream s = pack gs \<and> codeBufPtr s = Suc (length (concat (map code_bytes g)))
     \<and> map (codeBuf s) [0..<codeBufPtr s] = group_bytes g \<and> codeMask s = push_bit (length g) 1)"

lemma codes_ok_append: "codes_ok X E s \<Longrightarrow> codes_ok (X @ ys) E s"
  unfolding codes_ok_def using describes_mono by blast

lemma codes_ok_cong:
  assumes "codes_ok X E s" "outStream s' = outStream s" "codeBufPtr s' = codeBufPtr s" "codeBuf s' = codeBuf s" "codeMask s' = codeMask s"
  shows "codes_ok X E s'"
  using assms by (simp add: codes_ok_def)

text \<open>One code more: its bytes are in the buffer, the mask is shifted, and a full group is written.\<close>

definition unit_buf :: "lz_code \<Rightarrow> lz_enc \<Rightarrow> nat \<Rightarrow> u8" where
  "unit_buf c s i =
     (if codeBufPtr s \<le> i \<and> i < codeBufPtr s + length (code_bytes c) then code_bytes c ! (i - codeBufPtr s)
      else if i = 0 \<and> is_lit c then codeBuf s 0 OR codeMask s else codeBuf s i)"

definition put_unit :: "lz_code \<Rightarrow> lz_enc \<Rightarrow> lz_enc" where
  "put_unit c s =
     (let s = s\<lparr>codeBuf := unit_buf c s, codeBufPtr := codeBufPtr s + length (code_bytes c), codeMask := push_bit 1 (codeMask s)\<rparr>
      in if codeMask s = 0 then flushBuffer s else s)"

lemma codes_ok_unit:
  assumes "codes_ok X E s" "code_at X E c"
  shows "codes_ok X (E + code_len c) (put_unit c s)"
proof -
  obtain gs g where g: "list_all (\<lambda>h. length h = 8) gs" "length g < 8" "describes X 958 (concat gs @ g) E"
    "outStream s = pack gs" "codeBufPtr s = Suc (length (concat (map code_bytes g)))"
    "map (codeBuf s) [0..<codeBufPtr s] = group_bytes g" "codeMask s = push_bit (length g) 1"
    using assms(1) by (auto simp: codes_ok_def)
  let ?n = "codeBufPtr s" and ?b = "code_bytes c"
  let ?h = "unit_buf c s"
  have n0: "[0..<?n] = 0 # [1..<?n]" using g(5) by (simp add: upt_conv_Cons del: upt_Suc)
  have tl: "codeBuf s 0 = group_flags g" "map (codeBuf s) [1..<?n] = concat (map code_bytes g)"
    using g(6) unfolding n0 by (simp_all add: group_bytes_def)
  have "map ?h [1..<?n] = map (codeBuf s) [1..<?n]" by (rule map_cong) (auto simp: unit_buf_def)
  moreover have "?h 0 = group_flags (g @ [c])" using tl(1) g(5,7) by (simp add: unit_buf_def group_flags_snoc)
  moreover have "map ?h [?n..<?n + length ?b] = ?b" by (rule nth_equalityI) (simp_all add: unit_buf_def)
  moreover have "map ?h [0..<?n + length ?b] = ?h 0 # map ?h [1..<?n] @ map ?h [?n..<?n + length ?b]"
    by (simp only: upt_add_eq_append [OF le0] map_append n0 list.map append_Cons)
  ultimately have bytes: "map ?h [0..<?n + length ?b] = group_bytes (g @ [c])"
    using tl(2) by (simp only: group_bytes_def map_append concat_append list.map concat.simps append_Nil2)
  have mask: "push_bit 1 (codeMask s) = push_bit (Suc (length g)) 1" by (simp add: g(7) push_bit_push_bit)
  have desc: "describes X 958 (concat gs @ g @ [c]) (E + code_len c)"
    using g(3) assms(2) by (simp add: describes_append [of _ _ "concat gs @ g", simplified])
  show ?thesis
  proof (cases "length g = 7")
    case True
    then have m: "push_bit 1 (codeMask s) = 0" by (simp add: g(7))
    have "1 < ?n + length ?b" using g(5) code_len_bytes(1) [of c] by simp
    then have "put_unit c s = s\<lparr>outStream := outStream s @ group_bytes (g @ [c]), codeSize := codeSize s + of_nat (?n + length ?b),
      codeBuf := (?h)(0 := 0), codeBufPtr := 1, codeMask := 1\<rparr>"
      using m bytes by (simp add: put_unit_def flushBuffer_def)
    then show ?thesis unfolding codes_ok_def using g desc True
      by (intro exI [of _ "gs @ [g @ [c]]"] exI [of _ "[]"]) (simp add: pack_snoc group_bytes_def group_flags_def)
  next
    case False
    have "bit (push_bit (Suc (length g)) 1 :: u8) (Suc (length g))" using g(2) False by (simp only: bit_push_bit_iff) simp
    then have "(push_bit (Suc (length g)) 1 :: u8) \<noteq> 0" by (metis bit_0_eq bot_apply bot_bool_def)
    then have "put_unit c s = s\<lparr>codeBuf := ?h, codeBufPtr := ?n + length ?b, codeMask := push_bit (Suc (length g)) 1\<rparr>"
      using mask by (simp add: put_unit_def)
    then show ?thesis unfolding codes_ok_def using g desc False bytes
      by (intro exI [of _ gs] exI [of _ "g @ [c]"]) simp
  qed
qed


lemma codes_ok_ptr: "codes_ok X E s \<Longrightarrow> 0 < codeBufPtr s \<and> codeBufPtr s \<le> 15"
proof -
  assume "codes_ok X E s"
  then obtain g where g: "length g < 8" "codeBufPtr s = Suc (length (concat (map code_bytes g)))" by (auto simp: codes_ok_def)
  then have "length (concat (map code_bytes g)) \<le> 14" using length_concat_bytes [of g] by linarith
  with g(2) show ?thesis by simp
qed

section \<open>Encoding\<close>

text \<open>The match the last insertion has found is a match of the history at the current time.\<close>

definition match_ok :: "u8 list \<Rightarrow> nat \<Rightarrow> lz_enc \<Rightarrow> bool" where
  "match_ok X u s \<longleftrightarrow> matchLength s \<le> 66 \<and> (matchLength s = 0 \<or>
     (\<exists>v<u. u \<le> v + 1024 \<and> matchPosition s = v mod 1024 \<and> (\<forall>k<matchLength s. k < currLen s \<longrightarrow> X ! (v + k) = X ! (u + k))))"

abbreviation coded :: "lz_code \<Rightarrow> lz_enc \<Rightarrow> lz_enc" where
  "coded c s \<equiv> put_unit c (s\<lparr>matchLength := code_len c\<rparr>)\<lparr>lastMatchLength := code_len c\<rparr>"

lemma flush_match [simp]: "flushBuffer (s\<lparr>matchLength := x\<rparr>) = flushBuffer s\<lparr>matchLength := x\<rparr>" "matchLength (flushBuffer s) = matchLength s"
  by (simp_all add: flushBuffer_def)

lemma unit_buf_match [simp]: "unit_buf c (s\<lparr>matchLength := x\<rparr>) = unit_buf c s"
  by (rule ext) (auto simp: unit_buf_def)

lemma encode_Lit:
  assumes "currLen s \<noteq> 0" "min (matchLength s) (currLen s) \<le> 2" "currPos s < 1024" "0 < codeBufPtr s" "codeBufPtr s \<le> 15"
  shows "encode s = Some (coded (Lit (textBuf s (currPos s))) s)"
proof -
  let ?c = "Lit (textBuf s (currPos s))"
  have u: "unit_buf ?c s = (codeBuf s)(0 := codeBuf s 0 OR codeMask s, codeBufPtr s := textBuf s (currPos s))"
    using assms(4) by (auto simp: unit_buf_def is_lit_def fun_eq_iff)
  show ?thesis using assms u by (auto simp: encode_def put_code_def put_unit_def Let_def)
qed


lemma encode_Ref:
  assumes "l = min (matchLength s) (currLen s)" "2 < l" "0 < codeBufPtr s" "codeBufPtr s \<le> 15"
  shows "encode s = Some (coded (Ref (matchPosition s) l) s)"
proof -
  let ?c = "Ref (matchPosition s) l"
  define s0 where "s0 = s\<lparr>matchLength := l\<rparr>"
  have u: "unit_buf ?c s = (codeBuf s)(codeBufPtr s := of_nat (matchPosition s),
      Suc (codeBufPtr s) := of_nat ((drop_bit 2 (matchPosition s) AND 0xC0) OR (l - 3)))"
    by (auto simp: unit_buf_def is_lit_def fun_eq_iff nth_Cons')
  have s0: "(if matchLength s > currLen s then s\<lparr>matchLength := currLen s\<rparr> else s) = s0"
    using assms(1) by (simp add: s0_def)
  let ?s1 = "s0\<lparr>codeBuf := unit_buf ?c s, codeBufPtr := codeBufPtr s + 2\<rparr>"
  have put: "do { s \<leftarrow> put_code (of_nat (matchPosition s0)) s0;
      put_code (of_nat ((drop_bit 2 (matchPosition s) AND 0xC0) OR (matchLength s - 3))) s } = Some ?s1"
    unfolding u using assms(4) by (simp add: put_code_def s0_def)
  have c: "coded ?c s = (let s = ?s1\<lparr>codeMask := push_bit 1 (codeMask s)\<rparr>; s = (if codeMask s = 0 then flushBuffer s else s)
      in s\<lparr>lastMatchLength := matchLength s\<rparr>)"
    by (simp add: put_unit_def s0_def Let_def)
  have "currLen s \<noteq> 0" "\<not> matchLength s0 \<le> 2" "codeMask ?s1 = codeMask s" using assms(1,2) by (auto simp: s0_def)
  then show ?thesis unfolding encode_def s0 by (simp only: if_False Let_def put c bind.bind_lunit)
qed

lemma encode_ok:
  assumes "currLen s \<noteq> 0" "codes_ok X u s" "match_ok X u s" "textBuf s (currPos s) = X ! u" "currPos s < 1024"
    and "length X = u + currLen s"
  shows "\<exists>c. encode s = Some (coded c s) \<and> 0 < code_len c \<and> code_len c \<le> currLen s \<and> codes_ok X (u + code_len c) (coded c s)"
proof -
  note ptr = codes_ok_ptr [OF assms(2)]
  have "\<exists>c. encode s = Some (coded c s) \<and> 0 < code_len c \<and> code_len c \<le> currLen s \<and> code_at X u c"
  proof (cases "min (matchLength s) (currLen s) \<le> 2")
    case True
    then show ?thesis using encode_Lit [OF assms(1) True assms(5)] ptr assms(1,4,6)
      by (intro exI [of _ "Lit (textBuf s (currPos s))"]) simp
  next
    case False
    let ?l = "min (matchLength s) (currLen s)"
    obtain v where v: "matchLength s \<le> 66" "v < u" "u \<le> v + 1024" "matchPosition s = v mod 1024"
      "\<forall>k<matchLength s. k < currLen s \<longrightarrow> X ! (v + k) = X ! (u + k)"
      using assms(3) False by (auto simp: match_ok_def)
    have "code_at X u (Ref (matchPosition s) ?l)"
      unfolding code_at.simps using v False assms(6) by (intro conjI exI [of _ v]) auto
    then show ?thesis using encode_Ref [OF refl, of s] ptr False by (intro exI [of _ "Ref (matchPosition s) ?l"]) simp
  qed
  moreover have "codes_ok X (u + code_len c) (coded c s)" if "code_at X u c" for c
  proof -
    have "codes_ok X u (s\<lparr>matchLength := code_len c\<rparr>)" by (rule codes_ok_cong [OF assms(2)]) simp_all
    from codes_ok_unit [OF this that] show ?thesis by (rule codes_ok_cong) simp_all
  qed
  ultimately show ?thesis by blast
qed

section \<open>The invariant of the compressor\<close>

text \<open>
  The current time is \<open>u\<close>; \<open>currLen\<close> bytes from there on are in the buffer. The trees hold positions of the
  times from \<open>u - 958\<close> on.
\<close>

definition window_ok :: "u8 list \<Rightarrow> nat \<Rightarrow> lz_enc \<Rightarrow> bool" where
  "window_ok X u s \<longleftrightarrow> 958 \<le> u \<and> currLen s \<le> 66 \<and> length X = u + currLen s \<and> currPos s = u mod 1024
     \<and> killPos s = (u + 66) mod 1024 \<and> buf_holds (textBuf s) X"

definition trees_ok :: "u8 list \<Rightarrow> nat set \<Rightarrow> lz_enc \<Rightarrow> bool" where
  "trees_ok X A s \<longleftrightarrow> (\<exists>T. trees s T \<and> nodes_in X A T)"

lemma window_pos: "window_ok X u s \<Longrightarrow> currPos s < 1024" "window_ok X u s \<Longrightarrow> killPos s < 1024"
  by (simp_all add: window_ok_def)

lemma window_byte: "window_ok X u s \<Longrightarrow> currLen s \<noteq> 0 \<Longrightarrow> textBuf s (currPos s) = X ! u"
  using buf_read [of "textBuf s" X 0 u] by (simp add: window_ok_def)

lemma window_cong:
  assumes "window_ok X u s" "currLen s' = currLen s" "currPos s' = currPos s" "killPos s' = killPos s" "textBuf s' = textBuf s"
  shows "window_ok X u s'"
  using assms by (simp add: window_ok_def)

lemma trees_cong:
  assumes "trees_ok X A s" "lchild s' = lchild s" "rchild s' = rchild s" "parent s' = parent s"
  shows "trees_ok X A s'"
  using assms by (simp add: trees_ok_def)

text \<open>Fields that the tree operations leave unchanged, and those that the encoding leaves unchanged.\<close>

definition same_rest :: "lz_enc \<Rightarrow> lz_enc \<Rightarrow> bool" where
  "same_rest s s' \<longleftrightarrow> s' = s\<lparr>matchPosition := matchPosition s', matchLength := matchLength s',
     lchild := lchild s', rchild := rchild s', parent := parent s'\<rparr>"

lemma same_restD:
  assumes "same_rest s s'"
  shows "textBuf s' = textBuf s" "lastMatchLength s' = lastMatchLength s" "codeBufPtr s' = codeBufPtr s" "codeBuf s' = codeBuf s"
    "codeMask s' = codeMask s" "currLen s' = currLen s" "currPos s' = currPos s" "killPos s' = killPos s"
    "writeCount s' = writeCount s" "outStream s' = outStream s"
  using assms by (simp_all only: same_rest_def) (cases s; cases s'; simp)+

lemma same_rest_trans: "same_rest s s' \<Longrightarrow> same_rest s' s'' \<Longrightarrow> same_rest s s''"
  by (cases s; cases s'; cases s'') (auto simp: same_rest_def)

lemma current_insert:
  assumes "window_ok X u s" "trees_ok X {u - 958..<u} s" "currLen s \<noteq> 0"
  shows "\<exists>s'. insertNode (currPos s) s = Some s' \<and> same_rest s s' \<and> trees_ok X {u - 958..u} s' \<and> match_ok X u s'"
proof -
  obtain T where T: "trees s T" "nodes_in X {u - 958..<u} T" using assms(2) by (auto simp: trees_ok_def)
  have w: "958 \<le> u" "currLen s \<le> 66" "length X = u + currLen s" "currPos s = u mod 1024" "buf_holds (textBuf s) X"
    using assms(1) by (simp_all add: window_ok_def)
  have "\<forall>v\<in>{u - 958..<u}. v mod 1024 \<noteq> u mod 1024"
    using ring_mod_eq [of _ 1024 u] by fastforce
  moreover have "u < length X" "textBuf s (u mod 1024) = X ! u" using w assms(3) window_byte [OF assms(1,3)] by simp_all
  ultimately have "\<exists>p l L R P T'. insertNode (u mod 1024) s = Some (matched p l s\<lparr>lchild := L, rchild := R, parent := P\<rparr>) \<and> forest L R P T'
    \<and> nodes_in X (insert u {u - 958..<u}) T' \<and> l \<le> 66
    \<and> (l = 0 \<or> (\<exists>v\<in>{u - 958..<u}. p = v mod 1024 \<and> v < length X \<and> X ! v = X ! u
          \<and> (\<forall>k. 1 \<le> k \<longrightarrow> k < l \<longrightarrow> textBuf s (p + k) = textBuf s (u mod 1024 + k))))"
    by (intro insert_time [OF T])
  then obtain p l L R P T' where
    i: "insertNode (u mod 1024) s = Some (matched p l s\<lparr>lchild := L, rchild := R, parent := P\<rparr>)" "forest L R P T'"
      "nodes_in X (insert u {u - 958..<u}) T'" "l \<le> 66"
      "l = 0 \<or> (\<exists>v\<in>{u - 958..<u}. p = v mod 1024 \<and> v < length X \<and> X ! v = X ! u
          \<and> (\<forall>k. 1 \<le> k \<longrightarrow> k < l \<longrightarrow> textBuf s (p + k) = textBuf s (u mod 1024 + k)))"
    by (elim exE conjE)
  let ?s = "matched p l s\<lparr>lchild := L, rchild := R, parent := P\<rparr>"
  have "insert u {u - 958..<u} = {u - 958..u}" by auto
  then have t: "trees_ok X {u - 958..u} ?s" using i(2,3) by (auto simp: trees_ok_def)
  have "match_ok X u ?s"
  proof (cases "l = 0")
    case False
    then obtain v where v: "u - 958 \<le> v" "v < u" "p = v mod 1024" "X ! v = X ! u"
      "\<forall>k. 1 \<le> k \<longrightarrow> k < l \<longrightarrow> textBuf s (p + k) = textBuf s (u mod 1024 + k)" using i(5) by auto
    have "X ! (v + k) = X ! (u + k)" if k: "k < l" "k < currLen s" for k
    proof (cases k)
      case (Suc j)
      have "textBuf s (p + k) = X ! (v + k)" unfolding v(3) by (rule buf_read [OF w(5)]) (use k v w i(4) in linarith)+
      moreover have "textBuf s (u mod 1024 + k) = X ! (u + k)" by (rule buf_read [OF w(5)]) (use k v w i(4) in linarith)+
      ultimately show ?thesis using v(5) [rule_format, of k] k(1) Suc by simp
    qed (use v(4) in simp)
    then show ?thesis using v w i(4) by (auto simp: match_ok_def intro!: exI [of _ v])
  qed (simp add: match_ok_def)
  moreover have "same_rest s ?s" by (simp add: same_rest_def)
  ultimately show ?thesis using i(1) t w(4) by auto
qed

lemma kill_delete:
  assumes "window_ok X u s" "trees_ok X {u - 958..u} s"
  shows "\<exists>s'. deleteNode (killPos s) s = Some s' \<and> same_rest s s' \<and> matchLength s' = matchLength s \<and> trees_ok X {Suc u - 958..u} s'"
proof -
  obtain T where T: "trees s T" "nodes_in X {u - 958..u} T" using assms(2) by (auto simp: trees_ok_def)
  from deleteNode_ok [OF T(1) window_pos(2) [OF assms(1)]] obtain L R P T' where
    d: "deleteNode (killPos s) s = Some (s\<lparr>lchild := L, rchild := R, parent := P\<rparr>)" "forest L R P T'"
      "\<forall>c<256. set_tree (T' c) \<subseteq> set_tree (T c) - {killPos s}" by blast
  have u: "958 \<le> u" "killPos s = (u + 66) mod 1024" using assms(1) by (simp_all add: window_ok_def)
  have "u + 66 = (u - 958) + 1024" using u(1) by simp
  then have k: "killPos s = (u - 958) mod 1024" by (simp only: u(2) mod_add_self2)
  have "nodes_in X {Suc u - 958..u} T'"
    unfolding nodes_in_def
  proof (intro allI impI ballI)
    fix c p assume c: "c < (256 :: nat)" "p \<in> set_tree (T' c)"
    then have p: "p \<in> set_tree (T c)" "p \<noteq> killPos s" using d(3) by auto
    then obtain v where v: "v \<in> {u - 958..u}" "p = v mod 1024" "v < length X" "unat (X ! v) = c"
      using T(2) c(1) unfolding nodes_in_def by blast
    then have "v \<noteq> u - 958" using p(2) k by auto
    then have "v \<in> {Suc u - 958..u}" using v(1) u(1) by auto
    with v show "\<exists>v\<in>{Suc u - 958..u}. p = v mod 1024 \<and> v < length X \<and> unat (X ! v) = c" by blast
  qed
  then have "trees_ok X {Suc u - 958..u} (s\<lparr>lchild := L, rchild := R, parent := P\<rparr>)" using d(2) by (auto simp: trees_ok_def)
  moreover have "same_rest s (s\<lparr>lchild := L, rchild := R, parent := P\<rparr>)" by (simp add: same_rest_def)
  ultimately show ?thesis using d(1) by auto
qed

lemma put_unit_frame [simp]:
  "textBuf (put_unit c s) = textBuf s" "currLen (put_unit c s) = currLen s" "currPos (put_unit c s) = currPos s"
  "killPos (put_unit c s) = killPos s" "lchild (put_unit c s) = lchild s" "rchild (put_unit c s) = rchild s"
  "parent (put_unit c s) = parent s" "writeCount (put_unit c s) = writeCount s"
  by (simp_all add: put_unit_def flushBuffer_def Let_def)

text \<open>
  Between two codes: the codes reach to time \<open>E\<close>, which is ahead of the current time by the bytes of the
  last code that the window has not yet moved over.
\<close>

definition comp_inv :: "u8 list \<Rightarrow> nat \<Rightarrow> nat \<Rightarrow> lz_enc \<Rightarrow> bool" where
  "comp_inv X u E s \<longleftrightarrow> window_ok X u s \<and> trees_ok X {u - 958..u} s \<and> codes_ok X E s
     \<and> E + writeCount s = u + lastMatchLength s \<and> E \<le> length X"

lemma encode_step:
  assumes "window_ok X u s" "trees_ok X {u - 958..u} s" "codes_ok X u s" "match_ok X u s" "currLen s \<noteq> 0"
  shows "\<exists>s' E. encode s = Some s' \<and> currLen s' = currLen s \<and> 0 < lastMatchLength s' \<and> comp_inv X u E (s'\<lparr>writeCount := 0\<rparr>)
    \<and> writeCount s' = writeCount s"
proof -
  have "length X = u + currLen s" using assms(1) by (simp add: window_ok_def)
  from encode_ok [OF assms(5,3,4) window_byte [OF assms(1,5)] window_pos(1) [OF assms(1)] this] obtain c where
    c: "encode s = Some (coded c s)" "0 < code_len c" "code_len c \<le> currLen s" "codes_ok X (u + code_len c) (coded c s)" by blast
  have "window_ok X u (coded c s\<lparr>writeCount := 0\<rparr>)" by (rule window_cong [OF assms(1)]) simp_all
  moreover have "trees_ok X {u - 958..u} (coded c s\<lparr>writeCount := 0\<rparr>)" by (rule trees_cong [OF assms(2)]) simp_all
  moreover have "codes_ok X (u + code_len c) (coded c s\<lparr>writeCount := 0\<rparr>)" by (rule codes_ok_cong [OF c(4)]) simp_all
  ultimately have "comp_inv X u (u + code_len c) (coded c s\<lparr>writeCount := 0\<rparr>)"
    using c(3) \<open>length X = u + currLen s\<close> by (simp add: comp_inv_def)
  with c show ?thesis by (intro exI [of _ "coded c s"] exI [of _ "u + code_len c"]) simp
qed

lemma and_1023_nat: "(n :: nat) AND 1023 = n mod 1024"
proof -
  have "(1023 :: nat) = mask 10" by (simp add: mask_eq_exp_minus_1)
  then show ?thesis by (simp only: take_bit_eq_mask [symmetric]) (simp add: take_bit_eq_mod)
qed

lemma advance_pos:
  assumes "currPos s = u mod 1024" "killPos s = (u + 66) mod 1024"
  shows "advance s = s\<lparr>killPos := (Suc u + 66) mod 1024, currPos := Suc u mod 1024\<rparr>"
  using assms by (simp add: advance_def and_1023_nat mod_Suc_eq)

text \<open>The window moves on by one byte, with a new byte at its end or without.\<close>

lemma write_window:
  assumes "comp_inv X u E s" "currLen s = 66"
  shows "\<exists>s'. lz_write b s = (if writeCount s' = lastMatchLength s' then do { s \<leftarrow> encode s'; Some (s\<lparr>writeCount := 0\<rparr>) } else Some s')
    \<and> window_ok (X @ [b]) (Suc u) s' \<and> trees_ok (X @ [b]) {Suc u - 958..Suc u} s' \<and> codes_ok (X @ [b]) E s' \<and> match_ok (X @ [b]) (Suc u) s'
    \<and> lastMatchLength s' = lastMatchLength s \<and> writeCount s' = Suc (writeCount s) \<and> currLen s' = 66"
proof -
  note inv = assms(1) [unfolded comp_inv_def]
  define s0 where "s0 = s\<lparr>textSize := textSize s + 1\<rparr>"
  have w0: "window_ok X u s0" by (rule window_cong [of X u s]) (use inv in \<open>simp_all add: s0_def\<close>)
  have "trees_ok X {u - 958..u} s0" by (rule trees_cong [of X _ s]) (use inv in \<open>simp_all add: s0_def\<close>)
  from kill_delete [OF w0 this] obtain s1 where
    s1: "deleteNode (killPos s0) s0 = Some s1" "same_rest s0 s1" "trees_ok X {Suc u - 958..u} s1" by blast
  note f1 = same_restD [OF s1(2)]
  have w: "958 \<le> u" "currPos s1 = u mod 1024" "killPos s1 = (u + 66) mod 1024" "buf_holds (textBuf s1) X" "length X = u + 66"
    "currLen s1 = 66" using w0 assms(2) f1 by (simp_all add: window_ok_def s0_def)
  define f where "f = (if killPos s1 < 65 then (textBuf s1)(killPos s1 := b, killPos s1 + 1024 := b) else (textBuf s1)(killPos s1 := b))"
  define s2 where "s2 = s1\<lparr>textBuf := f, killPos := (Suc u + 66) mod 1024, currPos := Suc u mod 1024\<rparr>"
  have "f = (if 1024 \<le> length X \<and> length X mod 1024 < 65
      then (textBuf s1)(length X mod 1024 := b, length X mod 1024 + 1024 := b) else (textBuf s1)(length X mod 1024 := b))"
    using w(1,3,5) by (simp add: f_def)
  then have "buf_holds f (X @ [b])" using buf_write [OF w(4), of b] by simp
  then have w2: "window_ok (X @ [b]) (Suc u) s2" using w by (simp add: window_ok_def s2_def)
  have "{Suc u - 958..u} = {Suc u - 958..<Suc u}" by auto
  moreover have "trees_ok (X @ [b]) {Suc u - 958..u} s2"
    using s1(3) nodes_in_append by (auto simp: trees_ok_def s2_def)
  ultimately have t2: "trees_ok (X @ [b]) {Suc u - 958..<Suc u} s2" by simp
  have "currLen s2 \<noteq> 0" using w(6) by (simp add: s2_def)
  from current_insert [OF w2 t2 this] obtain s3 where
    s3: "insertNode (currPos s2) s2 = Some s3" "same_rest s2 s3" "trees_ok (X @ [b]) {Suc u - 958..Suc u} s3" "match_ok (X @ [b]) (Suc u) s3"
    by blast
  note f3 = same_restD [OF s3(2)]
  define s4 where "s4 = s3\<lparr>writeCount := writeCount s3 + 1\<rparr>"
  have w4: "window_ok (X @ [b]) (Suc u) s4" by (rule window_cong [OF w2]) (simp_all add: s4_def f3)
  have t4: "trees_ok (X @ [b]) {Suc u - 958..Suc u} s4" by (rule trees_cong [OF s3(3)]) (simp_all add: s4_def)
  have c4: "codes_ok (X @ [b]) E s4" 
    by (rule codes_ok_append, rule codes_ok_cong [of X E s]) (use inv in \<open>simp_all add: s4_def f3 s2_def f1 s0_def\<close>)
  have m4: "match_ok (X @ [b]) (Suc u) s4" using s3(4) by (simp add: match_ok_def s4_def)
  have l4: "lastMatchLength s4 = lastMatchLength s" "writeCount s4 = Suc (writeCount s)" "currLen s4 = 66"
    using w(6) by (simp_all add: s4_def f3 s2_def f1 s0_def)
  have wr: "lz_write b s = (if writeCount s4 = lastMatchLength s4 then do { s \<leftarrow> encode s4; Some (s\<lparr>writeCount := 0\<rparr>) } else Some s4)"
  proof -
    have "advance (s1\<lparr>textBuf := f\<rparr>) = s2" using advance_pos [of "s1\<lparr>textBuf := f\<rparr>" u] w(2,3) by (simp add: s2_def)
    then have "advance (let s = s1\<lparr>textBuf := (textBuf s1)(killPos s1 := b)\<rparr>
        in if killPos s < 65 then s\<lparr>textBuf := (textBuf s)(killPos s + 1024 := b)\<rparr> else s) = s2" by (simp add: f_def Let_def split: if_splits)
    moreover have "killPos s1 < 1089" "currLen s0 = 66" using w(3) assms(2) by (simp_all add: s0_def)
    ultimately show ?thesis using s1(1) s3(1)
      by (simp add: lz_write_def s0_def [symmetric] Let_def) (simp add: s4_def)
  qed
  show ?thesis using wr w4 t4 c4 m4 l4 by blast
qed

lemma write_step:
  assumes "comp_inv X u E s" "currLen s = 66" "writeCount s < lastMatchLength s"
  shows "\<exists>s' u' E'. lz_write b s = Some s' \<and> comp_inv (X @ [b]) u' E' s' \<and> currLen s' = 66 \<and> writeCount s' < lastMatchLength s'"
proof -
  obtain s1 where s1: "lz_write b s = (if writeCount s1 = lastMatchLength s1 then do { s \<leftarrow> encode s1; Some (s\<lparr>writeCount := 0\<rparr>) } else Some s1)"
    "window_ok (X @ [b]) (Suc u) s1" "trees_ok (X @ [b]) {Suc u - 958..Suc u} s1" "codes_ok (X @ [b]) E s1" "match_ok (X @ [b]) (Suc u) s1"
    "lastMatchLength s1 = lastMatchLength s" "writeCount s1 = Suc (writeCount s)" "currLen s1 = 66"
    using write_window [OF assms(1,2)] by blast
  have E: "E + writeCount s = u + lastMatchLength s" "E \<le> length X" using assms(1) by (simp_all add: comp_inv_def)
  show ?thesis
  proof (cases "writeCount s1 = lastMatchLength s1")
    case True
    then have "E = Suc u" using E(1) s1(6,7) by simp
    with s1 encode_step [OF s1(2,3)] obtain s2 E' where "encode s1 = Some s2" "currLen s2 = 66" "0 < lastMatchLength s2"
      "comp_inv (X @ [b]) (Suc u) E' (s2\<lparr>writeCount := 0\<rparr>)" by auto
    then show ?thesis using s1(1) True
      by (intro exI [of _ "s2\<lparr>writeCount := 0\<rparr>"] exI [of _ "Suc u"] exI [of _ E']) simp
  next
    case False
    then have "comp_inv (X @ [b]) (Suc u) E s1" using s1 E by (simp add: comp_inv_def)
    then show ?thesis using s1 False assms(3) by (intro exI [of _ s1] exI [of _ "Suc u"] exI [of _ E]) simp
  qed
qed

text \<open>The first bytes: the window is filled, and then the trees get their first strings.\<close>

definition fill_inv :: "u8 list \<Rightarrow> lz_enc \<Rightarrow> bool" where
  "fill_inv X s \<longleftrightarrow> window_ok X 958 s \<and> currLen s < 66 \<and> trees_ok X {} s \<and> codes_ok X 958 s
     \<and> writeCount s = 0 \<and> lastMatchLength s = 0 \<and> matchLength s = 0"

lemma insert_before_ok:
  assumes "buf_holds (textBuf s) X" "currPos s = 958" "length X = 1024" "trees_ok X {958 - k..<958} s" "k \<le> 66"
  shows "\<exists>s'. insert_before [Suc k..<67] s = Some s' \<and> same_rest s s' \<and> trees_ok X {958 - 66..<958} s'"
  using assms
proof (induction "66 - k" arbitrary: k s)
  case 0
  then show ?case by (auto simp: same_rest_def)
next
  case (Suc n)
  then have k: "k < 66" by simp
  obtain T where T: "trees s T" "nodes_in X {958 - k..<958} T" using Suc.prems(4) by (auto simp: trees_ok_def)
  let ?u = "958 - Suc k"
  have ins: "insert ?u {958 - k..<958} = {?u..<958}" using k by auto
  have "\<exists>p l L R P T'. insertNode (?u mod 1024) s = Some (matched p l s\<lparr>lchild := L, rchild := R, parent := P\<rparr>) \<and> forest L R P T'
    \<and> nodes_in X (insert ?u {958 - k..<958}) T' \<and> l \<le> 66
    \<and> (l = 0 \<or> (\<exists>v\<in>{958 - k..<958}. p = v mod 1024 \<and> v < length X \<and> X ! v = X ! ?u
          \<and> (\<forall>k. 1 \<le> k \<longrightarrow> k < l \<longrightarrow> textBuf s (p + k) = textBuf s (?u mod 1024 + k))))"
  proof (rule insert_time [OF T])
    show "textBuf s (?u mod 1024) = X ! ?u" using buf_read [OF Suc.prems(1), of 0 ?u] Suc.prems(3) by simp
  qed (use Suc.prems(3) k in auto)
  then obtain p l L R P T' where i: "insertNode (?u mod 1024) s = Some (matched p l s\<lparr>lchild := L, rchild := R, parent := P\<rparr>)"
    "forest L R P T'" "nodes_in X (insert ?u {958 - k..<958}) T'" by (elim exE conjE)
  define s1 where "s1 = matched p l s\<lparr>lchild := L, rchild := R, parent := P\<rparr>"
  have s1: "insertNode ?u s = Some s1" "same_rest s s1" "trees_ok X {?u..<958} s1"
    using i unfolding ins by (simp_all add: s1_def same_rest_def) (auto simp: trees_ok_def)
  note f1 = same_restD [OF s1(2)]
  have "\<exists>s'. insert_before [Suc (Suc k)..<67] s1 = Some s' \<and> same_rest s1 s' \<and> trees_ok X {958 - 66..<958} s'"
    by (rule Suc.hyps(1)) (use Suc.prems Suc.hyps(2) s1 f1 k in auto)
  then obtain s' where "insert_before [Suc (Suc k)..<67] s1 = Some s'" "same_rest s1 s'" "trees_ok X {958 - 66..<958} s'" by blast
  moreover have "same_rest s s'" using same_rest_trans [OF s1(2) calculation(2)] .
  ultimately show ?case using s1(1) Suc.prems(2) k by (simp add: upt_conv_Cons)
qed

lemma trees_mono: "trees_ok X A s \<Longrightarrow> A \<subseteq> B \<Longrightarrow> trees_ok X B s"
  unfolding trees_ok_def nodes_in_def by (meson subsetD)

definition comp_running :: "u8 list \<Rightarrow> lz_enc \<Rightarrow> bool" where
  "comp_running X s \<longleftrightarrow> (\<exists>u E. comp_inv X u E s) \<and> currLen s = 66 \<and> writeCount s < lastMatchLength s"

lemma fill_step:
  assumes "fill_inv X s"
  shows "\<exists>s'. lz_write b s = Some s' \<and> (fill_inv (X @ [b]) s' \<or> comp_running (X @ [b]) s')"
proof -
  note inv = assms [unfolded fill_inv_def]
  define s1 where "s1 = s\<lparr>textSize := textSize s + 1, textBuf := (textBuf s)(currPos s + currLen s := b), currLen := currLen s + 1\<rparr>"
  have w: "length X = 958 + currLen s" "currPos s = 958" "killPos s = 0" "buf_holds (textBuf s) X" "currLen s < 66"
    using inv by (simp_all add: window_ok_def)
  have "buf_holds (textBuf s1) (X @ [b])" using buf_write [OF w(4), of b] w(1,2,5) by (simp add: s1_def)
  then have w1: "window_ok (X @ [b]) 958 s1" using w by (simp add: window_ok_def s1_def)
  have t1: "trees_ok (X @ [b]) {} s1" using inv nodes_in_append by (auto simp: trees_ok_def s1_def)
  have c1: "codes_ok (X @ [b]) 958 s1"
    by (rule codes_ok_append, rule codes_ok_cong [of X 958 s]) (use inv in \<open>simp_all add: s1_def\<close>)
  have wr: "lz_write b s = (if currLen s1 = 66 then do { s \<leftarrow> insert_before [1..<67] s1; s \<leftarrow> insertNode (currPos s) s; encode s } else Some s1)"
    using w(2,5) by (simp add: lz_write_def s1_def Let_def)
  show ?thesis
  proof (cases "currLen s1 = 66")
    case False
    then have "fill_inv (X @ [b]) s1" using w1 t1 c1 inv by (simp add: fill_inv_def s1_def)
    then show ?thesis using wr False by auto
  next
    case True
    have "length (X @ [b]) = 1024" "currPos s1 = 958" using True w by (simp_all add: s1_def)
    then obtain s2 where s2: "insert_before [1..<67] s1 = Some s2" "same_rest s1 s2" "trees_ok (X @ [b]) {958 - 66..<958} s2"
      using insert_before_ok [of s1 "X @ [b]" 0] w1 t1 by (auto simp: window_ok_def)
    note f2 = same_restD [OF s2(2)]
    have w2: "window_ok (X @ [b]) 958 s2" by (rule window_cong [OF w1]) (simp_all add: f2)
    have t2: "trees_ok (X @ [b]) {958 - 958..<958} s2" by (rule trees_mono [OF s2(3)]) auto
    have "currLen s2 \<noteq> 0" using True f2 by simp
    from current_insert [OF w2 t2 this] obtain s3 where s3: "insertNode (currPos s2) s2 = Some s3" "same_rest s2 s3"
      "trees_ok (X @ [b]) {958 - 958..958} s3" "match_ok (X @ [b]) 958 s3" by blast
    note f3 = same_restD [OF s3(2)]
    have w3: "window_ok (X @ [b]) 958 s3" by (rule window_cong [OF w2]) (simp_all add: f3)
    have c3: "codes_ok (X @ [b]) 958 s3" by (rule codes_ok_cong [OF c1]) (simp_all add: f2 f3)
    have l3: "currLen s3 = 66" "writeCount s3 = 0" using True inv f2 f3 by (simp_all add: s1_def)
    obtain s4 E where s4: "encode s3 = Some s4" "currLen s4 = 66" "0 < lastMatchLength s4" "comp_inv (X @ [b]) 958 E (s4\<lparr>writeCount := 0\<rparr>)"
      "writeCount s4 = 0" using encode_step [OF w3 s3(3) c3 s3(4)] l3 by auto
    have "s4\<lparr>writeCount := 0\<rparr> = s4" using s4(5) by (cases s4) simp
    then have "comp_inv (X @ [b]) 958 E s4" using s4(4) by metis
    then have "comp_running (X @ [b]) s4" using s4 unfolding comp_running_def by auto
    then show ?thesis using wr True s2(1) s3(1) s4(1) by simp
  qed
qed

lemma writes_ok:
  assumes "fill_inv X s \<or> comp_running X s"
  shows "\<exists>s'. lz_writes bs s = Some s' \<and> (fill_inv (X @ bs) s' \<or> comp_running (X @ bs) s')"
  using assms
proof (induction bs arbitrary: X s)
  case (Cons b bs)
  have "\<exists>s'. lz_write b s = Some s' \<and> (fill_inv (X @ [b]) s' \<or> comp_running (X @ [b]) s')"
    using Cons.prems fill_step write_step unfolding comp_running_def by blast
  then obtain s' where "lz_write b s = Some s'" "fill_inv (X @ [b]) s' \<or> comp_running (X @ [b]) s'" by blast
  with Cons.IH [OF this(2)] show ?case by simp
qed simp

section \<open>The end of the text\<close>

lemma finish_move:
  assumes "comp_inv X u E s" "writeCount s < lastMatchLength s"
  shows "\<exists>s'. finish_shift s = finish_shift s' \<and> comp_inv X (Suc u) E s' \<and> lastMatchLength s' = lastMatchLength s
    \<and> writeCount s' = Suc (writeCount s) \<and> currLen s' = currLen s - 1 \<and> (currLen s' \<noteq> 0 \<longrightarrow> match_ok X (Suc u) s')"
proof -
  note inv = assms(1) [unfolded comp_inv_def]
  define s0 where "s0 = s\<lparr>writeCount := writeCount s + 1\<rparr>"
  have w0: "window_ok X u s0" by (rule window_cong [of X u s]) (use inv in \<open>simp_all add: s0_def\<close>)
  have "trees_ok X {u - 958..u} s0" by (rule trees_cong [of X _ s]) (use inv in \<open>simp_all add: s0_def\<close>)
  from kill_delete [OF w0 this] obtain s1 where
    s1: "deleteNode (killPos s0) s0 = Some s1" "same_rest s0 s1" "trees_ok X {Suc u - 958..u} s1" by blast
  note f1 = same_restD [OF s1(2)]
  have w: "958 \<le> u" "currPos s1 = u mod 1024" "killPos s1 = (u + 66) mod 1024" "buf_holds (textBuf s1) X" "length X = u + currLen s1"
    "currLen s1 \<le> 66" "currLen s1 = currLen s" using w0 f1 by (simp_all add: window_ok_def s0_def)
  have len: "currLen s \<noteq> 0" using inv assms(2) w(5,7) by linarith
  define s2 where "s2 = s1\<lparr>killPos := (Suc u + 66) mod 1024, currPos := Suc u mod 1024, currLen := currLen s1 - 1\<rparr>"
  have w2: "window_ok X (Suc u) s2" using w len by (simp add: window_ok_def s2_def)
  have "trees_ok X {Suc u - 958..u} s2" by (rule trees_cong [OF s1(3)]) (simp_all add: s2_def)
  moreover have "{Suc u - 958..u} = {Suc u - 958..<Suc u}" by auto
  ultimately have t2: "trees_ok X {Suc u - 958..<Suc u} s2" by simp
  have shift: "finish_shift s = do { s \<leftarrow> (if currLen s2 > 0 then insertNode (currPos s2) s2 else Some s2); finish_shift s }"
  proof -
    have "deleteNode (killPos s) (s\<lparr>writeCount := Suc (writeCount s)\<rparr>) = Some s1" using s1(1) by (simp add: s0_def)
    then show ?thesis using advance_pos [OF w(2,3)] assms(2) len
      by (subst finish_shift.simps) (simp add: s2_def)
  qed
  obtain s3 where s3: "(if currLen s2 > 0 then insertNode (currPos s2) s2 else Some s2) = Some s3" "same_rest s2 s3"
    "trees_ok X {Suc u - 958..Suc u} s3" "currLen s2 \<noteq> 0 \<longrightarrow> match_ok X (Suc u) s3"
  proof (cases "currLen s2 = 0")
    case True
    have "trees_ok X {Suc u - 958..Suc u} s2" by (rule trees_mono [OF t2]) auto
    then show ?thesis using that [of s2] True by (simp add: same_rest_def)
  next
    case False
    then show ?thesis using current_insert [OF w2 t2] that by auto
  qed
  note f3 = same_restD [OF s3(2)]
  have "window_ok X (Suc u) s3" by (rule window_cong [OF w2]) (simp_all add: f3)
  moreover have "codes_ok X E s3" by (rule codes_ok_cong [of X E s]) (use inv in \<open>simp_all add: f3 s2_def f1 s0_def\<close>)
  moreover have l: "lastMatchLength s3 = lastMatchLength s" "writeCount s3 = Suc (writeCount s)" "currLen s3 = currLen s - 1" "currLen s3 = currLen s2"
    by (simp_all add: f3 s2_def f1 s0_def)
  ultimately have "comp_inv X (Suc u) E s3" using inv s3(3) by (simp add: comp_inv_def)
  then show ?thesis using shift s3 l by (intro exI [of _ s3]) simp
qed

lemma finish_shift_ok:
  assumes "comp_inv X u E s" "writeCount s \<le> lastMatchLength s"
  shows "\<exists>s'. finish_shift s = Some s' \<and> window_ok X E s' \<and> trees_ok X {E - 958..E} s' \<and> codes_ok X E s'
    \<and> (writeCount s < lastMatchLength s \<or> match_ok X u s \<longrightarrow> currLen s' \<noteq> 0 \<longrightarrow> match_ok X E s')"
  using assms
proof (induction "lastMatchLength s - writeCount s" arbitrary: u s)
  case 0
  then have e: "writeCount s = lastMatchLength s" by simp
  let ?s = "s\<lparr>writeCount := writeCount s + 1\<rparr>"
  have "finish_shift s = Some ?s" using e by (subst finish_shift.simps) simp
  moreover have u: "u = E" using 0(2) e by (simp add: comp_inv_def)
  moreover have "window_ok X u ?s" by (rule window_cong [of X u s]) (use 0(2) in \<open>simp_all add: comp_inv_def\<close>)
  moreover have "trees_ok X {u - 958..u} ?s" by (rule trees_cong [of X _ s]) (use 0(2) in \<open>simp_all add: comp_inv_def\<close>)
  moreover have "codes_ok X E ?s" by (rule codes_ok_cong [of X E s]) (use 0(2) in \<open>simp_all add: comp_inv_def\<close>)
  ultimately show ?case using e by (simp add: match_ok_def)
next
  case (Suc n)
  then have "writeCount s < lastMatchLength s" by simp
  from finish_move [OF Suc.prems(1) this] obtain s1 where s1: "finish_shift s = finish_shift s1" "comp_inv X (Suc u) E s1"
    "lastMatchLength s1 = lastMatchLength s" "writeCount s1 = Suc (writeCount s)" "currLen s1 \<noteq> 0 \<longrightarrow> match_ok X (Suc u) s1" by blast
  have "\<exists>s'. finish_shift s1 = Some s' \<and> window_ok X E s' \<and> trees_ok X {E - 958..E} s' \<and> codes_ok X E s'
    \<and> (writeCount s1 < lastMatchLength s1 \<or> match_ok X (Suc u) s1 \<longrightarrow> currLen s' \<noteq> 0 \<longrightarrow> match_ok X E s')"
    by (rule Suc.hyps(1)) (use s1 Suc.hyps(2) in simp_all)
  then obtain s' where s': "finish_shift s1 = Some s'" "window_ok X E s'" "trees_ok X {E - 958..E} s'" "codes_ok X E s'"
    "writeCount s1 < lastMatchLength s1 \<or> match_ok X (Suc u) s1 \<longrightarrow> currLen s' \<noteq> 0 \<longrightarrow> match_ok X E s'" by blast
  have "E + writeCount s1 = Suc u + lastMatchLength s1" "length X = Suc u + currLen s1" "length X = E + currLen s'"
    using s'(2) s1(2) by (simp_all add: window_ok_def comp_inv_def)
  moreover have "writeCount s1 \<le> lastMatchLength s1" using s1(3,4) \<open>writeCount s < lastMatchLength s\<close> by simp
  ultimately have "currLen s' \<noteq> 0 \<Longrightarrow> currLen s1 \<noteq> 0" by linarith
  then have "currLen s' \<noteq> 0 \<longrightarrow> match_ok X E s'" using s1(5) s'(5) by blast
  then show ?case using s1(1) s'(1-4) by (intro exI [of _ s']) simp
qed

lemma finish_codes_ok:
  assumes "comp_inv X u E s" "writeCount s < lastMatchLength s"
  shows "\<exists>s'. finish_codes s = Some s' \<and> codes_ok X (length X) s'"
  using assms
proof (induction "length X - u" arbitrary: u E s rule: less_induct)
  case less
  have len: "length X = u + currLen s" "E \<le> length X" "E + writeCount s = u + lastMatchLength s"
    using less.prems(1) by (simp_all add: comp_inv_def window_ok_def)
  then have uE: "u < E" "0 < currLen s" using less.prems(2) by linarith+
  obtain s1 where s1: "finish_shift s = Some s1" "window_ok X E s1" "trees_ok X {E - 958..E} s1" "codes_ok X E s1"
    "currLen s1 \<noteq> 0 \<longrightarrow> match_ok X E s1"
    using finish_shift_ok [OF less.prems(1)] less.prems(2) by auto
  have l1: "length X = E + currLen s1" using s1(2) by (simp add: window_ok_def)
  have unf: "finish_codes s = do { s \<leftarrow> encode s1; finish_codes (s\<lparr>writeCount := 0\<rparr>) }"
    using uE(2) s1(1) by (subst finish_codes.simps) simp
  show ?case
  proof (cases "currLen s1 = 0")
    case True
    then have "finish_codes s = Some (s1\<lparr>writeCount := 0\<rparr>)"
      unfolding unf by (simp add: encode_def finish_codes.simps)
    moreover have "codes_ok X E (s1\<lparr>writeCount := 0\<rparr>)" by (rule codes_ok_cong [OF s1(4)]) simp_all
    ultimately show ?thesis using l1 True by simp
  next
    case False
    then obtain s2 E' where s2: "encode s1 = Some s2" "0 < lastMatchLength s2" "comp_inv X E E' (s2\<lparr>writeCount := 0\<rparr>)"
      using encode_step [OF s1(2-4)] s1(5) by blast
    have "\<exists>s'. finish_codes (s2\<lparr>writeCount := 0\<rparr>) = Some s' \<and> codes_ok X (length X) s'"
      by (rule less.hyps [OF _ s2(3)]) (use uE len s2(2) in auto)
    then show ?thesis using unf s2(1) by simp
  qed
qed

lemma finish_short:
  assumes "fill_inv X s"
  shows "\<exists>s'. finish_codes s = Some s' \<and> codes_ok X (length X) s'"
proof (cases "currLen s = 0")
  case True
  then show ?thesis using assms by (subst finish_codes.simps) (simp add: fill_inv_def window_ok_def)
next
  case False
  have "comp_inv X 958 958 s"
    using assms trees_mono [of X "{}" s "{958 - 958..958}"] by (simp add: fill_inv_def comp_inv_def window_ok_def)
  from finish_shift_ok [OF this] assms obtain s1 where s1: "finish_shift s = Some s1" "window_ok X 958 s1" "trees_ok X {958 - 958..958} s1"
    "codes_ok X 958 s1" "currLen s1 \<noteq> 0 \<longrightarrow> match_ok X 958 s1" by (auto simp: fill_inv_def match_ok_def)
  have "currLen s1 \<noteq> 0" using s1(2) assms False by (auto simp: fill_inv_def window_ok_def)
  with encode_step [OF s1(2-4)] s1(5) obtain s2 E where s2: "encode s1 = Some s2" "0 < lastMatchLength s2"
    "comp_inv X 958 E (s2\<lparr>writeCount := 0\<rparr>)" by blast
  obtain s3 where "finish_codes (s2\<lparr>writeCount := 0\<rparr>) = Some s3" "codes_ok X (length X) s3"
    using finish_codes_ok [OF s2(3)] s2(2) by auto
  then show ?thesis using False s1(1) s2(1) by (subst finish_codes.simps) simp
qed

lemma groups_ok_snoc: "list_all (\<lambda>h. length h = 8) gs \<Longrightarrow> g \<noteq> [] \<Longrightarrow> length g \<le> 8 \<Longrightarrow> groups_ok (gs @ [g])"
proof (induction gs)
  case (Cons h gs)
  then have "length h = 8" "groups_ok (gs @ [g])" by simp_all
  moreover have "h \<noteq> []" using calculation(1) by auto
  ultimately show ?case by (simp add: groups_ok_Cons)
qed simp

lemma groups_ok_full: "list_all (\<lambda>h. length h = 8) gs \<Longrightarrow> groups_ok gs"
proof (induction gs)
  case (Cons h gs)
  then show ?case by (cases h) (auto simp: groups_ok_Cons)
qed simp

lemma flush_codes:
  assumes "codes_ok X E s"
  shows "\<exists>gs. outStream (flushBuffer s) = pack gs \<and> groups_ok gs \<and> describes X 958 (concat gs) E"
proof -
  obtain gs g where g: "list_all (\<lambda>h. length h = 8) gs" "length g < 8" "describes X 958 (concat gs @ g) E"
    "outStream s = pack gs" "codeBufPtr s = Suc (length (concat (map code_bytes g)))"
    "map (codeBuf s) [0..<codeBufPtr s] = group_bytes g"
    using assms by (auto simp: codes_ok_def)
  show ?thesis
  proof (cases "g = []")
    case True
    then show ?thesis using g groups_ok_full by (intro exI [of _ gs]) (simp add: flushBuffer_def)
  next
    case False
    then obtain c h where c: "g = c # h" by (cases g) auto
    then have "codeBufPtr s > 1" using g(5) code_len_bytes(1) [of c] by simp
    then show ?thesis using g False groups_ok_snoc [OF g(1) False]
      by (intro exI [of _ "gs @ [g]"]) (simp add: flushBuffer_def pack_snoc)
  qed
qed

section \<open>The new stream\<close>

lemma fold_upd: "fold (\<lambda>i f. f(a + i := v)) [0..<n] f = (\<lambda>x. if a \<le> x \<and> x < a + n then v else f x)"
  by (induction n) (auto simp: fun_eq_iff)

lemma fill_new: "fill_inv spaces compressionOutputStream"
proof -
  let ?s = compressionOutputStream
  have s: "rchild ?s = (\<lambda>x. if 1025 \<le> x \<and> x < 1281 then NIL else 0)" "parent ?s = (\<lambda>x. if x < 1024 then NIL else 0)"
    "textBuf ?s = (\<lambda>x. if x < 958 then 0x20 else 0)"
    using fold_upd [of 1025 NIL 256 "\<lambda>_. 0"] fold_upd [of 0 NIL 1024 "\<lambda>_. 0"] fold_upd [of 0 "0x20 :: u8" 958 "\<lambda>_. 0"]
    by (simp_all add: compressionOutputStream_def initTree_def new_object_def Let_def)
  have r: "currPos ?s = 958" "killPos ?s = 0" "currLen ?s = 0" "writeCount ?s = 0" "lastMatchLength ?s = 0" "matchLength ?s = 0"
    "codeBufPtr ?s = 1" "codeMask ?s = 1" "codeBuf ?s 0 = 0" "outStream ?s = []"
    by (simp_all add: compressionOutputStream_def initTree_def new_object_def Let_def)
  have "forest (lchild ?s) (rchild ?s) (parent ?s) (\<lambda>_. Leaf)" by (simp add: forest_def nodes_def s)
  then have "trees_ok spaces {} ?s" by (auto simp: trees_ok_def nodes_in_def intro!: exI [of _ "\<lambda>_. Leaf"])
  moreover have "buf_holds (textBuf ?s) spaces" by (simp add: buf_holds_def s spaces_def)
  moreover have "codes_ok spaces 958 ?s"
    unfolding codes_ok_def by (intro exI [of _ "[]"]) (simp add: r group_bytes_def group_flags_def)
  ultimately show ?thesis by (simp add: fill_inv_def window_ok_def r)
qed

lemma compress_describes:
  "\<exists>gs. compress bs = Some (pack gs) \<and> groups_ok gs \<and> describes (spaces @ bs) 958 (concat gs) (958 + length bs)"
proof -
  obtain s where s: "lz_writes bs compressionOutputStream = Some s" "fill_inv (spaces @ bs) s \<or> comp_running (spaces @ bs) s"
    using writes_ok fill_new by blast
  then obtain s' where "finish_codes s = Some s'" "codes_ok (spaces @ bs) (length (spaces @ bs)) s'"
    using finish_short finish_codes_ok unfolding comp_running_def by metis
  with s(1) flush_codes [OF this(2)] show ?thesis by (auto simp: compress_def lz_finish_def)
qed

section \<open>Both sides of a compressed line\<close>

lemma compress_line:
  assumes "compress bs = Some code" "delivers getb putb s code"
  shows "delivers (decompress_get_byte getb) (dec_put putb) (decompress_init d, s) bs"
proof -
  obtain gs where gs: "compress bs = Some (pack gs)" "groups_ok gs" "describes (spaces @ bs) 958 (concat gs) (958 + length bs)"
    using compress_describes [of bs] by blast
  then have "delivers getb putb s (pack gs)" using assms by simp
  then show ?thesis by (rule decompressor_delivers [OF gs(3,2)])
qed

text \<open>
  The download of a program over a compressed line, with the conditions of the uncompressed download.
\<close>

lemma compressed_download:
  assumes "send_program sync file e phs arrived = Some (arrived', t)"
    and "list_all (seg_ok \<circ> ph_segment file) phs" "length phs < 2 ^ 32 - 1" "list_all ph_fits phs"
    and line: "\<And>code. compress (written t) = Some code \<Longrightarrow> delivers uart_rd uart_wr s code"
  shows "\<exists>xs ds. reads_of xs = written t
    \<and> download (decompress_get_byte uart_rd) (dec_put uart_wr) m (decompress_init d, s) = Some (e, load_image (map (ph_segment file) phs) m, ds)
    \<and> (\<exists>acked. map uint (writes_of xs) = acked @ responseQueue t)"
proof -
  obtain code where code: "compress (written t) = Some code" using compress_describes [of "written t"] by blast
  have D: "delivers (decompress_get_byte uart_rd) (dec_put uart_wr) (decompress_init d, s) (written t)"
    by (rule compress_line [OF code line [OF code]])
  have "\<exists>ds. serves (decompress_get_byte uart_rd) (dec_put uart_wr) (decompress_init d, s) xs ds" if "reads_of xs = written t" for xs
    using D that by (simp add: delivers_def)
  from program_received [OF assms(1-4) this, of m] show ?thesis by blast
qed

text \<open>
  C40. Compression and decompression are inverse. For every text, the compressor of the host writes it and finishes without an exception and
  without an endless loop; and whatever line delivers the code it has written to the boot loader, \<open>decompress_get_byte\<close> delivers the bytes of the
  text one after the other, from \<open>decompress_init\<close> on, while the answers of the boot loader may be interleaved with the reads in any way.
\<close>

theorem compression_roundtrip:
  "\<exists>code. compress bs = Some code \<and> (\<forall>(getb :: 's \<Rightarrow> (u32 \<times> 's) option) putb s d. delivers getb putb s code
     \<longrightarrow> delivers (decompress_get_byte getb) (dec_put putb) (decompress_init d, s) bs)"
proof -
  obtain code where code: "compress bs = Some code" using compress_describes [of bs] by blast
  then show ?thesis by (intro exI [of _ code] conjI allI impI) (auto intro: compress_line)
qed

text \<open>A text with repetitions, over a line that holds the code.\<close>

theorem compression_roundtrip_witness:
  "\<exists>code ds. compress [1, 2, 3, 1, 2, 3, 1, 2, 3, 4] = Some code
     \<and> serves (decompress_get_byte queue_get) (dec_put queue_put)
         (decompress_init \<lparr>text_buf = \<lambda>_. 0, write_pos = 0, read_pos = 0, flags = 0\<rparr>, (code, []))
         (map Inl [1, 2, 3, 1, 2, 3, 1, 2, 3, 4]) ds"
proof -
  have "delivers queue_get queue_put (code, []) code" for code
    unfolding delivers_def using queue_serves [of _ "[]" "[]"] by auto
  with compression_roundtrip [where 's = "u8 list \<times> u8 list", of "[1, 2, 3, 1, 2, 3, 1, 2, 3, 4]"] show ?thesis
    unfolding delivers_def by (metis reads_writes_Inl(1))
qed

end
