(* ===== verification/Boot_Main.thy ===== *)
theory Boot_Main
  imports Patmos_Prelude
begin

text \<open>
  \<open>c/bootloader/bootloader.c\<close>: the boot protocol of all cores. Every core runs \<open>main\<close>; core 0 is the
  master, the others are slaves. The cores communicate through \<open>boot_info\<close> in shared memory only.
  A step is one core executing up to its next access of shared memory; the cores interleave in
  any order. Spinning is a step that changes nothing. The downloaded entry point and the return
  values of the application are parameters; the application is taken not to write \<open>boot_info\<close>.
\<close>

section \<open>Shared memory and program points\<close>

datatype boot_status = STATUS_NULL | STATUS_BOOT | STATUS_INIT | STATUS_RETURN

text \<open>The program points of \<open>main\<close>, with the index or counter of the loop they are in.\<close>

datatype boot_pc =
  Clear_status | Clear_entry
  | M_clear nat | M_boot nat | M_download | M_ispm | M_init | M_wait_init nat | M_call | M_retval
  | M_check_return nat | M_wait_return nat | M_exit | M_return | M_wait_done nat
  | S_clear | S_boot | S_seen_boot | S_wait_init | S_ispm | S_ack | S_call | S_retval | S_return | S_seen_return | S_done

record boot_mem =
  master_status :: boot_status
  master_entry :: u32
  slave_status :: "nat \<Rightarrow> boot_status"
  slave_return_val :: "nat \<Rightarrow> u32"
  slave_param :: "nat \<Rightarrow> u32"
  slave_funcpoint :: "nat \<Rightarrow> u32"
  boot_main_mem :: "nat \<Rightarrow> u32"
  ispm :: "nat \<Rightarrow> nat \<Rightarrow> u32"
  chars_out :: "u8 list"
  boot_pc :: "nat \<Rightarrow> boot_pc"
  retval :: "nat \<Rightarrow> u32"

text \<open>What the protocol does not control: the number of cores, the size of the I-SPM, the result of \<open>download\<close>, the application.\<close>

record boot_env =
  cpucnt :: nat
  ispm_size :: nat
  download_result :: u32
  app_result :: "nat \<Rightarrow> u32"

abbreviation (input) goto :: "nat \<Rightarrow> boot_pc \<Rightarrow> boot_mem \<Rightarrow> boot_mem" where
  "goto c p s \<equiv> s\<lparr>boot_pc := (boot_pc s)(c := p)\<rparr>"

section \<open>Steps\<close>

definition clear_slave :: "nat \<Rightarrow> boot_mem \<Rightarrow> boot_mem" where
  "clear_slave i s = s\<lparr>slave_status := (slave_status s)(i := STATUS_NULL), slave_return_val := (slave_return_val s)(i := - 1),
     slave_param := (slave_param s)(i := 0), slave_funcpoint := (slave_funcpoint s)(i := 0)\<rparr>"

text \<open>The I-SPM starts at 64 KB, and the words there are initialised from the same main memory addresses.\<close>

definition ispm_init :: "boot_env \<Rightarrow> nat \<Rightarrow> boot_mem \<Rightarrow> boot_mem" where
  "ispm_init env c s = s\<lparr>ispm := (ispm s)(c :=
     fold (\<lambda>i spm. spm(2 ^ 16 div 4 + i := boot_main_mem s (2 ^ 16 div 4 + i))) [0..<ispm_size env div 4] (ispm s c))\<rparr>"

definition boot_call :: "boot_env \<Rightarrow> nat \<Rightarrow> boot_pc \<Rightarrow> boot_pc \<Rightarrow> boot_mem \<Rightarrow> boot_mem" where
  "boot_call env c called skipped s =
     (let s = s\<lparr>retval := (retval s)(c := - 1)\<rparr> in
      if master_entry s \<noteq> 0 then goto c called (s\<lparr>retval := (retval s)(c := app_result env c)\<rparr>)
      else goto c skipped s)"

fun boot_step :: "boot_env \<Rightarrow> nat \<Rightarrow> boot_pc \<Rightarrow> boot_mem \<Rightarrow> boot_mem" where
  "boot_step env c Clear_status s = goto c Clear_entry (s\<lparr>master_status := STATUS_NULL\<rparr>)"
| "boot_step env c Clear_entry s = goto c (if c = 0 then M_clear 0 else S_clear) (s\<lparr>master_entry := 0\<rparr>)"
| "boot_step env c (M_clear i) s =
     (if i < cpucnt env then goto c (M_clear (Suc i)) (clear_slave i s) else goto c (M_boot 0) s)"
| "boot_step env c (M_boot i) s =
     (if i < 0x10 then goto c (M_boot (Suc i)) (s\<lparr>master_status := STATUS_BOOT\<rparr>) else goto c M_download s)"
| "boot_step env c M_download s = goto c M_ispm (s\<lparr>master_entry := download_result env\<rparr>)"
| "boot_step env c M_ispm s = goto c M_init (ispm_init env c s)"
| "boot_step env c M_init s = goto c (M_wait_init 1) (s\<lparr>master_status := STATUS_INIT\<rparr>)"
| "boot_step env c (M_wait_init i) s =
     (if i < cpucnt env then if slave_status s i \<noteq> STATUS_INIT then s else goto c (M_wait_init (Suc i)) s
      else goto c M_call s)"
| "boot_step env c M_call s = boot_call env c M_retval (M_check_return 1) s"
| "boot_step env c M_retval s =
     goto c (M_check_return 1) (s\<lparr>slave_return_val := (slave_return_val s)(c := retval s c)\<rparr>)"
| "boot_step env c (M_check_return i) s =
     (if i < cpucnt env
      then goto c (if slave_status s i \<noteq> STATUS_NULL then M_wait_return i else M_check_return (Suc i)) s
      else goto c M_exit s)"
| "boot_step env c (M_wait_return i) s =
     (if slave_status s i \<noteq> STATUS_RETURN then s else goto c (M_check_return (Suc i)) s)"
| "boot_step env c M_exit s =
     goto c M_return (s\<lparr>chars_out := chars_out s @ [0, 0x78, ucast (retval s c AND 0xff)]\<rparr>)"
| "boot_step env c M_return s = goto c (M_wait_done 1) (s\<lparr>master_status := STATUS_RETURN\<rparr>)"
| "boot_step env c (M_wait_done i) s =
     (if i < cpucnt env then if slave_status s i = STATUS_RETURN then s else goto c (M_wait_done (Suc i)) s
      else goto c Clear_status s)"
| "boot_step env c S_clear s = goto c S_boot (clear_slave c s)"
| "boot_step env c S_boot s = goto c S_seen_boot (s\<lparr>slave_status := (slave_status s)(c := STATUS_BOOT)\<rparr>)"
| "boot_step env c S_seen_boot s = goto c (if master_status s \<noteq> STATUS_BOOT then S_boot else S_wait_init) s"
| "boot_step env c S_wait_init s = (if master_status s \<noteq> STATUS_INIT then s else goto c S_ispm s)"
| "boot_step env c S_ispm s = goto c S_ack (ispm_init env c s)"
| "boot_step env c S_ack s = goto c S_call (s\<lparr>slave_status := (slave_status s)(c := STATUS_INIT)\<rparr>)"
| "boot_step env c S_call s = boot_call env c S_retval S_return s"
| "boot_step env c S_retval s =
     goto c S_return (s\<lparr>slave_return_val := (slave_return_val s)(c := retval s c)\<rparr>)"
| "boot_step env c S_return s = goto c S_seen_return (s\<lparr>slave_status := (slave_status s)(c := STATUS_RETURN)\<rparr>)"
| "boot_step env c S_seen_return s = goto c (if master_status s \<noteq> STATUS_RETURN then S_return else S_done) s"
| "boot_step env c S_done s = goto c Clear_status (s\<lparr>slave_status := (slave_status s)(c := STATUS_NULL)\<rparr>)"

definition boot_core :: "boot_env \<Rightarrow> nat \<Rightarrow> boot_mem \<Rightarrow> boot_mem" where
  "boot_core env c s = boot_step env c (boot_pc s c) s"

text \<open>The reachable states: at power-up every core is at the start of \<open>main\<close>, the memory is arbitrary.\<close>

inductive boot_reach :: "boot_env \<Rightarrow> boot_mem \<Rightarrow> bool" for env where
  power_up: "(\<And>c. boot_pc s c = Clear_status) \<Longrightarrow> boot_reach env s"
| core_step: "boot_reach env s \<Longrightarrow> c < cpucnt env \<Longrightarrow> boot_reach env (boot_core env c s)"

section \<open>Synchronisation\<close>

text \<open>The master between its \<open>STATUS_INIT\<close> and its return to the start.\<close>

fun m_started :: "boot_pc \<Rightarrow> bool" where
  "m_started (M_wait_init i) = True"
| "m_started M_call = True"
| "m_started M_retval = True"
| "m_started (M_check_return i) = True"
| "m_started (M_wait_return i) = True"
| "m_started M_exit = True"
| "m_started M_return = True"
| "m_started p = False"

fun m_returned :: "boot_pc \<Rightarrow> bool" where
  "m_returned (M_wait_done i) = True"
| "m_returned p = False"

text \<open>A slave that has acknowledged the start, and one whose application has returned.\<close>

definition acked :: "boot_mem \<Rightarrow> nat \<Rightarrow> bool" where
  "acked s c \<longleftrightarrow> boot_pc s c \<in> {S_call, S_retval, S_return, S_seen_return}
     \<and> slave_status s c \<in> {STATUS_INIT, STATUS_RETURN}
     \<and> (boot_pc s c \<in> {S_call, S_retval} \<longrightarrow> slave_status s c = STATUS_INIT)"

definition returned :: "boot_mem \<Rightarrow> nat \<Rightarrow> bool" where
  "returned s c \<longleftrightarrow> boot_pc s c \<in> {S_return, S_seen_return} \<and> slave_status s c = STATUS_RETURN"

text \<open>Slaves with index below \<open>k\<close>.\<close>

definition below :: "nat \<Rightarrow> (nat \<Rightarrow> bool) \<Rightarrow> bool" where
  "below k P \<longleftrightarrow> (\<forall>c\<in>{1..<k}. P c)"

definition old_round :: "boot_pc \<Rightarrow> bool" where
  "old_round p \<longleftrightarrow> p \<in> {S_ispm, S_ack, S_call, S_retval, S_return, S_seen_return, S_done}"

text \<open>What the position of the master says about the slaves.\<close>

fun master_inv :: "nat \<Rightarrow> boot_mem \<Rightarrow> boot_pc \<Rightarrow> bool" where
  "master_inv n s (M_wait_init i) \<longleftrightarrow> below (min i n) (acked s)"
| "master_inv n s M_call \<longleftrightarrow> below n (acked s)"
| "master_inv n s M_retval \<longleftrightarrow> below n (acked s)"
| "master_inv n s (M_check_return i) \<longleftrightarrow> below n (acked s) \<and> below (min i n) (returned s)"
| "master_inv n s (M_wait_return i) \<longleftrightarrow> below n (acked s) \<and> i < n \<and> below i (returned s)"
| "master_inv n s M_exit \<longleftrightarrow> below n (returned s)"
| "master_inv n s M_return \<longleftrightarrow> below n (returned s)"
| "master_inv n s (M_wait_done i) \<longleftrightarrow>
     below n (\<lambda>c. old_round (boot_pc s c) \<longrightarrow> boot_pc s c \<in> {S_return, S_seen_return, S_done} \<and> slave_status s c = STATUS_RETURN)
     \<and> below (min i n) (\<lambda>c. \<not> old_round (boot_pc s c))"
| "master_inv n s p \<longleftrightarrow> below n (\<lambda>c. \<not> old_round (boot_pc s c))"

text \<open>
  The status words: \<open>STATUS_INIT\<close> of the master is only there while it is started, unless no core has
  moved; \<open>STATUS_INIT\<close> of a slave, once the master has cleared it, means that it has acknowledged.
\<close>

definition cleared :: "boot_pc \<Rightarrow> nat \<Rightarrow> bool" where
  "cleared p c \<longleftrightarrow> (case p of Clear_status \<Rightarrow> False | Clear_entry \<Rightarrow> False | M_clear i \<Rightarrow> c < i | _ \<Rightarrow> True)"

fun m_pc :: "boot_pc \<Rightarrow> bool" where
  "m_pc (M_clear i) = True" | "m_pc (M_boot i) = True" | "m_pc M_download = True" | "m_pc M_ispm = True"
| "m_pc M_init = True" | "m_pc Clear_status = True" | "m_pc Clear_entry = True" | "m_pc p = (m_started p \<or> m_returned p)"

definition boot_inv :: "nat \<Rightarrow> boot_mem \<Rightarrow> bool" where
  "boot_inv n s \<longleftrightarrow> m_pc (boot_pc s 0) \<and> below n (\<lambda>c. boot_pc s c \<in> {Clear_status, Clear_entry} \<or> \<not> m_pc (boot_pc s c))
     \<and> master_inv n s (boot_pc s 0)
     \<and> (master_status s = STATUS_INIT \<longrightarrow> m_started (boot_pc s 0) \<or> (\<forall>c<n. boot_pc s c = Clear_status))
     \<and> (master_status s = STATUS_RETURN \<longrightarrow> m_returned (boot_pc s 0) \<or> boot_pc s 0 = Clear_status)
     \<and> below n (\<lambda>c. cleared (boot_pc s 0) c \<longrightarrow> slave_status s c = STATUS_INIT \<longrightarrow> boot_pc s c \<in> {S_call, S_retval, S_return})"

lemmas step_simps = boot_core_def clear_slave_def ispm_init_def boot_call_def Let_def

text \<open>A step of a slave changes nothing of the other cores, and of the master's words only clears them.\<close>

lemma slave_frame:
  assumes "0 < c" "boot_pc s c \<in> {Clear_status, Clear_entry} \<or> \<not> m_pc (boot_pc s c)" "s' = boot_core env c s"
  shows "d \<noteq> c \<Longrightarrow> boot_pc s' d = boot_pc s d" "d \<noteq> c \<Longrightarrow> slave_status s' d = slave_status s d"
    "master_status s' = master_status s \<or> master_status s' = STATUS_NULL"
    "boot_pc s' c \<in> {Clear_status, Clear_entry} \<or> \<not> m_pc (boot_pc s' c)"
    "boot_pc s c = Clear_status \<Longrightarrow> master_status s' = STATUS_NULL"
  using assms by (cases "boot_pc s c"; simp add: step_simps)+

lemma slave_acked: "acked s c \<Longrightarrow> master_status s \<noteq> STATUS_RETURN \<Longrightarrow> acked (boot_core env c s) c"
  by (cases "boot_pc s c") (simp_all add: acked_def step_simps)

lemma slave_returned: "returned s c \<Longrightarrow> master_status s \<noteq> STATUS_RETURN \<Longrightarrow> returned (boot_core env c s) c"
  by (cases "boot_pc s c") (simp_all add: returned_def step_simps)

lemma slave_fresh:
  "\<not> old_round (boot_pc s c) \<Longrightarrow> 0 < c \<Longrightarrow> \<not> m_pc (boot_pc s c) \<or> boot_pc s c \<in> {Clear_status, Clear_entry} \<Longrightarrow>
     master_status s \<noteq> STATUS_INIT \<Longrightarrow> \<not> old_round (boot_pc (boot_core env c s) c)"
  by (cases "boot_pc s c") (simp_all add: old_round_def step_simps)

lemma slave_going:
  "boot_pc s c \<in> {S_return, S_seen_return, S_done} \<Longrightarrow> slave_status s c = STATUS_RETURN \<Longrightarrow>
     old_round (boot_pc (boot_core env c s) c) \<longrightarrow>
       boot_pc (boot_core env c s) c \<in> {S_return, S_seen_return, S_done} \<and> slave_status (boot_core env c s) c = STATUS_RETURN"
  by (cases "boot_pc s c") (simp_all add: old_round_def step_simps)

lemma slave_init:
  assumes "0 < c" "s' = boot_core env c s" "boot_pc s c \<in> {Clear_status, Clear_entry} \<or> \<not> m_pc (boot_pc s c)"
    and "slave_status s c = STATUS_INIT \<longrightarrow> boot_pc s c \<in> {S_call, S_retval, S_return}"
  shows "slave_status s' c = STATUS_INIT \<longrightarrow> boot_pc s' c \<in> {S_call, S_retval, S_return}"
  using assms by (cases "boot_pc s c") (auto simp: step_simps)

lemma below_upd: "below k P \<Longrightarrow> (\<And>d. d \<noteq> c \<Longrightarrow> P d \<Longrightarrow> Q d) \<Longrightarrow> (1 \<le> c \<Longrightarrow> c < k \<Longrightarrow> P c \<Longrightarrow> Q c) \<Longrightarrow> below k Q"
  unfolding below_def by (metis atLeastLessThan_iff)

lemma slave_step_inv:
  assumes inv: "boot_inv n s" and "0 < c" "c < n"
  shows "boot_inv n (boot_core env c s)"
proof -
  define s' where "s' = boot_core env c s"
  have c: "boot_pc s c \<in> {Clear_status, Clear_entry} \<or> \<not> m_pc (boot_pc s c)"
    using inv assms(2,3) by (auto simp: boot_inv_def below_def)
  note fr = slave_frame [OF assms(2) c s'_def]
  have p0: "boot_pc s' 0 = boot_pc s 0" using fr(1) assms(2) by simp
  have R: "master_status s \<noteq> STATUS_RETURN" if "\<not> m_returned (boot_pc s 0)" "boot_pc s 0 \<noteq> Clear_status"
    using inv that by (auto simp: boot_inv_def)
  have I: "\<not> old_round (boot_pc s' c)" if "\<not> old_round (boot_pc s c)" "\<not> m_started (boot_pc s 0)"
  proof (cases "master_status s = STATUS_INIT")
    case True
    then have "boot_pc s c = Clear_status" using inv that assms(3) by (auto simp: boot_inv_def)
    then show ?thesis by (simp add: s'_def step_simps old_round_def)
  next
    case False
    then show ?thesis using slave_fresh [of s c env] that(1) c assms(2) unfolding s'_def by blast
  qed
  have acked: "below k (acked s')" if "below k (acked s)" "master_status s \<noteq> STATUS_RETURN" for k
    using that(1) by (rule below_upd [where c = c]) (use slave_acked [of s c env] fr that(2) in \<open>auto simp: acked_def simp flip: s'_def\<close>)
  have returned: "below k (returned s')" if "below k (returned s)" "master_status s \<noteq> STATUS_RETURN" for k
    using that(1) by (rule below_upd [where c = c]) (use slave_returned [of s c env] fr that(2) in \<open>auto simp: returned_def simp flip: s'_def\<close>)
  have fresh: "below k (\<lambda>c. \<not> old_round (boot_pc s' c))" if "below k (\<lambda>c. \<not> old_round (boot_pc s c))" "\<not> m_started (boot_pc s 0)" for k
    using that(1) by (rule below_upd [where c = c]) (use I fr that(2) in auto)
  let ?P = "\<lambda>s c. old_round (boot_pc s c) \<longrightarrow> boot_pc s c \<in> {S_return, S_seen_return, S_done} \<and> slave_status s c = STATUS_RETURN"
  have going: "below k (?P s')" if "below k (?P s)" "\<not> m_started (boot_pc s 0)" for k
    using that(1)
  proof (rule below_upd [where c = c])
    assume "?P s c"
    then show "?P s' c"
      using slave_going [of s c env] I that(2) unfolding s'_def [symmetric] by (cases "old_round (boot_pc s c)") auto
  qed (use fr in auto)
  have "master_inv n s' (boot_pc s 0)"
    using inv acked returned fresh going R unfolding boot_inv_def by (cases "boot_pc s 0") auto
  moreover have "below n (\<lambda>d. cleared (boot_pc s 0) d \<longrightarrow> slave_status s' d = STATUS_INIT \<longrightarrow> boot_pc s' d \<in> {S_call, S_retval, S_return})"
  proof (rule below_upd [where c = c and P = "\<lambda>d. cleared (boot_pc s 0) d \<longrightarrow> slave_status s d = STATUS_INIT \<longrightarrow> boot_pc s d \<in> {S_call, S_retval, S_return}"])
    show "below n (\<lambda>d. cleared (boot_pc s 0) d \<longrightarrow> slave_status s d = STATUS_INIT \<longrightarrow> boot_pc s d \<in> {S_call, S_retval, S_return})"
      using inv by (simp add: boot_inv_def)
  qed (use fr slave_init [OF assms(2) s'_def c] in auto)
  moreover have "below n (\<lambda>c. boot_pc s' c \<in> {Clear_status, Clear_entry} \<or> \<not> m_pc (boot_pc s' c))"
    by (rule below_upd [where c = c and P = "\<lambda>c. boot_pc s c \<in> {Clear_status, Clear_entry} \<or> \<not> m_pc (boot_pc s c)"])
      (use inv fr in \<open>auto simp: boot_inv_def\<close>)
  moreover have "master_status s' = STATUS_INIT \<longrightarrow> m_started (boot_pc s 0)"
    using inv fr(3,5) assms(3) by (auto simp: boot_inv_def)
  moreover have "master_status s' = STATUS_RETURN \<longrightarrow> m_returned (boot_pc s 0) \<or> boot_pc s 0 = Clear_status"
    using inv fr(3) by (auto simp: boot_inv_def)
  ultimately show ?thesis
    using inv p0 unfolding s'_def [symmetric] boot_inv_def by simp
qed

text \<open>A step of the master leaves the slaves where they are; only its clearing writes their words.\<close>

lemma master_frame:
  assumes "m_pc (boot_pc s 0)" "s' = boot_core env 0 s"
  shows "d \<noteq> 0 \<Longrightarrow> boot_pc s' d = boot_pc s d"
    "slave_status s' d = slave_status s d \<or> (\<exists>i. boot_pc s 0 = M_clear i) \<and> slave_status s' d = STATUS_NULL"
  using assms by (cases "boot_pc s 0"; simp add: step_simps)+

lemma below_cong: "below k P \<Longrightarrow> (\<And>d. 0 < d \<Longrightarrow> d < k \<Longrightarrow> P d \<Longrightarrow> Q d) \<Longrightarrow> below k Q"
  by (auto simp: below_def)

lemma belowD: "below k P \<Longrightarrow> 0 < c \<Longrightarrow> c < k \<Longrightarrow> P c"
  by (simp add: below_def)

lemma below_Suc: "below (Suc k) P \<longleftrightarrow> below k P \<and> (0 < k \<longrightarrow> P k)"
  by (auto simp: below_def less_Suc_eq)

lemma below_mono: "below k P \<Longrightarrow> j \<le> k \<Longrightarrow> below j P"
  by (auto simp: below_def)

lemma below_1 [simp]: "below (min (Suc 0) n) P" "below (min 1 n) P"
  by (auto simp: below_def)

lemma goto_0 [simp]:
  "0 < c \<Longrightarrow> acked (s\<lparr>boot_pc := (boot_pc s)(0 := p)\<rparr>) c = acked s c"
  "0 < c \<Longrightarrow> returned (s\<lparr>boot_pc := (boot_pc s)(0 := p)\<rparr>) c = returned s c"
  by (simp_all add: acked_def returned_def)

text \<open>What the master's position says, at its next position.\<close>

lemma master_inv_next:
  assumes inv: "boot_inv n s" and "n = cpucnt env" "0 < n" "s' = boot_core env 0 s"
  shows "master_inv n s' (boot_pc s' 0)"
proof -
  have m: "m_pc (boot_pc s 0)" "master_inv n s (boot_pc s 0)" using inv by (simp_all add: boot_inv_def)
  note fr = master_frame [OF m(1) assms(4)]
  have same: "below k (acked s) \<Longrightarrow> below k (acked s')" "below k (returned s) \<Longrightarrow> below k (returned s')"
    if "\<And>i. boot_pc s 0 \<noteq> M_clear i" for k
    using fr that by (auto simp: below_def acked_def returned_def)
  have init: "slave_status s c = STATUS_INIT \<Longrightarrow> acked s c" if "cleared (boot_pc s 0) c" "0 < c" "c < n" for c
    using inv that by (auto simp: boot_inv_def below_def acked_def)
  show ?thesis
  proof (cases "boot_pc s 0")
    case (M_wait_init i)
    then show ?thesis
      using m same assms init [of i] by (auto simp: step_simps min_def below_Suc cleared_def split: if_splits)
  next
    case (M_check_return i)
    have "slave_status s i \<noteq> STATUS_NULL" if "0 < i" "i < n"
      using m(2) M_check_return that belowD [of n "acked s" i] by (auto simp: acked_def)
    with M_check_return show ?thesis
      using m same assms by (auto simp: step_simps min_def below_Suc split: if_splits)
  next
    case (M_wait_return i)
    have "returned s i" if "0 < i" "i < n" "slave_status s i = STATUS_RETURN"
      using m(2) M_wait_return that belowD [of n "acked s" i] by (auto simp: acked_def returned_def)
    with M_wait_return show ?thesis
      using m same assms by (auto simp: step_simps min_def below_Suc split: if_splits)
  next
    case (M_wait_done i)
    have new: "\<not> old_round (boot_pc s i)" if "0 < i" "i < n" "slave_status s i \<noteq> STATUS_RETURN"
      using m(2) M_wait_done that by (auto simp: below_def)
    with M_wait_done show ?thesis
      using m(2) assms(2-4) by (auto simp: step_simps below_def less_Suc_eq split: if_splits)
  next
    case M_return
    then show ?thesis using m assms by (auto simp: step_simps below_def returned_def)
  qed (use m assms(2-4) in \<open>auto simp: step_simps below_def acked_def returned_def old_round_def split: if_splits\<close>)
qed

lemma master_step_inv:
  assumes inv: "boot_inv n s" and "n = cpucnt env" "0 < n"
  shows "boot_inv n (boot_core env 0 s)"
proof -
  define s' where "s' = boot_core env 0 s"
  have m: "m_pc (boot_pc s 0)" using inv by (simp add: boot_inv_def)
  note fr = master_frame [OF m s'_def]
  have "m_pc (boot_pc s' 0)" using m assms(3) by (cases "boot_pc s 0") (auto simp: s'_def step_simps)
  moreover have "below n (\<lambda>c. boot_pc s' c \<in> {Clear_status, Clear_entry} \<or> \<not> m_pc (boot_pc s' c))"
    using inv fr(1) by (auto simp: boot_inv_def below_def)
  moreover have "master_status s' = STATUS_INIT \<longrightarrow> m_started (boot_pc s' 0) \<or> (\<forall>c<n. boot_pc s' c = Clear_status)"
    using inv assms(3) by (cases "boot_pc s 0") (auto simp: boot_inv_def s'_def step_simps)
  moreover have "master_status s' = STATUS_RETURN \<longrightarrow> m_returned (boot_pc s' 0) \<or> boot_pc s' 0 = Clear_status"
    using inv by (cases "boot_pc s 0") (auto simp: boot_inv_def s'_def step_simps)
  moreover have "below n (\<lambda>c. cleared (boot_pc s' 0) c \<longrightarrow> slave_status s' c = STATUS_INIT \<longrightarrow> boot_pc s' c \<in> {S_call, S_retval, S_return})"
    using inv m assms(2) by (cases "boot_pc s 0") (auto simp: boot_inv_def below_def cleared_def s'_def step_simps less_Suc_eq)
  ultimately show ?thesis
    using master_inv_next [OF inv assms(2,3) s'_def] unfolding s'_def [symmetric] boot_inv_def by simp
qed

lemma boot_reach_inv: "boot_reach env s \<Longrightarrow> 0 < cpucnt env \<Longrightarrow> boot_inv (cpucnt env) s"
proof (induction rule: boot_reach.induct)
  case (power_up s)
  then show ?case by (simp add: boot_inv_def below_def old_round_def cleared_def)
next
  case (core_step s c)
  then show ?case using master_step_inv [of "cpucnt env" s env] slave_step_inv [of "cpucnt env" s c env] by (cases c) auto
qed

text \<open>
  C8. The application is started by all cores together. When the master is about to call it, every
  slave has acknowledged the start; and a slave is past its own wait only while the master has
  finished the download and has not returned to the start of \<open>main\<close>. This holds for every
  interleaving and every memory contents at power-up.
\<close>

theorem boot_synchronised:
  assumes "boot_reach env s" "0 < c" "c < cpucnt env"
  shows "(boot_pc s 0 = M_call \<longrightarrow> boot_pc s c \<in> {S_call, S_retval, S_return, S_seen_return})
    \<and> (boot_pc s c \<in> {S_ispm, S_ack, S_call, S_retval} \<longrightarrow> m_started (boot_pc s 0))"
proof -
  have inv: "boot_inv (cpucnt env) s" using boot_reach_inv assms by simp
  then have m: "master_inv (cpucnt env) s (boot_pc s 0)" "m_pc (boot_pc s 0)" by (simp_all add: boot_inv_def)
  show ?thesis
    using m assms(2,3) belowD [of _ _ c] by (cases "boot_pc s 0") (auto simp: below_def acked_def old_round_def)
qed

text \<open>A run: the cores take steps in the order of the list.\<close>

definition boot_run :: "boot_env \<Rightarrow> nat list \<Rightarrow> boot_mem \<Rightarrow> boot_mem" where
  "boot_run env cs s = fold (boot_core env) cs s"

lemma boot_run_reach: "boot_reach env s \<Longrightarrow> list_all (\<lambda>c. c < cpucnt env) cs \<Longrightarrow> boot_reach env (boot_run env cs s)"
  unfolding boot_run_def by (induction cs arbitrary: s) (auto intro: boot_reach.core_step)

definition power_up_mem :: boot_mem where
  "power_up_mem = \<lparr>master_status = STATUS_NULL, master_entry = 0, slave_status = (\<lambda>_. STATUS_NULL), slave_return_val = (\<lambda>_. 0),
     slave_param = (\<lambda>_. 0), slave_funcpoint = (\<lambda>_. 0), boot_main_mem = (\<lambda>_. 0), ispm = (\<lambda>_ _. 0), chars_out = [],
     boot_pc = (\<lambda>_. Clear_status), retval = (\<lambda>_. 0)\<rparr>"

definition boot_demo :: "nat \<Rightarrow> boot_env" where
  "boot_demo n = \<lparr>cpucnt = n, ispm_size = 0, download_result = 0x20000, app_result = (\<lambda>_. 0)\<rparr>"

lemma power_up_reach: "boot_reach env power_up_mem"
  by (rule boot_reach.power_up) (simp add: power_up_mem_def)

text \<open>A concrete synchronised start with two cores.\<close>

theorem boot_synchronised_witness:
  "let s = boot_run (boot_demo 2) [1,1,0,0,0,0,0,0,0,0,0,0,0,0,0,0,0,0,0,0,0,0,0,0,0,1,1,1,0,0,1,1,1,0,0] power_up_mem in
   boot_pc s 0 = M_call \<and> boot_pc s 1 \<in> {S_call, S_retval, S_return, S_seen_return}"
proof -
  define s where "s = boot_run (boot_demo 2) [1,1,0,0,0,0,0,0,0,0,0,0,0,0,0,0,0,0,0,0,0,0,0,0,0,1,1,1,0,0,1,1,1,0,0] power_up_mem"
  have "boot_reach (boot_demo 2) s"
    unfolding s_def by (rule boot_run_reach [OF power_up_reach]) (simp add: boot_demo_def)
  moreover have "boot_pc s 0 = M_call"
    unfolding s_def boot_run_def boot_demo_def power_up_mem_def
    by (simp add: boot_core_def clear_slave_def ispm_init_def)
  moreover have "1 < cpucnt (boot_demo 2)" by (simp add: boot_demo_def)
  ultimately have "boot_pc s 0 = M_call \<and> boot_pc s 1 \<in> {S_call, S_retval, S_return, S_seen_return}"
    using boot_synchronised [of "boot_demo 2" s 1] by simp
  then show ?thesis unfolding Let_def s_def .
qed

text \<open>
  C33. A slow slave can erase the downloaded entry point. The first two statements of \<open>main\<close> clear the
  words of the master, and every core executes them: when a slave executes the second one after
  the download, the start is still synchronised, but no core calls the application.
\<close>

theorem boot_entry_point_lost:
  "\<exists>s. boot_reach (boot_demo 2) s \<and> boot_pc s 0 = M_call \<and> boot_pc s 1 = S_call
     \<and> download_result (boot_demo 2) \<noteq> 0 \<and> master_entry s = 0"
proof -
  define s where "s = boot_run (boot_demo 2) [1,0,0,0,0,0,0,0,0,0,0,0,0,0,0,0,0,0,0,0,0,0,0,0,1,1,1,1,0,0,1,1,1,0,0] power_up_mem"
  have "boot_reach (boot_demo 2) s"
    unfolding s_def by (rule boot_run_reach [OF power_up_reach]) (simp add: boot_demo_def)
  moreover have "boot_pc s 0 = M_call \<and> boot_pc s 1 = S_call \<and> download_result (boot_demo 2) \<noteq> 0 \<and> master_entry s = 0"
    unfolding s_def boot_run_def boot_demo_def power_up_mem_def
    by (simp add: boot_core_def clear_slave_def ispm_init_def)
  ultimately show ?thesis by blast
qed

text \<open>The states in which core 2 waits for a \<open>STATUS_RETURN\<close> that core 1 has cleared on its way back.\<close>

definition stuck :: "boot_mem \<Rightarrow> bool" where
  "stuck s \<longleftrightarrow> boot_pc s 0 = M_wait_done 2 \<and> boot_pc s 1 \<in> {Clear_entry, S_clear, S_boot, S_seen_boot}
     \<and> boot_pc s 2 \<in> {S_return, S_seen_return} \<and> slave_status s 2 = STATUS_RETURN \<and> master_status s = STATUS_NULL"

lemma stuck_step: "stuck s \<Longrightarrow> c < 3 \<Longrightarrow> stuck (boot_core (boot_demo 3) c s)"
proof -
  assume s: "stuck s" and "c < 3"
  then consider "c = 0" | "c = 1" | "c = 2" by linarith
  then show ?thesis
    using s by cases (auto simp: stuck_def boot_demo_def boot_core_def clear_slave_def)
qed

lemma stuck_run: "stuck s \<Longrightarrow> list_all (\<lambda>c. c < 3) cs \<Longrightarrow> stuck (boot_run (boot_demo 3) cs s)"
  unfolding boot_run_def by (induction cs arbitrary: s) (auto intro: stuck_step)

text \<open>
  C34. The return to the start can block. With three cores there is a reachable state in which core 1
  has already restarted and cleared the master's status before core 2 has seen it: from there on,
  in every continuation, core 2 keeps reporting its return and the master keeps waiting for it.
\<close>

theorem boot_return_blocks:
  "\<exists>s. boot_reach (boot_demo 3) s
     \<and> (\<forall>cs. list_all (\<lambda>c. c < 3) cs \<longrightarrow> boot_pc (boot_run (boot_demo 3) cs s) 0 = M_wait_done 2)"
proof -
  define s where "s = boot_run (boot_demo 3) [1,1,2,2,0,0,0,0,0,0,0,0,0,0,0,0,0,0,0,0,0,0,0,0,0,0,0,0,1,1,1,2,2,2,0,0,
    1,1,1,2,2,2,0,0,0,1,1,1,2,2,2,0,0,0,0,0,0,0,0,0,1,1,1,0] power_up_mem"
  have "boot_reach (boot_demo 3) s"
    unfolding s_def by (rule boot_run_reach [OF power_up_reach]) (simp add: boot_demo_def)
  moreover have "stuck s"
    unfolding s_def boot_run_def boot_demo_def power_up_mem_def
    by (simp add: boot_core_def clear_slave_def ispm_init_def boot_call_def Let_def stuck_def)
  ultimately show ?thesis using stuck_run by (auto simp: stuck_def)
qed

theorem boot_return_blocks_witness:
  "\<exists>s. boot_reach (boot_demo 3) s \<and> boot_pc (boot_run (boot_demo 3) [0, 1, 2, 0] s) 0 = M_wait_done 2"
  using boot_return_blocks by auto

end
