(* ===== verification/Noc_Driver.thy ===== *)
theory Noc_Driver
  imports Core_Set
begin

text \<open>
  \<open>c/libnoc/noc.c\<close>: the driver of the network interface. The registers of the interface and the
  communication memory are words at byte addresses of the core; what a volatile access does is a
  parameter (\<open>noc_io\<close>), since the network interface is not part of these sources. The constants
  that describe the platform are generated elsewhere and are parameters as well. The functions
  are those of a build without \<open>TRAP\<close>; a polling loop is a partial function, and \<open>None\<close> is not
  returning.
\<close>

datatype noc_handler = data_recv_handler | remote_irq_handler

record 'd noc_io =
  io_rd :: "u32 \<Rightarrow> 'd \<Rightarrow> u32 \<times> 'd"
  io_wr :: "u32 \<Rightarrow> u32 \<Rightarrow> 'd \<Rightarrow> 'd"
  exc_register :: "nat \<Rightarrow> noc_handler \<Rightarrow> 'd \<Rightarrow> 'd"
  intr_clear_pending :: "'d \<Rightarrow> 'd"
  PATMOS_IO_ARGO :: u32
  get_cpuid :: u32
  get_cpucnt :: u32

text \<open>The words of \<open>boot_info\<close> that the start-up synchronisation uses.\<close>

record boot_words =
  slave_status_addr :: "u32 \<Rightarrow> u32"
  master_status_addr :: u32
  STATUS_NULL_word :: u32
  STATUS_INITDONE :: u32

record noc_platform =
  NOC_CORES :: u32
  NOC_CONFS :: u32
  NOC_TABLES :: u32
  NOC_SCHEDULE_ENTRIES :: u32
  noc_init_array :: "u32 \<Rightarrow> u32"
  NOC_MASTER :: u32

section \<open>Address map and packet types\<close>

abbreviation (input) DATA_PKT_TYPE :: u32 where "DATA_PKT_TYPE \<equiv> 0"
abbreviation (input) CONFIG_PKT_TYPE :: u32 where "CONFIG_PKT_TYPE \<equiv> 1"
abbreviation (input) DATA_IRQ_PKT_TYPE :: u32 where "DATA_IRQ_PKT_TYPE \<equiv> 2"
abbreviation (input) IRQ_PKT_TYPE :: u32 where "IRQ_PKT_TYPE \<equiv> 3"
abbreviation (input) NOC_PTR_WIDTH :: nat where "NOC_PTR_WIDTH \<equiv> 14"
abbreviation (input) NOC_ACTIVE_BIT :: u32 where "NOC_ACTIVE_BIT \<equiv> 0x80000000"

definition BANK :: "u32 \<Rightarrow> u32" where
  "BANK n = push_bit 13 n"

definition NOC_DMA_BASE :: "'d noc_io \<Rightarrow> u32" where "NOC_DMA_BASE io = PATMOS_IO_ARGO io + BANK 0"
definition NOC_SCHED_BASE :: "'d noc_io \<Rightarrow> u32" where "NOC_SCHED_BASE io = PATMOS_IO_ARGO io + BANK 1"
definition NOC_TDM_BASE :: "'d noc_io \<Rightarrow> u32" where "NOC_TDM_BASE io = PATMOS_IO_ARGO io + BANK 2"
definition NOC_MC_BASE :: "'d noc_io \<Rightarrow> u32" where "NOC_MC_BASE io = PATMOS_IO_ARGO io + BANK 3"
definition NOC_IRQ_BASE :: "'d noc_io \<Rightarrow> u32" where "NOC_IRQ_BASE io = PATMOS_IO_ARGO io + BANK 4"
definition NOC_SPM_BASE :: "'d noc_io \<Rightarrow> u32" where "NOC_SPM_BASE io = PATMOS_IO_ARGO io + 0x4000000"

section \<open>Configuration\<close>

text \<open>
  The probe that \<open>find_mem_size\<close> and \<open>test_spm_size\<close> of libmp share: \<open>n\<close> rounds are left,
  \<open>bad\<close> is the value returned for a memory failure.
\<close>

fun mem_probe :: "'d noc_io \<Rightarrow> u32 \<Rightarrow> u32 \<Rightarrow> u32 \<Rightarrow> nat \<Rightarrow> u32 \<Rightarrow> 'd \<Rightarrow> u32 \<times> 'd" where
  "mem_probe io bad mem_addr init 0 i d = (-1, io_wr io mem_addr init d)"
| "mem_probe io bad mem_addr init (Suc n) i d =
     (let (tmp, d) = io_rd io (mem_addr + 4 * i) d;
          d = io_wr io (mem_addr + 4 * i) 0 d;
          (v, d) = io_rd io mem_addr d
      in if v = 0 then (push_bit 2 i, io_wr io mem_addr init (io_wr io (mem_addr + 4 * i) tmp d))
         else let i = push_bit 1 i;
                  (v, d) = io_rd io mem_addr d
              in if v \<noteq> 0xFFEEDDCC
                 then (bad, io_wr io mem_addr init (io_wr io (mem_addr + 4 * i) tmp d))
                 else mem_probe io bad mem_addr init n i (io_wr io (mem_addr + 4 * i) tmp d))"

definition find_mem_size :: "'d noc_io \<Rightarrow> u32 \<Rightarrow> 'd \<Rightarrow> u32 \<times> 'd" where
  "find_mem_size io mem_addr d =
     (let (init, d) = io_rd io mem_addr d;
          d = io_wr io mem_addr 0xFFEEDDCC d
      in mem_probe io (-1) mem_addr init 28 2 d)"

text \<open>The loop over the configurations of \<open>k_noc_sched_load\<close>, for the remaining numbers \<open>js\<close>.\<close>

fun sched_load_loop ::
    "'d noc_io \<Rightarrow> noc_platform \<Rightarrow> u32 \<Rightarrow> u32 list \<Rightarrow> u32 \<Rightarrow> 'd \<Rightarrow> u32 \<times> 'd" where
  "sched_load_loop io P schedule_table_size [] noc_conf_base_ptr d = (1, d)"
| "sched_load_loop io P schedule_table_size (j # js) noc_conf_base_ptr d =
     (let mode_idx = j * NOC_CORES P * NOC_TABLES P * NOC_SCHEDULE_ENTRIES P;
          core_idx = get_cpuid io * NOC_TABLES P * NOC_SCHEDULE_ENTRIES P;
          schedule_entries = (ucast (noc_init_array P (mode_idx + core_idx)) :: u16)
      in if noc_conf_base_ptr + ucast schedule_entries \<ge> schedule_table_size then (0, d)
         else let d = fold (\<lambda>i. io_wr io (NOC_SCHED_BASE io + 4 * (noc_conf_base_ptr + i))
                              (noc_init_array P (mode_idx + core_idx + i + 1)))
                        (map of_nat [0..<unat schedule_entries]) d;
                  d = io_wr io (NOC_MC_BASE io + 4 * (2 + j))
                        (push_bit 16 (ucast schedule_entries + noc_conf_base_ptr) OR noc_conf_base_ptr) d
              in sched_load_loop io P schedule_table_size js (noc_conf_base_ptr + ucast schedule_entries) d)"

definition k_noc_sched_load :: "'d noc_io \<Rightarrow> noc_platform \<Rightarrow> 'd \<Rightarrow> u32 \<times> 'd" where
  "k_noc_sched_load io P d =
     (let (schedule_table_size, d) = find_mem_size io (NOC_SCHED_BASE io) d
      in sched_load_loop io P schedule_table_size (map of_nat [0..<unat (NOC_CONFS P)]) 0 d)"

text \<open>Waiting until a word reads as a value.\<close>

partial_function (option) wait_word :: "'d noc_io \<Rightarrow> u32 \<Rightarrow> u32 \<Rightarrow> 'd \<Rightarrow> 'd option" where
  "wait_word io a v d = (case io_rd io a d of (w, d) \<Rightarrow> if w \<noteq> v then wait_word io a v d else Some d)"

definition k_noc_sched_set :: "'d noc_io \<Rightarrow> noc_platform \<Rightarrow> u8 \<Rightarrow> 'd \<Rightarrow> 'd option" where
  "k_noc_sched_set io P config d =
     (if get_cpuid io = NOC_MASTER P
      then wait_word io (NOC_MC_BASE io) (ucast config) (io_wr io (NOC_MC_BASE io) (ucast config) d)
      else Some d)"

definition k_noc_state_set :: "'d noc_io \<Rightarrow> noc_platform \<Rightarrow> u8 \<Rightarrow> 'd \<Rightarrow> 'd option" where
  "k_noc_state_set io P state d =
     (if get_cpuid io = NOC_MASTER P
      then wait_word io (NOC_TDM_BASE io + 4 * 4) (ucast state) (io_wr io (NOC_TDM_BASE io + 4 * 4) (ucast state) d)
      else Some d)"

definition k_noc_fifo_read :: "'d noc_io \<Rightarrow> u8 \<Rightarrow> 'd \<Rightarrow> u32 \<times> 'd" where
  "k_noc_fifo_read io irq_type d = io_rd io (NOC_IRQ_BASE io + 4 * ucast irq_type) d"

definition k_noc_configure :: "'d noc_io \<Rightarrow> noc_platform \<Rightarrow> 'd \<Rightarrow> (u32 \<times> 'd) option" where
  "k_noc_configure io P d =
     do { d \<leftarrow> k_noc_state_set io P 0 d;
          let (ret, d) = k_noc_sched_load io P d;
          Some (ret, exc_register io 19 remote_irq_handler (exc_register io 18 data_recv_handler d)) }"

section \<open>The DMA table\<close>

definition k_noc_dma_done :: "'d noc_io \<Rightarrow> u32 \<Rightarrow> 'd \<Rightarrow> bool \<times> 'd" where
  "k_noc_dma_done io dma_id d =
     (let (status, d) = io_rd io (NOC_DMA_BASE io + 4 * (push_bit 1 dma_id + 1)) d
      in (if status AND NOC_ACTIVE_BIT \<noteq> 0 then False else True, d))"

definition k_noc_dma_clear :: "'d noc_io \<Rightarrow> u32 \<Rightarrow> 'd \<Rightarrow> 'd" where
  "k_noc_dma_clear io dma_id d =
     io_wr io (NOC_DMA_BASE io + 4 * push_bit 1 dma_id) 0
       (io_wr io (NOC_DMA_BASE io + 4 * (push_bit 1 dma_id + 1)) 0 d)"

definition k_noc_dma_write :: "'d noc_io \<Rightarrow> u32 \<Rightarrow> u16 \<Rightarrow> u16 \<Rightarrow> u16 \<Rightarrow> u8 \<Rightarrow> 'd \<Rightarrow> bool \<times> 'd" where
  "k_noc_dma_write io dma_id write_ptr read_ptr sz pkt_type d =
     (let (done, d) = k_noc_dma_done io dma_id d
      in if \<not> done then (False, d)
         else if pkt_type > 3 then (False, d)
         else let d = io_wr io (NOC_DMA_BASE io + 4 * push_bit 1 dma_id)
                        (push_bit NOC_PTR_WIDTH (ucast pkt_type) OR ucast write_ptr) d;
                  d = io_wr io (NOC_DMA_BASE io + 4 * (push_bit 1 dma_id + 1))
                        (NOC_ACTIVE_BIT OR push_bit NOC_PTR_WIDTH (ucast sz) OR ucast read_ptr) d
              in (True, d))"

definition noc_dma_write :: "'d noc_io \<Rightarrow> u32 \<Rightarrow> u16 \<Rightarrow> u16 \<Rightarrow> u16 \<Rightarrow> u8 \<Rightarrow> 'd \<Rightarrow> bool \<times> 'd" where
  "noc_dma_write io dma_id write_ptr read_ptr sz pkt_type d = k_noc_dma_write io dma_id write_ptr read_ptr sz pkt_type d"

definition noc_dma_done :: "'d noc_io \<Rightarrow> u32 \<Rightarrow> 'd \<Rightarrow> bool \<times> 'd" where
  "noc_dma_done io dma_id d = k_noc_dma_done io dma_id d"

definition noc_dma_clear :: "'d noc_io \<Rightarrow> u32 \<Rightarrow> 'd \<Rightarrow> 'd" where
  "noc_dma_clear io dma_id d = k_noc_dma_clear io dma_id d"

definition noc_sched_set :: "'d noc_io \<Rightarrow> noc_platform \<Rightarrow> u8 \<Rightarrow> 'd \<Rightarrow> 'd option" where
  "noc_sched_set io P config d = k_noc_sched_set io P config d"

definition noc_state_set :: "'d noc_io \<Rightarrow> noc_platform \<Rightarrow> u8 \<Rightarrow> 'd \<Rightarrow> 'd option" where
  "noc_state_set io P state d = k_noc_state_set io P state d"

definition noc_configure :: "'d noc_io \<Rightarrow> noc_platform \<Rightarrow> 'd \<Rightarrow> (u32 \<times> 'd) option" where
  "noc_configure io P d = k_noc_configure io P d"

definition noc_fifo_irq_read :: "'d noc_io \<Rightarrow> 'd \<Rightarrow> u32 \<times> 'd" where
  "noc_fifo_irq_read io d = k_noc_fifo_read io 0 d"

definition noc_fifo_data_read :: "'d noc_io \<Rightarrow> 'd \<Rightarrow> u32 \<times> 'd" where
  "noc_fifo_data_read io d = k_noc_fifo_read io 1 d"

definition noc_enable :: "'d noc_io \<Rightarrow> noc_platform \<Rightarrow> 'd \<Rightarrow> 'd option" where
  "noc_enable io P d = noc_state_set io P 1 d"

definition noc_disable :: "'d noc_io \<Rightarrow> noc_platform \<Rightarrow> 'd \<Rightarrow> 'd option" where
  "noc_disable io P d = noc_state_set io P 0 d"

section \<open>Start-up synchronisation\<close>

text \<open>
  One round of the master over the slaves: every status is a volatile word, read a second time
  unless it was \<open>STATUS_NULL\<close>.
\<close>

fun noc_sync_round :: "'d noc_io \<Rightarrow> boot_words \<Rightarrow> noc_platform \<Rightarrow> u32 list \<Rightarrow> bool \<Rightarrow> 'd \<Rightarrow> bool \<times> 'd" where
  "noc_sync_round io B P [] done d = (done, d)"
| "noc_sync_round io B P (i # is) done d =
     (let (s1, d) = io_rd io (slave_status_addr B i) d
      in if s1 = STATUS_NULL_word B then noc_sync_round io B P is done d
         else let (s2, d) = io_rd io (slave_status_addr B i) d
              in noc_sync_round io B P is (if s2 \<noteq> STATUS_INITDONE B \<and> i \<noteq> NOC_MASTER P then False else done) d)"

partial_function (option) noc_sync_master :: "'d noc_io \<Rightarrow> boot_words \<Rightarrow> noc_platform \<Rightarrow> 'd \<Rightarrow> 'd option" where
  "noc_sync_master io B P d =
     (case noc_sync_round io B P (map of_nat [0..<unat (get_cpucnt io)]) True d of
        (done, d) \<Rightarrow> if \<not> done then noc_sync_master io B P d else Some d)"

definition noc_sync :: "'d noc_io \<Rightarrow> boot_words \<Rightarrow> noc_platform \<Rightarrow> 'd \<Rightarrow> 'd option" where
  "noc_sync io B P d =
     (if get_cpuid io = NOC_MASTER P
      then do { d \<leftarrow> noc_sync_master io B P d; Some (io_wr io (master_status_addr B) (STATUS_INITDONE B) d) }
      else wait_word io (master_status_addr B) (STATUS_INITDONE B)
             (io_wr io (slave_status_addr B (get_cpuid io)) (STATUS_INITDONE B) d))"

definition noc_init :: "'d noc_io \<Rightarrow> boot_words \<Rightarrow> noc_platform \<Rightarrow> 'd \<Rightarrow> 'd option" where
  "noc_init io B P d =
     do { (_, d) \<leftarrow> noc_configure io P d;
          d \<leftarrow> noc_sync io B P d;
          noc_enable io P d }"

section \<open>Transfers\<close>

text \<open>From bytes to words, rounding up; and the offset of a pointer in the communication memory.\<close>

definition noc_W :: "u32 \<Rightarrow> u32" where
  "noc_W x = (x + 3) div 4"

definition noc_conf :: "'d noc_io \<Rightarrow> u32 \<Rightarrow> u32 \<Rightarrow> u32 \<Rightarrow> u32 \<Rightarrow> 'd \<Rightarrow> bool \<times> 'd" where
  "noc_conf io dma_id dst src sz d =
     (let wp = dst - NOC_SPM_BASE io;
          rp = src - NOC_SPM_BASE io
      in noc_dma_write io dma_id (ucast (noc_W wp)) (ucast (noc_W rp)) (ucast (noc_W sz)) (ucast CONFIG_PKT_TYPE) d)"

definition noc_irq :: "'d noc_io \<Rightarrow> u32 \<Rightarrow> u32 \<Rightarrow> u32 \<Rightarrow> 'd \<Rightarrow> bool \<times> 'd" where
  "noc_irq io dma_id dst src d =
     (let wp = dst - NOC_SPM_BASE io;
          rp = src - NOC_SPM_BASE io
      in noc_dma_write io dma_id (ucast (noc_W wp)) (ucast (noc_W rp)) 1 (ucast IRQ_PKT_TYPE) d)"

definition noc_nbwrite :: "'d noc_io \<Rightarrow> u32 \<Rightarrow> u32 \<Rightarrow> u32 \<Rightarrow> u32 \<Rightarrow> u32 \<Rightarrow> 'd \<Rightarrow> bool \<times> 'd" where
  "noc_nbwrite io dma_id dst src sz irq_enable d =
     (let start = (\<lambda>pkt_type.
            let wp = dst - NOC_SPM_BASE io;
                rp = src - NOC_SPM_BASE io
            in noc_dma_write io dma_id (ucast (noc_W wp)) (ucast (noc_W rp)) (ucast (noc_W sz)) (ucast pkt_type) d)
      in if irq_enable = 1 then start DATA_IRQ_PKT_TYPE
         else if irq_enable = 0 then start DATA_PKT_TYPE
         else (False, d))"

partial_function (option) noc_write :: "'d noc_io \<Rightarrow> u32 \<Rightarrow> u32 \<Rightarrow> u32 \<Rightarrow> u32 \<Rightarrow> u32 \<Rightarrow> 'd \<Rightarrow> 'd option" where
  "noc_write io dma_id dst src sz irq_enable d =
     (case noc_nbwrite io dma_id dst src sz irq_enable d of
        (ok, d) \<Rightarrow> if \<not> ok then noc_write io dma_id dst src sz irq_enable d else Some d)"

text \<open>One round of \<open>noc_multisend\<close> over the receivers (number and destination).\<close>

fun multisend_round ::
    "'d noc_io \<Rightarrow> u32 \<Rightarrow> u32 \<Rightarrow> u32 \<Rightarrow> (u32 \<times> u32) list \<Rightarrow> coreset_t \<times> bool \<Rightarrow> 'd \<Rightarrow> (coreset_t \<times> bool) \<times> 'd" where
  "multisend_round io src sz irq_enable [] (sent, done) d = ((sent, done), d)"
| "multisend_round io src sz irq_enable ((dma_id, dst) # rs) (sent, done) d =
     (if coreset_contains dma_id sent = 0
      then let (ok, d) = noc_nbwrite io dma_id dst src sz irq_enable d
           in multisend_round io src sz irq_enable rs (if ok then (coreset_add dma_id sent, done) else (sent, False)) d
      else multisend_round io src sz irq_enable rs (sent, done) d)"

partial_function (option) multisend_loop ::
    "'d noc_io \<Rightarrow> u32 \<Rightarrow> u32 \<Rightarrow> u32 \<Rightarrow> (u32 \<times> u32) list \<Rightarrow> coreset_t \<Rightarrow> 'd \<Rightarrow> 'd option" where
  "multisend_loop io src sz irq_enable rs sent d =
     (case multisend_round io src sz irq_enable rs (sent, True) d of
        ((sent, done), d) \<Rightarrow> if \<not> done then multisend_loop io src sz irq_enable rs sent d else Some d)"

definition noc_multisend :: "'d noc_io \<Rightarrow> (u32 \<times> u32) list \<Rightarrow> u32 \<Rightarrow> u32 \<Rightarrow> u32 \<Rightarrow> 'd \<Rightarrow> 'd option" where
  "noc_multisend io rs src sz irq_enable d =
     multisend_loop io src sz irq_enable rs (coreset_clearall \<lparr>core_bits = 0\<rparr>) d"

text \<open>
  The loop of \<open>noc_multisend_cs\<close> over the remaining cores; \<open>dst\<close> is the array of destinations
  from the current index on.
\<close>

fun multisend_cs_loop ::
    "'d noc_io \<Rightarrow> coreset_t \<Rightarrow> u32 \<Rightarrow> u32 \<Rightarrow> u32 \<Rightarrow> u32 \<Rightarrow> u32 list \<Rightarrow> u32 list \<Rightarrow> 'd \<Rightarrow> 'd option" where
  "multisend_cs_loop io receivers offset src sz irq_enable [] dst d = Some d"
| "multisend_cs_loop io receivers offset src sz irq_enable (i # is) dst d =
     (if coreset_contains i receivers \<noteq> 0
      then do { d \<leftarrow> (if i \<noteq> get_cpuid io
                      then (case dst of [] \<Rightarrow> None | a # _ \<Rightarrow> noc_write io i (a + offset) src sz irq_enable d)
                      else Some d);
                multisend_cs_loop io receivers offset src sz irq_enable is (tl dst) d }
      else multisend_cs_loop io receivers offset src sz irq_enable is dst d)"

definition noc_multisend_cs ::
    "'d noc_io \<Rightarrow> noc_platform \<Rightarrow> coreset_t \<Rightarrow> u32 list \<Rightarrow> u32 \<Rightarrow> u32 \<Rightarrow> u32 \<Rightarrow> u32 \<Rightarrow> 'd \<Rightarrow> 'd option" where
  "noc_multisend_cs io P receivers dst offset src sz irq_enable d =
     multisend_cs_loop io receivers offset src sz irq_enable (map of_nat [0..<unat (NOC_CORES P)]) dst d"

partial_function (option) wait_dma_done :: "'d noc_io \<Rightarrow> u32 \<Rightarrow> 'd \<Rightarrow> 'd option" where
  "wait_dma_done io dma_id d =
     (case noc_dma_done io dma_id d of (done, d) \<Rightarrow> if \<not> done then wait_dma_done io dma_id d else Some d)"

fun wait_dma_loop :: "'d noc_io \<Rightarrow> coreset_t \<Rightarrow> u32 list \<Rightarrow> 'd \<Rightarrow> 'd option" where
  "wait_dma_loop io receivers [] d = Some d"
| "wait_dma_loop io receivers (i # is) d =
     (if coreset_contains i receivers \<noteq> 0 \<and> i \<noteq> get_cpuid io
      then do { d \<leftarrow> wait_dma_done io i d; wait_dma_loop io receivers is d }
      else wait_dma_loop io receivers is d)"

definition noc_wait_dma :: "'d noc_io \<Rightarrow> noc_platform \<Rightarrow> coreset_t \<Rightarrow> 'd \<Rightarrow> 'd option" where
  "noc_wait_dma io P receivers d = wait_dma_loop io receivers (map of_nat [0..<unat (NOC_CORES P)]) d"

section \<open>Interrupt handlers\<close>

definition remote_irq :: "'d noc_io \<Rightarrow> 'd \<Rightarrow> 'd" where
  "remote_irq io d =
     (let (tmp, d) = io_rd io (NOC_IRQ_BASE io) d;
          d = io_wr io (NOC_SPM_BASE io + 4 * push_bit 2 tmp) 0 d
      in intr_clear_pending io d)"

definition data_recv :: "'d noc_io \<Rightarrow> 'd \<Rightarrow> 'd" where
  "data_recv io d =
     (let (tmp, d) = io_rd io (NOC_IRQ_BASE io + 4) d;
          d = io_wr io (NOC_SPM_BASE io + 4 * push_bit 2 tmp) 0 d
      in intr_clear_pending io d)"

section \<open>Finding the size of a memory\<close>

text \<open>
  A memory of \<open>2 ^ k\<close> words whose address wraps around at its end: what \<open>find_mem_size\<close> and
  \<open>test_spm_size\<close> rely on. Nothing is said about addresses further behind the end.
\<close>

definition wrapping_memory :: "'d noc_io \<Rightarrow> u32 \<Rightarrow> nat \<Rightarrow> ('d \<Rightarrow> nat \<Rightarrow> u32) \<Rightarrow> bool" where
  "wrapping_memory io base k contents \<longleftrightarrow>
     (\<forall>i d. unat i \<le> 2 ^ k \<longrightarrow> io_rd io (base + 4 * i) d = (contents d (unat i mod 2 ^ k), d)) \<and>
     (\<forall>i v d. unat i \<le> 2 ^ k \<longrightarrow> contents (io_wr io (base + 4 * i) v d) = (contents d)(unat i mod 2 ^ k := v))"

lemma wrapping_memoryD:
  assumes "wrapping_memory io base k contents"
  shows "unat i \<le> 2 ^ k \<Longrightarrow> io_rd io (base + 4 * i) d = (contents d (unat i mod 2 ^ k), d)"
    and "unat i \<le> 2 ^ k \<Longrightarrow> contents (io_wr io (base + 4 * i) v d) = (contents d)(unat i mod 2 ^ k := v)"
    and "io_rd io base d = (contents d 0, d)"
    and "contents (io_wr io base v d) = (contents d)(0 := v)"
proof -
  have rd: "io_rd io (base + 4 * i) d = (contents d (unat i mod 2 ^ k), d)" if "unat i \<le> 2 ^ k" for i d
    using assms that unfolding wrapping_memory_def by blast
  have wr: "contents (io_wr io (base + 4 * i) v d) = (contents d)(unat i mod 2 ^ k := v)" if "unat i \<le> 2 ^ k" for i v d
    using assms that unfolding wrapping_memory_def by blast
  show "unat i \<le> 2 ^ k \<Longrightarrow> io_rd io (base + 4 * i) d = (contents d (unat i mod 2 ^ k), d)"
    and "unat i \<le> 2 ^ k \<Longrightarrow> contents (io_wr io (base + 4 * i) v d) = (contents d)(unat i mod 2 ^ k := v)" by (rule rd wr, assumption)+
  show "io_rd io base d = (contents d 0, d)" using rd [of 0] by simp
  show "contents (io_wr io base v d) = (contents d)(0 := v)" using wr [of 0] by simp
qed

lemma unat_2_power: "m < 32 \<Longrightarrow> unat (2 ^ m :: u32) = 2 ^ m"
  using of_nat_u32 [of "2 ^ m"] power_strict_increasing [of m 32 "2 :: nat"] by simp

lemma two_power_mod: "m < k \<Longrightarrow> (2::nat) ^ m mod 2 ^ k = 2 ^ m" "(2::nat) ^ k mod 2 ^ k = 0"
  by simp_all

lemma mem_probe_wrapping:
  assumes W: "wrapping_memory io base k contents"
    and "1 \<le> m" "m \<le> k" "k \<le> 28" "n + m = 29" "m < k \<Longrightarrow> contents d 0 = 0xFFEEDDCC"
  shows "\<exists>d'. mem_probe io bad base init n (2 ^ m) d = (2 ^ (k + 2), d') \<and>
    contents d' = (\<lambda>j. if j = 0 then init else if \<exists>i. m \<le> i \<and> i < k \<and> j = 2 ^ i then 0 else contents d j)"
  using assms(2-)
proof (induction n arbitrary: m d)
  case 0
  then show ?case by simp
next
  case (Suc n)
  note w = wrapping_memoryD [OF W]
  show ?case
  proof (cases "m = k")
    case True
    then show ?thesis using Suc.prems
      by (auto simp: w unat_2_power fun_eq_iff push_bit_eq_mult power_add)
  next
    case False
    then have m: "m < k" using Suc.prems by simp
    let ?d = "io_wr io (base + 4 * 2 ^ m) 0 d"
    let ?d2 = "io_wr io (base + 4 * (2 * 2 ^ m)) (contents d (2 ^ m)) ?d"
    have step: "mem_probe io bad base init (Suc n) (2 ^ m) d = mem_probe io bad base init n (2 ^ Suc m) ?d2"
      using m Suc.prems by (simp add: w unat_2_power push_bit_eq_mult mult.commute)
    have u: "unat (2 * 2 ^ m :: u32) = 2 ^ Suc m" using unat_2_power [of "Suc m"] m Suc.prems by simp
    have le: "unat (2 ^ m :: u32) \<le> 2 ^ k" "unat (2 * 2 ^ m :: u32) \<le> 2 ^ k"
      unfolding u using m Suc.prems by (simp_all add: unat_2_power Suc_leI del: power_Suc)
    have c: "contents ?d2 = (contents d)(2 ^ m := 0, 2 ^ Suc m mod 2 ^ k := contents d (2 ^ m))"
      unfolding w(2) [OF le(1)] w(2) [OF le(2)] u using m Suc.prems by (simp add: unat_2_power)
    have ne: "2 ^ m \<noteq> (2 :: nat) ^ Suc m mod 2 ^ k"
      using m by (cases "Suc m = k") (simp_all del: power_Suc)
    have "Suc m < k \<Longrightarrow> contents ?d2 0 = 0xFFEEDDCC" unfolding c using m Suc.prems by (simp del: power_Suc)
    then obtain d' where d': "mem_probe io bad base init n (2 ^ Suc m) ?d2 = (2 ^ (k + 2), d')"
      "contents d' = (\<lambda>j. if j = 0 then init else if \<exists>i. Suc m \<le> i \<and> i < k \<and> j = 2 ^ i then 0 else contents ?d2 j)"
      using Suc.IH [of "Suc m" ?d2] m Suc.prems by auto
    have "contents d' = (\<lambda>j. if j = 0 then init else if \<exists>i. m \<le> i \<and> i < k \<and> j = 2 ^ i then 0 else contents d j)"
    proof
      fix j :: nat
      consider "j = 0" | "j = 2 ^ m" | "j \<noteq> 0" "j = 2 ^ Suc m mod 2 ^ k" | "j \<noteq> 0" "j \<noteq> 2 ^ m" "j \<noteq> 2 ^ Suc m mod 2 ^ k" by blast
      then show "contents d' j = (if j = 0 then init else if \<exists>i. m \<le> i \<and> i < k \<and> j = 2 ^ i then 0 else contents d j)"
      proof cases
        case 2
        then show ?thesis unfolding d'(2) c using m ne by (auto simp del: power_Suc)
      next
        case 3
        have "Suc m < k" proof (rule ccontr)
          assume "\<not> Suc m < k"
          then have "Suc m = k" using m by simp
          then show False using 3 by (simp del: power_Suc)
        qed
        then have "j = 2 ^ Suc m" using 3 by (simp del: power_Suc)
        then show ?thesis unfolding d'(2) using \<open>Suc m < k\<close> by (auto simp del: power_Suc intro: exI [of _ "Suc m"])
      next
        case 4
        have "(\<exists>i. Suc m \<le> i \<and> i < k \<and> j = 2 ^ i) \<longleftrightarrow> (\<exists>i. m \<le> i \<and> i < k \<and> j = 2 ^ i)"
          using 4(2) le_antisym not_less_eq_eq by (metis le_SucI le_refl Suc_leD)
        then show ?thesis unfolding d'(2) c using 4 by (simp del: power_Suc) blast
      qed (simp add: d'(2))
    qed
    then show ?thesis using step d'(1) by auto
  qed
qed

text \<open>
  C28. \<open>find_mem_size\<close> finds the size of a memory whose addresses wrap around, up to \<open>2 ^ 28\<close> words, in bytes. It restores
  the first word, but of the words at the powers of two that it has tested it restores none: each of
  them is cleared, since the saved value is written back to the next address that is tested.
\<close>

theorem find_mem_size_wrapping:
  assumes "wrapping_memory io base k contents" "1 \<le> k" "k \<le> 28"
  shows "\<exists>d'. find_mem_size io base d = (2 ^ (k + 2), d') \<and>
    contents d' = (\<lambda>j. if \<exists>i. 1 \<le> i \<and> i < k \<and> j = 2 ^ i then 0 else contents d j)"
proof -
  note w = wrapping_memoryD [OF assms(1)]
  obtain d' where d': "mem_probe io (-1) base (contents d 0) 28 2 (io_wr io base 0xFFEEDDCC d) = (2 ^ (k + 2), d')"
    "contents d' = (\<lambda>j. if j = 0 then contents d 0 else if \<exists>i. 1 \<le> i \<and> i < k \<and> j = 2 ^ i then 0
        else contents (io_wr io base 0xFFEEDDCC d) j)"
    using mem_probe_wrapping [OF assms(1), of 1 28 "io_wr io base 0xFFEEDDCC d" "-1" "contents d 0"] assms(2,3)
    by (auto simp: w)
  then show ?thesis by (auto simp: find_mem_size_def w fun_eq_iff)
qed

text \<open>A memory of eight words at address 0.\<close>

definition small_ram :: "(nat \<Rightarrow> u32) noc_io" where
  "small_ram = \<lparr>io_rd = (\<lambda>a m. (m (unat a div 4 mod 8), m)), io_wr = (\<lambda>a v m. m(unat a div 4 mod 8 := v)),
     exc_register = (\<lambda>_ _ m. m), intr_clear_pending = (\<lambda>m. m), PATMOS_IO_ARGO = 0, get_cpuid = 0, get_cpucnt = 1\<rparr>"

lemma small_ram_wraps: "wrapping_memory small_ram 0 3 (\<lambda>m. m)"
proof -
  have "unat (4 * i :: u32) div 4 mod 8 = unat i mod 8" for i :: u32
  proof -
    have "unat (4 * i) = 4 * unat i mod 2 ^ 32" by (simp add: unat_word_ariths)
    also have "\<dots> = 4 * (unat i mod 2 ^ 30)" by (simp add: mult_mod_right)
    finally show ?thesis by (simp add: mod_mod_cancel)
  qed
  then show ?thesis by (simp add: wrapping_memory_def small_ram_def)
qed

theorem find_mem_size_wrapping_witness:
  "\<exists>d'. find_mem_size small_ram 0 (\<lambda>j. of_nat j + 7) = (32, d') \<and> d' 2 = 0 \<and> d' 4 = 0 \<and> d' 3 = 10 \<and> d' 0 = 7"
proof -
  have *: "\<not> (\<exists>i. 1 \<le> i \<and> i < 3 \<and> (3::nat) = 2 ^ i)" "\<not> (\<exists>i. 1 \<le> i \<and> i < 3 \<and> (0::nat) = 2 ^ i)"
    "\<exists>i. 1 \<le> i \<and> i < (3::nat) \<and> (2::nat) = 2 ^ i" "\<exists>i. 1 \<le> i \<and> i < (3::nat) \<and> (4::nat) = 2 ^ i"
    by (auto simp: less_Suc_eq numeral_3_eq_3 intro: exI [of _ 1] exI [of _ 2])
  show ?thesis
    using find_mem_size_wrapping [OF small_ram_wraps, of "\<lambda>j. of_nat j + 7"] * by auto
qed

section \<open>The entry of a transfer\<close>

lemma bit_below: "unat (x :: u16) < 2 ^ k \<Longrightarrow> bit x i \<Longrightarrow> i < k"
proof (rule ccontr)
  assume x: "unat x < 2 ^ k" and b: "bit x i" and "\<not> i < k"
  then have "2 ^ k \<le> (2 :: nat) ^ i" by (simp add: power_increasing)
  moreover have "bit (unat x) i" using b by (simp add: bit_unsigned_iff)
  moreover from calculation(1) have "unat x div 2 ^ i = 0" using x by (intro div_less) linarith
  ultimately show False by (simp add: bit_iff_odd)
qed

lemma dma_fields:
  fixes p :: u32 and x n :: u16
  assumes "unat x < 2 ^ 14" "unat p < 4"
  shows "take_bit 14 (push_bit 14 p OR ucast x) = ucast x" "drop_bit 14 (push_bit 14 p OR ucast x) = p"
    and "take_bit 14 (NOC_ACTIVE_BIT OR push_bit 14 (ucast n) OR ucast x) = ucast x"
    and "take_bit 17 (drop_bit 14 (NOC_ACTIVE_BIT OR push_bit 14 (ucast n) OR ucast x)) = ucast n"
    and "bit (NOC_ACTIVE_BIT OR push_bit 14 (ucast n) OR ucast x :: u32) 31"
proof -
  have a: "bit (NOC_ACTIVE_BIT) i \<longleftrightarrow> i = 31" for i
  proof -
    have "(0x80000000 :: u32) = push_bit 31 1" by simp
    then show ?thesis by (simp only: bit_push_bit_iff) (auto simp: bit_1_iff)
  qed
  have p: "bit p i \<Longrightarrow> i < 2" for i
  proof -
    assume "bit p i"
    moreover have "p = take_bit 2 p" using assms(2) by (simp add: word_unat_eq_iff unsigned_take_bit_eq take_bit_nat_eq_self)
    ultimately have "bit (take_bit 2 p) i" by simp
    then show "i < 2" by (simp add: bit_take_bit_iff)
  qed
  note x = bit_below [OF assms(1)]
  show "take_bit 14 (push_bit 14 p OR ucast x) = ucast x"
    by (rule bit_word_eqI) (auto simp: bits dest: x bit_lt_len)
  show "drop_bit 14 (push_bit 14 p OR ucast x) = p"
    by (rule bit_word_eqI) (auto simp: bits dest: x p bit_lt_len)
  show "take_bit 14 (NOC_ACTIVE_BIT OR push_bit 14 (ucast n) OR ucast x) = ucast x"
    by (rule bit_word_eqI) (auto simp: bits a dest: x bit_lt_len)
  show "take_bit 17 (drop_bit 14 (NOC_ACTIVE_BIT OR push_bit 14 (ucast n) OR ucast x)) = ucast n"
    by (rule bit_word_eqI) (auto simp: bits a dest: x bit_lt_len)
  show "bit (NOC_ACTIVE_BIT OR push_bit 14 (ucast n) OR ucast x :: u32) 31"
    by (simp add: bits a)
qed

lemma unat_noc_W: "unat x + 3 < 2 ^ 32 \<Longrightarrow> unat (noc_W x) = (unat x + 3) div 4"
  by (simp add: noc_W_def unat_div unat_word_ariths)

lemma unat_u16_of_u32: "unat (x :: u32) < 2 ^ 16 \<Longrightarrow> unat (ucast x :: u16) = unat x"
  by (simp add: unsigned_ucast_eq take_bit_nat_eq_self)

lemma noc_nbwrite_words:
  assumes "noc_dma_done io dma_id d = (True, d1)" "irq_enable = 0 \<or> irq_enable = 1"
    and "unat (dst - NOC_SPM_BASE io) \<le> 4 * (2 ^ 14 - 1)" "unat (src - NOC_SPM_BASE io) \<le> 4 * (2 ^ 14 - 1)"
    and "unat sz \<le> 4 * (2 ^ 16 - 1)"
  shows "\<exists>w0 w1. noc_nbwrite io dma_id dst src sz irq_enable d
      = (True, io_wr io (NOC_DMA_BASE io + 8 * dma_id + 4) w1 (io_wr io (NOC_DMA_BASE io + 8 * dma_id) w0 d1))
    \<and> unat (take_bit 14 w0) = (unat (dst - NOC_SPM_BASE io) + 3) div 4
    \<and> drop_bit 14 w0 = (if irq_enable = 1 then DATA_IRQ_PKT_TYPE else DATA_PKT_TYPE)
    \<and> unat (take_bit 14 w1) = (unat (src - NOC_SPM_BASE io) + 3) div 4
    \<and> unat (take_bit 17 (drop_bit 14 w1)) = (unat sz + 3) div 4
    \<and> bit w1 31"
proof -
  define w :: u16 where "w = ucast (noc_W (dst - NOC_SPM_BASE io))"
  define r :: u16 where "r = ucast (noc_W (src - NOC_SPM_BASE io))"
  define n :: u16 where "n = ucast (noc_W sz)"
  define p :: u32 where "p = (if irq_enable = 1 then DATA_IRQ_PKT_TYPE else DATA_PKT_TYPE)"
  have ww: "unat w = (unat (dst - NOC_SPM_BASE io) + 3) div 4" "unat w < 2 ^ 14"
    using assms(3) by (simp_all add: w_def unat_u16_of_u32 unat_noc_W)
  have rr: "unat r = (unat (src - NOC_SPM_BASE io) + 3) div 4" "unat r < 2 ^ 14"
    using assms(4) by (simp_all add: r_def unat_u16_of_u32 unat_noc_W)
  have nn: "unat n = (unat sz + 3) div 4"
    using assms(5) by (simp add: n_def unat_u16_of_u32 unat_noc_W)
  have pp: "unat p < 4" by (simp add: p_def)
  let ?w0 = "push_bit 14 p OR ucast w :: u32"
  let ?w1 = "NOC_ACTIVE_BIT OR push_bit 14 (ucast n) OR ucast r :: u32"
  have small: "\<not> (3 :: u8) < ucast p" "ucast (ucast p :: u8) = p"
    by (simp_all add: p_def word_less_nat_alt)
  have "noc_nbwrite io dma_id dst src sz irq_enable d = noc_dma_write io dma_id w r n (ucast p) d"
    using assms(2) by (auto simp: noc_nbwrite_def w_def r_def n_def p_def Let_def)
  also have "\<dots> = (True, io_wr io (NOC_DMA_BASE io + 8 * dma_id + 4) ?w1 (io_wr io (NOC_DMA_BASE io + 8 * dma_id) ?w0 d1))"
    using assms(1) by (simp add: noc_dma_write_def k_noc_dma_write_def noc_dma_done_def small push_bit_eq_mult algebra_simps)
  finally have "noc_nbwrite io dma_id dst src sz irq_enable d
      = (True, io_wr io (NOC_DMA_BASE io + 8 * dma_id + 4) ?w1 (io_wr io (NOC_DMA_BASE io + 8 * dma_id) ?w0 d1))" .
  moreover have "unat (take_bit 14 ?w0) = (unat (dst - NOC_SPM_BASE io) + 3) div 4"
    "unat (take_bit 14 ?w1) = (unat (src - NOC_SPM_BASE io) + 3) div 4"
    "unat (take_bit 17 (drop_bit 14 ?w1)) = (unat sz + 3) div 4"
    unfolding dma_fields [OF ww(2) pp] dma_fields [OF rr(2) pp] unat_ucast_u16 by (rule ww rr nn)+
  ultimately show ?thesis
    using dma_fields(2) [OF ww(2) pp] dma_fields(5) [OF rr(2) pp, of n] unfolding p_def [symmetric] by blast
qed

lemma noc_nbwrite_busy: "noc_dma_done io dma_id d = (False, d1) \<Longrightarrow> irq_enable = 0 \<or> irq_enable = 1 \<Longrightarrow>
    noc_nbwrite io dma_id dst src sz irq_enable d = (False, d1)"
  by (auto simp: noc_nbwrite_def noc_dma_write_def k_noc_dma_write_def noc_dma_done_def)

text \<open>
  C23. What a transfer puts into the DMA table. When the entry is in use, \<open>noc_nbwrite\<close> writes nothing and
  returns 0. When it is free, the pointers are in the first 64 KByte of the communication memory and
  the size fits the 16-bit count, it writes two words: the first has the word offset of
  the destination in its 14 low bits and the packet type above, the second has the active bit,
  the number of words and the word offset of the source. Pointers and sizes are rounded up
  to words.
\<close>

theorem noc_nbwrite_entry:
  assumes "noc_dma_done io dma_id d = (free, d1)" "irq_enable = 0 \<or> irq_enable = 1"
    and "unat (dst - NOC_SPM_BASE io) \<le> 4 * (2 ^ 14 - 1)" "unat (src - NOC_SPM_BASE io) \<le> 4 * (2 ^ 14 - 1)"
    and "unat sz \<le> 4 * (2 ^ 16 - 1)"
  shows "if \<not> free then noc_nbwrite io dma_id dst src sz irq_enable d = (False, d1)
    else (\<exists>w0 w1. noc_nbwrite io dma_id dst src sz irq_enable d
        = (True, io_wr io (NOC_DMA_BASE io + 8 * dma_id + 4) w1 (io_wr io (NOC_DMA_BASE io + 8 * dma_id) w0 d1))
      \<and> unat (take_bit 14 w0) = (unat (dst - NOC_SPM_BASE io) + 3) div 4
      \<and> drop_bit 14 w0 = (if irq_enable = 1 then DATA_IRQ_PKT_TYPE else DATA_PKT_TYPE)
      \<and> unat (take_bit 14 w1) = (unat (src - NOC_SPM_BASE io) + 3) div 4
      \<and> unat (take_bit 17 (drop_bit 14 w1)) = (unat sz + 3) div 4
      \<and> bit w1 31)"
  using noc_nbwrite_words [OF _ assms(2-5), of dma_id d d1] noc_nbwrite_busy [OF _ assms(2), of io dma_id d d1] assms(1)
  by (cases free) auto

theorem noc_nbwrite_entry_witness:
  "\<exists>w0 w1. noc_nbwrite small_ram 2 0x4000010 0x4000020 9 1 (\<lambda>_. 0)
      = (True, io_wr small_ram 20 w1 (io_wr small_ram 16 w0 (\<lambda>_. 0)))
    \<and> unat (take_bit 14 w0) = 4 \<and> drop_bit 14 w0 = 2 \<and> unat (take_bit 14 w1) = 8 \<and> unat (take_bit 17 (drop_bit 14 w1)) = 3"
proof -
  have "noc_dma_done small_ram 2 (\<lambda>_. 0) = (True, \<lambda>_. 0)"
    by (simp add: noc_dma_done_def k_noc_dma_done_def small_ram_def)
  from noc_nbwrite_entry [OF this, of 1 "0x4000010" "0x4000020" 9] show ?thesis
    by (auto simp: NOC_SPM_BASE_def NOC_DMA_BASE_def BANK_def small_ram_def)
qed
end
