(* ===== verification/Mp_Ports.thy ===== *)
theory Mp_Ports
  imports Noc_Driver
begin

text \<open>
  \<open>c/libmp/mp.c\<close>, \<open>queuing.c\<close>, \<open>utils.c\<close> and the creation of ports and locks of \<open>sampling.c\<close> and \<open>lock.c\<close>:
  memory management in the communication memory, the table of channels, and queuing ports.
  Message buffers and counters are words of the communication memory and are accessed
  through \<open>noc_io\<close>. Descriptors are records, kept by core and address: only the
  core that owns one follows a pointer to it. The debug output is left out. \<open>get_cpu_usecs\<close> is a
  parameter; \<open>None\<close> is not returning, or \<open>abort\<close>.
\<close>

datatype direction_t = SOURCE | SINK
datatype port_t = SAMPLING | QUEUING

record LOCK_T =
  remote_entering :: u32
  remote_number :: u32
  local_entering :: u32
  local_number :: u32
  remote_ptr :: u32
  remote_cpuid :: u8

record qpd_t =
  direction_type :: direction_t
  remote :: u8
  recv_addr :: u32
  send_recv_count :: u32
  buf_size :: u32
  num_buf :: u32
  write_buf :: u32
  shadow_write_buf :: u32
  send_count :: u32
  send_ptr :: u32
  read_buf :: u32
  recv_count :: u32
  recv_ptr :: u32

record spd_t =
  s_direction_type :: direction_t
  s_remote :: u8
  remote_spd :: u32
  read_bufs :: u32
  read_shm_buf :: u32
  sample_size :: u32
  s_lock :: u32
  reading :: u32
  s_next :: u32
  newest :: u32
  next_reading :: u32

text \<open>The two descriptor pointers of a channel are unions of a queuing and a sampling pointer.\<close>

record chan_info_t =
  port_type :: port_t
  src_id :: u32
  sink_id :: u32
  src_addr :: u32
  sink_addr :: u32
  src_lock :: u32
  sink_lock :: u32
  src_desc_ptr :: u32
  sink_desc_ptr :: u32

record mp_mem =
  spm_alloc_array :: "u32 \<Rightarrow> u32"
  spm_size_array :: "u32 \<Rightarrow> u32"
  chan_info :: "nat \<Rightarrow> chan_info_t"
  qpds :: "u32 \<Rightarrow> u32 \<Rightarrow> qpd_t"
  spds :: "u32 \<Rightarrow> u32 \<Rightarrow> spd_t"
  locks :: "u32 \<Rightarrow> u32 \<Rightarrow> LOCK_T"

abbreviation (input) MAX_CHANNELS :: nat where "MAX_CHANNELS \<equiv> 256"
abbreviation (input) FLAG_VALID :: u32 where "FLAG_VALID \<equiv> 0xFFFFFFFF"
abbreviation (input) FLAG_INVALID :: u32 where "FLAG_INVALID \<equiv> 0"
abbreviation (input) FLAG_SIZE :: u32 where "FLAG_SIZE \<equiv> 4"
abbreviation (input) NUM_WRITE_BUF :: u32 where "NUM_WRITE_BUF \<equiv> 2"

definition WALIGN :: "u32 \<Rightarrow> u32" where
  "WALIGN x = (x + 3) AND NOT 3"

definition upd_chan :: "nat \<Rightarrow> (chan_info_t \<Rightarrow> chan_info_t) \<Rightarrow> mp_mem \<Rightarrow> mp_mem" where
  "upd_chan c f m = m\<lparr>chan_info := (chan_info m)(c := f (chan_info m c))\<rparr>"

definition upd_qpd :: "u32 \<Rightarrow> u32 \<Rightarrow> (qpd_t \<Rightarrow> qpd_t) \<Rightarrow> mp_mem \<Rightarrow> mp_mem" where
  "upd_qpd cpu p f m = m\<lparr>qpds := (qpds m)(cpu := (qpds m cpu)(p := f (qpds m cpu p)))\<rparr>"

definition upd_spd :: "u32 \<Rightarrow> u32 \<Rightarrow> (spd_t \<Rightarrow> spd_t) \<Rightarrow> mp_mem \<Rightarrow> mp_mem" where
  "upd_spd cpu p f m = m\<lparr>spds := (spds m)(cpu := (spds m cpu)(p := f (spds m cpu p)))\<rparr>"

definition upd_lock :: "u32 \<Rightarrow> u32 \<Rightarrow> (LOCK_T \<Rightarrow> LOCK_T) \<Rightarrow> mp_mem \<Rightarrow> mp_mem" where
  "upd_lock cpu p f m = m\<lparr>locks := (locks m)(cpu := (locks m cpu)(p := f (locks m cpu p)))\<rparr>"

section \<open>Memory management\<close>

definition mp_alloc :: "'d noc_io \<Rightarrow> u32 \<Rightarrow> mp_mem \<Rightarrow> u32 \<times> mp_mem" where
  "mp_alloc io sz m =
     (let cpuid = get_cpuid io;
          w_size = WALIGN sz;
          mem_ptr = spm_alloc_array m cpuid;
          new_addr = mem_ptr + w_size
      in if new_addr < NOC_SPM_BASE io then (0, m)
         else if new_addr > NOC_SPM_BASE io + 4 * spm_size_array m cpuid then (0, m)
         else (mem_ptr, m\<lparr>spm_alloc_array := (spm_alloc_array m)(cpuid := new_addr)\<rparr>))"

definition test_spm_size :: "'d noc_io \<Rightarrow> 'd \<Rightarrow> u32 \<times> 'd" where
  "test_spm_size io d =
     (let addr = NOC_SPM_BASE io;
          (init, d) = io_rd io addr d;
          d = io_wr io addr 0xFFEEDDCC d
      in mem_probe io (-2) addr init 28 2 d)"

definition mp_init :: "'d noc_io \<Rightarrow> mp_mem \<times> 'd \<Rightarrow> (mp_mem \<times> 'd) option" where
  "mp_init io md =
     (let (m, d) = md;
          cpuid = get_cpuid io;
          m = (if cpuid = 0
               then fold (\<lambda>i. upd_chan i (\<lambda>ch. ch\<lparr>src_id := -1, sink_id := -1, src_addr := 0, sink_addr := 0,
                           src_desc_ptr := 0, sink_desc_ptr := 0\<rparr>)) [0..<MAX_CHANNELS] m
               else m);
          (spm_size, d) = test_spm_size io d
      in if spm_size = -1 then None
         else if spm_size = -2 then None
         else let m = m\<lparr>spm_size_array := (spm_size_array m)(cpuid := spm_size),
                        spm_alloc_array := (spm_alloc_array m)(cpuid := NOC_SPM_BASE io)\<rparr>;
                  (spm_zero, m) = mp_alloc io (WALIGN 4) m
              in Some (m, io_wr io spm_zero 0 d))"

definition mp_send_alloc_size :: "qpd_t \<Rightarrow> u32" where
  "mp_send_alloc_size q = (buf_size q + FLAG_SIZE) * NUM_WRITE_BUF + WALIGN 4"

definition mp_recv_alloc_size :: "qpd_t \<Rightarrow> u32" where
  "mp_recv_alloc_size q = (buf_size q + FLAG_SIZE) * num_buf q + WALIGN 4"

section \<open>Creating ports\<close>

text \<open>The size of a descriptor, ten words.\<close>

abbreviation (input) sizeof_qpd :: u32 where "sizeof_qpd \<equiv> 40"
abbreviation (input) sizeof_spd :: u32 where "sizeof_spd \<equiv> 40"
abbreviation (input) sizeof_lock :: u32 where "sizeof_lock \<equiv> 24"

text \<open>\<open>src_id\<close> and \<open>sink_id\<close> are assigned through a cast to \<open>char\<close>.\<close>

definition char_id :: "u32 \<Rightarrow> u32" where
  "char_id cpuid = ucast (ucast cpuid :: u8)"

definition create_source :: "'d noc_io \<Rightarrow> nat \<Rightarrow> u32 \<Rightarrow> mp_mem \<times> 'd \<Rightarrow> u32 \<times> mp_mem \<times> 'd" where
  "create_source io chan_id p md =
     (let (m, d) = md;
          cpuid = get_cpuid io;
          q = qpds m cpuid p;
          (send_addr, m) = mp_alloc io (mp_send_alloc_size q) m
      in if send_addr = 0 then (0, m, d)
         else let send_recv_count_offset = (buf_size q + FLAG_SIZE) * NUM_WRITE_BUF;
                  m = upd_qpd cpuid p (\<lambda>q. q\<lparr>send_recv_count := send_addr + send_recv_count_offset\<rparr>) m;
                  m = upd_chan chan_id (\<lambda>ch. ch\<lparr>src_desc_ptr := p\<rparr>) m;
                  m = upd_chan chan_id (\<lambda>ch. ch\<lparr>src_addr := send_recv_count (qpds m cpuid p)\<rparr>) m;
                  m = upd_chan chan_id (\<lambda>ch. ch\<lparr>src_id := char_id cpuid\<rparr>) m;
                  d = io_wr io (send_recv_count (qpds m cpuid p)) 0 d;
                  m = upd_qpd cpuid p (\<lambda>q. q\<lparr>send_count := 0, send_ptr := 0, write_buf := send_addr,
                        shadow_write_buf := send_addr + (buf_size q + FLAG_SIZE)\<rparr>) m
              in (p, m, d))"

definition create_sink :: "'d noc_io \<Rightarrow> nat \<Rightarrow> u32 \<Rightarrow> u32 \<Rightarrow> mp_mem \<times> 'd \<Rightarrow> u32 \<times> mp_mem \<times> 'd" where
  "create_sink io chan_id p n_buf md =
     (let (m, d) = md;
          cpuid = get_cpuid io;
          (r, m) = mp_alloc io (mp_recv_alloc_size (qpds m cpuid p)) m;
          m = upd_qpd cpuid p (\<lambda>q. q\<lparr>recv_addr := r\<rparr>) m;
          m = upd_chan chan_id (\<lambda>ch. ch\<lparr>sink_desc_ptr := p\<rparr>) m;
          m = upd_chan chan_id (\<lambda>ch. ch\<lparr>sink_addr := recv_addr (qpds m cpuid p)\<rparr>) m;
          m = upd_chan chan_id (\<lambda>ch. ch\<lparr>sink_id := char_id cpuid\<rparr>) m
      in if recv_addr (qpds m cpuid p) = 0 then (0, m, d)
         else let m = upd_qpd cpuid p (\<lambda>q. q\<lparr>read_buf := recv_addr q, recv_ptr := 0\<rparr>) m;
                  recv_count_offset = (buf_size (qpds m cpuid p) + FLAG_SIZE) * n_buf;
                  m = upd_qpd cpuid p (\<lambda>q. q\<lparr>recv_count := recv_addr q + recv_count_offset\<rparr>) m;
                  q = qpds m cpuid p;
                  d = io_wr io (recv_count q) 0 d;
                  d = fold (\<lambda>i. io_wr io (recv_addr q + (buf_size q + FLAG_SIZE) * of_nat i + buf_size q) 0)
                        [0..<unat (num_buf q)] d
              in (p, m, d))"

definition mp_create_qport ::
    "'d noc_io \<Rightarrow> u32 \<Rightarrow> direction_t \<Rightarrow> u32 \<Rightarrow> u32 \<Rightarrow> mp_mem \<times> 'd \<Rightarrow> u32 \<times> mp_mem \<times> 'd" where
  "mp_create_qport io chan_id dir msg_size n_buf md =
     (let (m, d) = md in
      if unat chan_id \<ge> MAX_CHANNELS then (0, m, d)
      else let (p, m) = mp_alloc io sizeof_qpd m in
           if p = 0 then (0, m, d)
           else let m = upd_qpd (get_cpuid io) p (\<lambda>q. q\<lparr>direction_type := dir, buf_size := WALIGN msg_size, num_buf := n_buf\<rparr>) m;
                    m = upd_chan (unat chan_id) (\<lambda>ch. ch\<lparr>port_type := QUEUING\<rparr>) m
                in case dir of
                     SOURCE \<Rightarrow> create_source io (unat chan_id) p (m, d)
                   | SINK \<Rightarrow> create_sink io (unat chan_id) p n_buf (m, d))"

definition initialize_lock :: "'d noc_io \<Rightarrow> u32 \<Rightarrow> mp_mem \<Rightarrow> u32 \<times> mp_mem" where
  "initialize_lock io rmt m =
     (let (l, m) = mp_alloc io sizeof_lock m
      in (l, upd_lock (get_cpuid io) l (\<lambda>k. k\<lparr>remote_entering := 0, remote_number := 0, local_entering := 0,
               local_number := 0, remote_cpuid := ucast rmt\<rparr>) m))"

text \<open>
  \<open>mp_create_sport\<close> for the default implementation, \<open>DOUBLE_NOC\<close>. The pointer just stored in the channel
  table is compared with \<open>NULL\<close> although it was checked before.
\<close>

definition mp_create_sport :: "'d noc_io \<Rightarrow> u32 \<Rightarrow> direction_t \<Rightarrow> u32 \<Rightarrow> mp_mem \<Rightarrow> u32 \<times> mp_mem" where
  "mp_create_sport io chan_id dir s_size m =
     (let c = unat chan_id; cpuid = get_cpuid io in
      if c \<ge> MAX_CHANNELS then (0, m)
      else let (p, m) = mp_alloc io sizeof_spd m in
      if p = 0 then (0, m)
      else let m = upd_spd cpuid p (\<lambda>s. s\<lparr>s_direction_type := dir, sample_size := WALIGN s_size\<rparr>) m;
               (l, m) = initialize_lock io 0 m;
               m = upd_spd cpuid p (\<lambda>s. s\<lparr>s_lock := l\<rparr>) m
           in if l = 0 then (0, m)
      else let m = upd_chan c (\<lambda>ch. ch\<lparr>port_type := SAMPLING\<rparr>) m in
      case dir of
        SOURCE \<Rightarrow>
          let m = upd_spd cpuid p (\<lambda>s. s\<lparr>s_next := 0\<rparr>) m;
              m = upd_chan c (\<lambda>ch. ch\<lparr>src_desc_ptr := p\<rparr>) m
          in if src_desc_ptr (chan_info m c) = 0 then (0, m)
             else let m = upd_chan c (\<lambda>ch. ch\<lparr>src_lock := s_lock (spds m cpuid p)\<rparr>) m;
                      m = upd_chan c (\<lambda>ch. ch\<lparr>src_id := char_id cpuid\<rparr>) m
                  in (p, m)
      | SINK \<Rightarrow>
          let (r, m) = mp_alloc io (WALIGN s_size * 2) m;
              m = upd_spd cpuid p (\<lambda>s. s\<lparr>read_bufs := r, newest := -1\<rparr>) m;
              m = upd_chan c (\<lambda>ch. ch\<lparr>sink_desc_ptr := p\<rparr>) m
          in if sink_desc_ptr (chan_info m c) = 0 then (0, m)
             else let m = upd_chan c (\<lambda>ch. ch\<lparr>sink_lock := s_lock (spds m cpuid p)\<rparr>) m;
                      m = upd_chan c (\<lambda>ch. ch\<lparr>sink_addr := read_bufs (spds m cpuid p)\<rparr>) m
                  in if read_bufs (spds m cpuid p) = 0 then (0, m)
                     else (p, upd_chan c (\<lambda>ch. ch\<lparr>sink_id := char_id cpuid\<rparr>) m))"

section \<open>Connecting ports\<close>

text \<open>
  A core waits until the other end of a channel has announced itself. \<open>others\<close> is what the other
  cores do to the shared tables between two reads.
\<close>

partial_function (option) wait_sink :: "(mp_mem \<Rightarrow> mp_mem) \<Rightarrow> nat \<Rightarrow> mp_mem \<Rightarrow> mp_mem option" where
  "wait_sink others c m = (if sink_id (chan_info m c) = -1 then wait_sink others c (others m) else Some m)"

partial_function (option) wait_src :: "(mp_mem \<Rightarrow> mp_mem) \<Rightarrow> nat \<Rightarrow> mp_mem \<Rightarrow> mp_mem option" where
  "wait_src others c m = (if src_id (chan_info m c) = -1 then wait_src others c (others m) else Some m)"

definition connect_source :: "u32 \<Rightarrow> nat \<Rightarrow> mp_mem \<Rightarrow> mp_mem" where
  "connect_source cpuid c m =
     (let ch = chan_info m c; p = src_desc_ptr ch in
      case port_type ch of
        QUEUING \<Rightarrow> upd_qpd cpuid p (\<lambda>q. q\<lparr>recv_addr := sink_addr ch, remote := ucast (sink_id ch)\<rparr>) m
      | SAMPLING \<Rightarrow>
          let m = upd_spd cpuid p (\<lambda>s. s\<lparr>s_remote := ucast (sink_id ch)\<rparr>) m;
              m = upd_lock cpuid (s_lock (spds m cpuid p)) (\<lambda>k. k\<lparr>remote_cpuid := ucast (sink_id ch), remote_ptr := sink_lock ch\<rparr>) m
          in upd_spd cpuid p (\<lambda>s. s\<lparr>read_bufs := sink_addr ch, remote_spd := sink_desc_ptr ch\<rparr>) m)"

definition connect_sink :: "u32 \<Rightarrow> nat \<Rightarrow> mp_mem \<Rightarrow> mp_mem" where
  "connect_sink cpuid c m =
     (let ch = chan_info m c; p = sink_desc_ptr ch in
      case port_type ch of
        QUEUING \<Rightarrow> upd_qpd cpuid p (\<lambda>q. q\<lparr>send_recv_count := src_addr ch, remote := ucast (src_id ch)\<rparr>) m
      | SAMPLING \<Rightarrow>
          let m = upd_spd cpuid p (\<lambda>s. s\<lparr>s_remote := ucast (src_id ch)\<rparr>) m;
              m = upd_lock cpuid (s_lock (spds m cpuid p)) (\<lambda>k. k\<lparr>remote_cpuid := ucast (src_id ch), remote_ptr := src_lock ch\<rparr>) m
          in upd_spd cpuid p (\<lambda>s. s\<lparr>read_shm_buf := src_addr ch, remote_spd := src_desc_ptr ch\<rparr>) m)"

fun init_ports_loop :: "u32 \<Rightarrow> (mp_mem \<Rightarrow> mp_mem) \<Rightarrow> nat list \<Rightarrow> mp_mem \<Rightarrow> mp_mem option" where
  "init_ports_loop cpuid others [] m = Some m"
| "init_ports_loop cpuid others (c # cs) m =
     (if src_id (chan_info m c) = cpuid
      then do { m \<leftarrow> wait_sink others c m; init_ports_loop cpuid others cs (connect_source cpuid c m) }
      else if sink_id (chan_info m c) = cpuid
      then do { m \<leftarrow> wait_src others c m; init_ports_loop cpuid others cs (connect_sink cpuid c m) }
      else init_ports_loop cpuid others cs m)"

definition mp_init_ports :: "'d noc_io \<Rightarrow> (mp_mem \<Rightarrow> mp_mem) \<Rightarrow> mp_mem \<Rightarrow> (int \<times> mp_mem) option" where
  "mp_init_ports io others m = do { m \<leftarrow> init_ports_loop (get_cpuid io) others [0..<MAX_CHANNELS] m; Some (1, m) }"

section \<open>Queuing ports\<close>

definition mp_nbsend :: "'d noc_io \<Rightarrow> qpd_t \<times> 'd \<Rightarrow> bool \<times> qpd_t \<times> 'd" where
  "mp_nbsend io qd =
     (let (q, d) = qd;
          rmt_addr_offset = (buf_size q + FLAG_SIZE) * send_ptr q;
          calc_rmt_addr = recv_addr q + rmt_addr_offset;
          d = io_wr io (write_buf q + buf_size q) FLAG_VALID d;
          (cnt, d) = io_rd io (send_recv_count q) d
      in if send_count q - cnt = num_buf q then (False, q, d)
         else let (ok, d) = noc_nbwrite io (ucast (remote q)) calc_rmt_addr (write_buf q) (buf_size q + FLAG_SIZE) 1 d
              in if \<not> ok then (False, q, d)
                 else let q = q\<lparr>send_count := send_count q + 1\<rparr>;
                          q = (if send_ptr q = num_buf q - 1 then q\<lparr>send_ptr := 0\<rparr> else q\<lparr>send_ptr := send_ptr q + 1\<rparr>);
                          q = q\<lparr>write_buf := shadow_write_buf q, shadow_write_buf := write_buf q\<rparr>
                      in (True, q, d))"

text \<open>The polling loop the blocking operations share.\<close>

partial_function (option) mp_retry ::
    "('d \<Rightarrow> u64 \<times> 'd) \<Rightarrow> ('q \<times> 'd \<Rightarrow> bool \<times> 'q \<times> 'd) \<Rightarrow> u32 \<Rightarrow> u64 \<Rightarrow> 'q \<times> 'd \<Rightarrow> (bool \<times> 'q \<times> 'd) option" where
  "mp_retry usecs try_op time_usecs timeout qd =
     (let (go, d) = (if time_usecs = 0 then (True, snd qd)
                     else let (now, d) = usecs (snd qd) in (now < timeout, d))
      in if \<not> go then Some (False, fst qd, d)
         else let (ok, qd) = try_op (fst qd, d)
              in if ok then Some (True, qd) else mp_retry usecs try_op time_usecs timeout qd)"

definition mp_send :: "'d noc_io \<Rightarrow> ('d \<Rightarrow> u64 \<times> 'd) \<Rightarrow> u32 \<Rightarrow> qpd_t \<times> 'd \<Rightarrow> (bool \<times> qpd_t \<times> 'd) option" where
  "mp_send io usecs time_usecs qd =
     (let (now, d) = usecs (snd qd)
      in mp_retry usecs (mp_nbsend io) time_usecs (now + ucast time_usecs) (fst qd, d))"

definition mp_nbrecv :: "'d noc_io \<Rightarrow> qpd_t \<times> 'd \<Rightarrow> bool \<times> qpd_t \<times> 'd" where
  "mp_nbrecv io qd =
     (let (q, d) = qd;
          locl_addr_offset = (buf_size q + FLAG_SIZE) * recv_ptr q;
          calc_locl_addr = recv_addr q + locl_addr_offset;
          recv_flag = calc_locl_addr + buf_size q;
          (v, d) = io_rd io recv_flag d
      in if v = FLAG_INVALID then (False, q, d)
         else let q = (if recv_ptr q = num_buf q - 1 then q\<lparr>recv_ptr := 0\<rparr> else q\<lparr>recv_ptr := recv_ptr q + 1\<rparr>);
                  d = io_wr io recv_flag FLAG_INVALID d
              in (True, q\<lparr>read_buf := calc_locl_addr\<rparr>, d))"

definition mp_recv :: "'d noc_io \<Rightarrow> ('d \<Rightarrow> u64 \<times> 'd) \<Rightarrow> u32 \<Rightarrow> qpd_t \<times> 'd \<Rightarrow> (bool \<times> qpd_t \<times> 'd) option" where
  "mp_recv io usecs time_usecs qd =
     (let (now, d) = usecs (snd qd)
      in mp_retry usecs (mp_nbrecv io) time_usecs (now + ucast time_usecs) (fst qd, d))"

definition mp_nback :: "'d noc_io \<Rightarrow> qpd_t \<times> 'd \<Rightarrow> bool \<times> qpd_t \<times> 'd" where
  "mp_nback io qd =
     (let (q, d) = qd;
          (free, d) = noc_dma_done io (ucast (remote q)) d
      in if \<not> free then (False, q, d)
         else let (v, d) = io_rd io (recv_count q) d;
                  d = io_wr io (recv_count q) (v + 1) d;
                  (success, d) = noc_nbwrite io (ucast (remote q)) (send_recv_count q) (recv_count q) 4 1 d
              in if \<not> success
                 then let (v, d) = io_rd io (recv_count q) d in (False, q, io_wr io (recv_count q) (v - 1) d)
                 else (True, q, d))"

definition mp_ack_n ::
    "'d noc_io \<Rightarrow> ('d \<Rightarrow> u64 \<times> 'd) \<Rightarrow> u32 \<Rightarrow> u32 \<Rightarrow> qpd_t \<times> 'd \<Rightarrow> (bool \<times> qpd_t \<times> 'd) option" where
  "mp_ack_n io usecs time_usecs num_acks qd =
     (let (q, d) = qd;
          (now, d) = usecs d;
          timeout = now + ucast time_usecs
      in do { (free, q, d) \<leftarrow> mp_retry usecs
                (\<lambda>(q, d). let (done, d) = noc_dma_done io (ucast (remote q)) d in (done, q, d)) time_usecs timeout (q, d);
              if \<not> free then Some (False, q, d)
              else let (v, d) = io_rd io (recv_count q) d;
                       d = io_wr io (recv_count q) (v + num_acks) d
                   in do { (sent, q, d) \<leftarrow> mp_retry usecs
                             (\<lambda>(q, d). let (ok, d) = noc_nbwrite io (ucast (remote q)) (send_recv_count q) (recv_count q) 4 1 d in (ok, q, d))
                             time_usecs timeout (q, d);
                           if \<not> sent
                           then let (v, d) = io_rd io (recv_count q) d in Some (False, q, io_wr io (recv_count q) (v - num_acks) d)
                           else Some (True, q, d) } })"

definition mp_ack :: "'d noc_io \<Rightarrow> ('d \<Rightarrow> u64 \<times> 'd) \<Rightarrow> u32 \<Rightarrow> qpd_t \<times> 'd \<Rightarrow> (bool \<times> qpd_t \<times> 'd) option" where
  "mp_ack io usecs time_usecs qd = mp_ack_n io usecs time_usecs 1 qd"

end
