(* ===== verification/Mp_Queue.thy ===== *)
theory Mp_Queue
  imports Mp_Ports
begin

text \<open>
  Queuing ports between two cores. The network is a parameter: what libmp relies on is that a transfer
  entered into the DMA table copies its words one after the other, in ascending order, from the
  communication memory of one core to that of the other, and that the active bit of
  the entry reads as set until the last word has arrived. Words may arrive before and after every
  access of either core. Core 0 is the source of the channel, core 1 its sink.
\<close>

section \<open>The network\<close>

text \<open>
  Memory words are numbered from the base of the communication memory. \<open>flight c\<close> are the
  words the current transfer of core \<open>c\<close> still has to copy (to, from).
\<close>

datatype core = Src | Snk

fun other :: "core \<Rightarrow> core" where
  "other Src = Snk"
| "other Snk = Src"

record argo =
  spm :: "core \<Rightarrow> nat \<Rightarrow> u32"
  dma0 :: "core \<Rightarrow> u32"
  flight :: "core \<Rightarrow> (nat \<times> nat) list"

definition wr_spm :: "core \<Rightarrow> nat \<Rightarrow> u32 \<Rightarrow> argo \<Rightarrow> argo" where
  "wr_spm c x v a = a\<lparr>spm := (spm a)(c := (spm a c)(x := v))\<rparr>"

definition deliver :: "core \<Rightarrow> argo \<Rightarrow> argo" where
  "deliver c a = (case flight a c of [] \<Rightarrow> a
     | (x, y) # fs \<Rightarrow> (wr_spm (other c) x (spm a c y) a)\<lparr>flight := (flight a)(c := fs)\<rparr>)"

inductive argo_run :: "argo \<Rightarrow> argo \<Rightarrow> bool" where
  argo_refl: "argo_run a a"
| argo_step: "argo_run a b \<Longrightarrow> argo_run a (deliver c b)"

definition transfer :: "u32 \<Rightarrow> u32 \<Rightarrow> (nat \<times> nat) list" where
  "transfer w0 w1 = map (\<lambda>j. (unat (take_bit 14 w0) + j, unat (take_bit 14 w1) + j))
     [0..<unat (take_bit 17 (drop_bit 14 w1))]"

definition spm_addr :: "'d noc_io \<Rightarrow> nat \<Rightarrow> u32" where
  "spm_addr io x = NOC_SPM_BASE io + 4 * of_nat x"

definition dma_addr :: "'d noc_io \<Rightarrow> u8 \<Rightarrow> u32" where
  "dma_addr io cid = NOC_DMA_BASE io + 8 * ucast cid"

text \<open>
  What the accesses of a core \<open>c\<close> do, over an abstraction \<open>st\<close> of the platform's state; \<open>cid\<close> are
  the numbers of the cores.
\<close>

definition spm_access :: "'p noc_io \<Rightarrow> ('p \<Rightarrow> argo) \<Rightarrow> core \<Rightarrow> bool" where
  "spm_access io st c \<longleftrightarrow>
     (\<forall>x p. x < 2 ^ 14 \<longrightarrow> (\<exists>p'. io_rd io (spm_addr io x) p = (spm (st p') c x, p') \<and> argo_run (st p) (st p'))) \<and>
     (\<forall>x v p. x < 2 ^ 14 \<longrightarrow> (\<exists>a. argo_run (st p) a \<and> st (io_wr io (spm_addr io x) v p) = wr_spm c x v a))"

definition dma_access :: "'p noc_io \<Rightarrow> ('p \<Rightarrow> argo) \<Rightarrow> core \<Rightarrow> u8 \<Rightarrow> bool" where
  "dma_access io st c rid \<longleftrightarrow>
     (\<forall>p. \<exists>w p'. io_rd io (dma_addr io rid + 4) p = (w, p') \<and> argo_run (st p) (st p') \<and> (bit w 31 \<longleftrightarrow> flight (st p') c \<noteq> [])) \<and>
     (\<forall>v p. \<exists>a. argo_run (st p) a \<and> st (io_wr io (dma_addr io rid) v p) = a\<lparr>dma0 := (dma0 a)(c := v)\<rparr>) \<and>
     (\<forall>v p. bit v 31 \<longrightarrow> flight (st p) c = [] \<longrightarrow>
        (\<exists>a. argo_run (st p) a \<and> st (io_wr io (dma_addr io rid + 4) v p) = a\<lparr>flight := (flight a)(c := transfer (dma0 a c) v)\<rparr>))"

definition argo_platform :: "(core \<Rightarrow> 'p noc_io) \<Rightarrow> (core \<Rightarrow> u8) \<Rightarrow> ('p \<Rightarrow> argo) \<Rightarrow> bool" where
  "argo_platform io cid st \<longleftrightarrow> (\<forall>c. spm_access (io c) st c \<and> dma_access (io c) st c (cid (other c)))"

section \<open>The two ends of a channel in use\<close>

datatype q_op = Send "u32 list" | Recv | Ack

record 'p queue_sys =
  src_q :: qpd_t
  sink_q :: qpd_t
  plat :: 'p
  sent :: "u32 list list"
  received :: "u32 list list"
  acked :: nat

fun put_words :: "'p noc_io \<Rightarrow> u32 \<Rightarrow> u32 list \<Rightarrow> 'p \<Rightarrow> 'p" where
  "put_words io a [] p = p"
| "put_words io a (v # vs) p = put_words io (a + 4) vs (io_wr io a v p)"

fun get_words :: "'p noc_io \<Rightarrow> u32 \<Rightarrow> nat \<Rightarrow> 'p \<Rightarrow> u32 list \<times> 'p" where
  "get_words io a 0 p = ([], p)"
| "get_words io a (Suc n) p = (let (v, p) = io_rd io a p; (vs, p) = get_words io (a + 4) n p in (v # vs, p))"

text \<open>
  The source fills its write buffer and tries to send; the sink tries to receive and reads the message
  out of its read buffer; the sink acknowledges a message it has received.
\<close>

fun queue_op :: "(core \<Rightarrow> 'p noc_io) \<Rightarrow> q_op \<Rightarrow> 'p queue_sys \<Rightarrow> 'p queue_sys" where
  "queue_op io (Send w) s =
     (let p = put_words (io Src) (write_buf (src_q s)) w (plat s);
          (ok, q, p) = mp_nbsend (io Src) (src_q s, p)
      in s\<lparr>src_q := q, plat := p, sent := sent s @ (if ok then [w] else [])\<rparr>)"
| "queue_op io Recv s =
     (let (ok, q, p) = mp_nbrecv (io Snk) (sink_q s, plat s)
      in if ok
         then let (w, p) = get_words (io Snk) (read_buf q) (unat (buf_size q) div 4) p
              in s\<lparr>sink_q := q, plat := p, received := received s @ [w]\<rparr>
         else s\<lparr>sink_q := q, plat := p\<rparr>)"
| "queue_op io Ack s =
     (if acked s < length (received s)
      then let (ok, q, p) = mp_nback (io Snk) (sink_q s, plat s)
           in s\<lparr>sink_q := q, plat := p, acked := acked s + (if ok then 1 else 0)\<rparr>
      else s)"

section \<open>Blocks\<close>

text \<open>Buffers of \<open>B + 1\<close> words in a row; the word behind the last buffer is a counter.\<close>

definition blk :: "nat \<Rightarrow> nat \<Rightarrow> nat \<Rightarrow> nat \<Rightarrow> nat" where
  "blk B base s x = base + s * Suc B + x"

lemma blk_eq [simp]: "x \<le> B \<Longrightarrow> y \<le> B \<Longrightarrow> blk B base s x = blk B base t y \<longleftrightarrow> s = t \<and> x = y"
proof
  assume xy: "x \<le> B" "y \<le> B" and "blk B base s x = blk B base t y"
  then have e: "s * Suc B + x = t * Suc B + y" by (simp add: blk_def)
  have "(s * Suc B + x) div Suc B = s" "(s * Suc B + x) mod Suc B = x"
    "(t * Suc B + y) div Suc B = t" "(t * Suc B + y) mod Suc B = y"
    using xy by (simp_all add: div_mult_self3 del: mult_Suc_right)
  then show "s = t \<and> x = y" using e by metis
qed simp

lemma mod_window: "i < j \<Longrightarrow> j - i < n \<Longrightarrow> i mod n \<noteq> j mod (n :: nat)"
  by (metis mod_eq_dvd_iff_nat nat_dvd_not_less less_imp_le zero_less_diff)

section \<open>The invariant\<close>

text \<open>
  \<open>M\<close> are the messages sent, \<open>R\<close> of them received and \<open>A\<close> acknowledged; the source has seen \<open>S\<close>
  acknowledgements, the counter of the sink is \<open>C\<close>. \<open>D\<close> messages have arrived completely.
\<close>

definition arrived :: "argo \<Rightarrow> u32 list list \<Rightarrow> nat" where
  "arrived a M = (if flight a Src = [] then length M else length M - 1)"

definition msg_words :: "nat \<Rightarrow> nat \<Rightarrow> nat \<Rightarrow> nat \<Rightarrow> nat \<Rightarrow> (nat \<times> nat) list" where
  "msg_words B n sb rb k = map (\<lambda>x. (blk B rb (k mod n) x, blk B sb (k mod 2) x)) [0..<Suc B]"

definition in_flight :: "nat \<Rightarrow> nat \<Rightarrow> nat \<Rightarrow> nat \<Rightarrow> argo \<Rightarrow> u32 list list \<Rightarrow> nat \<Rightarrow> bool" where
  "in_flight B n sb rb a M k \<longleftrightarrow> length M = Suc k \<and>
     (\<exists>j\<le>B. flight a Src = drop j (msg_words B n sb rb k) \<and>
        (\<forall>x<j. spm a Snk (blk B rb (k mod n) x) = M ! k ! x) \<and>
        (\<forall>x. j \<le> x \<and> x < B \<longrightarrow> spm a Src (blk B sb (k mod 2) x) = M ! k ! x) \<and>
        spm a Src (blk B sb (k mod 2) B) = FLAG_VALID)"

definition net_inv :: "nat \<Rightarrow> nat \<Rightarrow> nat \<Rightarrow> nat \<Rightarrow> argo \<Rightarrow> u32 list list \<Rightarrow> nat \<Rightarrow> nat \<Rightarrow> nat \<Rightarrow> nat \<Rightarrow> bool" where
  "net_inv B n sb rb a M R A S C \<longleftrightarrow>
     (flight a Src = [] \<or> (\<exists>k. in_flight B n sb rb a M k)) \<and>
     S \<le> A \<and> A \<le> R \<and> R \<le> arrived a M \<and> length M - S \<le> n \<and>
     (\<forall>i x. A \<le> i \<and> i < arrived a M \<and> x < B \<longrightarrow> spm a Snk (blk B rb (i mod n) x) = M ! i ! x) \<and>
     (\<forall>s<n. spm a Snk (blk B rb s B) \<noteq> 0 \<longleftrightarrow> (\<exists>i. R \<le> i \<and> i < arrived a M \<and> i mod n = s)) \<and>
     spm a Snk (blk B rb n 0) = of_nat C \<and> spm a Src (blk B sb 2 0) = of_nat S \<and>
     (flight a Snk = [] \<or> flight a Snk = [(blk B sb 2 0, blk B rb n 0)] \<and> S \<le> C \<and> C \<le> A)"

lemma in_flight_cong:
  assumes "in_flight B n sb rb a M k" "flight b Src = flight a Src"
    and "\<And>x. x \<le> B \<Longrightarrow> spm b Src (blk B sb (k mod 2) x) = spm a Src (blk B sb (k mod 2) x)"
    and "\<And>x. x < B \<Longrightarrow> spm b Snk (blk B rb (k mod n) x) = spm a Snk (blk B rb (k mod n) x)"
  shows "in_flight B n sb rb b M k"
  using assms unfolding in_flight_def by auto

lemma arrived_cong: "flight b Src = flight a Src \<Longrightarrow> arrived b M = arrived a M"
  by (simp add: arrived_def)

lemma mod_2_ne [simp]: "k mod 2 \<noteq> (2::nat)" "2 \<noteq> k mod (2::nat)" "Suc k mod 2 \<noteq> k mod 2" "k mod 2 \<noteq> Suc k mod 2"
  by presburger+

lemma deliver_ack:
  assumes I: "net_inv B n sb rb a M R A S C"
  shows "\<exists>S'. net_inv B n sb rb (deliver Snk a) M R A S' C \<and> S \<le> S' \<and> (flight a Snk = [] \<longrightarrow> S' = S)"
proof (cases "flight a Snk")
  case Nil
  then show ?thesis using assms by (auto simp: deliver_def)
next
  case (Cons f fs)
  then have f: "flight a Snk = [(blk B sb 2 0, blk B rb n 0)]" "S \<le> C" "C \<le> A"
    using I by (auto simp: net_inv_def)
  define b where "b = deliver Snk a"
  have b: "spm b Src = (spm a Src)(blk B sb 2 0 := of_nat C)" "spm b Snk = spm a Snk"
    "flight b Src = flight a Src" "flight b Snk = []"
    using f I by (simp_all add: b_def deliver_def wr_spm_def net_inv_def)
  have "in_flight B n sb rb b M k" if "in_flight B n sb rb a M k" for k
    by (rule in_flight_cong [OF that]) (simp_all add: b)
  then have "flight b Src = [] \<or> (\<exists>k. in_flight B n sb rb b M k)"
    using I b(3) unfolding net_inv_def by metis
  moreover have "length M - C \<le> n"
    using I f diff_le_mono2 [of S C "length M"] unfolding net_inv_def by linarith
  ultimately have "net_inv B n sb rb b M R A C C"
    using I f unfolding net_inv_def arrived_cong [OF b(3)] by (simp add: b)
  then show ?thesis using f by (auto simp: b_def)
qed

lemma msg_words_drop:
  "j \<le> B \<Longrightarrow> drop j (msg_words B n sb rb k)
     = (blk B rb (k mod n) j, blk B sb (k mod 2) j) # drop (Suc j) (msg_words B n sb rb k)"
  by (subst Cons_nth_drop_Suc [symmetric]) (simp_all add: msg_words_def del: upt_Suc)

lemma msg_words_end: "drop (Suc B) (msg_words B n sb rb k) = []"
  by (simp add: msg_words_def)

lemma msg_words_not_end: "j \<le> B \<Longrightarrow> drop j (msg_words B n sb rb k) \<noteq> []"
  by (simp add: msg_words_drop)

lemma deliver_msg:
  assumes I: "net_inv B n sb rb a M R A S C"
  shows "net_inv B n sb rb (deliver Src a) M R A S C"
proof (cases "flight a Src = []")
  case True
  then show ?thesis using I by (simp add: deliver_def)
next
  case False
  then obtain k j where k: "length M = Suc k" "j \<le> B" "flight a Src = drop j (msg_words B n sb rb k)"
    and pre: "\<And>x. x < j \<Longrightarrow> spm a Snk (blk B rb (k mod n) x) = M ! k ! x"
    and post: "\<And>x. j \<le> x \<Longrightarrow> x < B \<Longrightarrow> spm a Src (blk B sb (k mod 2) x) = M ! k ! x"
    and flag: "spm a Src (blk B sb (k mod 2) B) = FLAG_VALID"
    using I by (auto simp: net_inv_def in_flight_def)
  have arr: "arrived a M = k" using False k by (simp add: arrived_def)
  have I': "S \<le> A" "A \<le> R" "R \<le> k" "Suc k - S \<le> n"
    and cont: "\<And>i x. A \<le> i \<Longrightarrow> i < k \<Longrightarrow> x < B \<Longrightarrow> spm a Snk (blk B rb (i mod n) x) = M ! i ! x"
    and flags: "\<And>s. s < n \<Longrightarrow> spm a Snk (blk B rb s B) \<noteq> 0 \<longleftrightarrow> (\<exists>i. R \<le> i \<and> i < k \<and> i mod n = s)"
    and rest: "spm a Snk (blk B rb n 0) = of_nat C" "spm a Src (blk B sb 2 0) = of_nat S"
      "flight a Snk = [] \<or> flight a Snk = [(blk B sb 2 0, blk B rb n 0)] \<and> S \<le> C \<and> C \<le> A"
    using I k arr by (auto simp: net_inv_def)
  then have n: "0 < n" by linarith
  then have kn: "k mod n < n" "k mod n \<noteq> n" by (simp_all add: nat_neq_iff)
  have win: "i mod n \<noteq> k mod n" if "A \<le> i" "i < k" for i
    using that I' by (intro mod_window) auto
  define b where "b = deliver Src a"
  have b: "spm b Src = spm a Src" "spm b Snk = (spm a Snk)(blk B rb (k mod n) j := spm a Src (blk B sb (k mod 2) j))"
    "flight b Src = drop (Suc j) (msg_words B n sb rb k)" "flight b Snk = flight a Snk"
    using k by (simp_all add: b_def deliver_def wr_spm_def msg_words_drop)
  have rcnt: "spm b Snk (blk B rb n 0) = of_nat C" using rest(1) kn(2) k by (auto simp: b(2))
  have cont': "spm b Snk (blk B rb (i mod n) x) = M ! i ! x" if "A \<le> i" "i < k" "x < B" for i x
    using cont win [of i] that k by (simp add: b(2))
  show ?thesis
  proof (cases "j < B")
    case True
    then have ne: "flight b Src \<noteq> []" using b(3) msg_words_not_end [of "Suc j" B] by simp
    then have arr': "arrived b M = k" using k by (simp add: arrived_def)
    have "in_flight B n sb rb b M k"
      unfolding in_flight_def using True k pre post flag b kn
      by (auto intro!: exI [of _ "Suc j"] simp: less_Suc_eq)
    moreover have "spm b Snk (blk B rb s B) = spm a Snk (blk B rb s B)" for s using True k by (simp add: b(2))
    ultimately show ?thesis
      unfolding net_inv_def b_def [symmetric] arr' using I' cont' flags rest rcnt b k by auto
  next
    case False
    then have j: "j = B" using k by simp
    then have none: "flight b Src = []" using b(3) by (simp add: msg_words_end)
    then have arr': "arrived b M = Suc k" using k by (simp add: arrived_def)
    have fl: "spm b Snk (blk B rb s B) \<noteq> 0 \<longleftrightarrow> (\<exists>i. R \<le> i \<and> i < Suc k \<and> i mod n = s)" if "s < n" for s
      using flags [OF that] I' flag by (auto simp: b(2) j less_Suc_eq)
    have "spm b Snk (blk B rb (i mod n) x) = M ! i ! x" if "A \<le> i" "i < Suc k" "x < B" for i x
      using cont' [of i x] that pre [of x] j by (cases "i = k") (auto simp: b(2))
    then show ?thesis
      unfolding net_inv_def b_def [symmetric] arr' using I' fl rest rcnt b k none by auto
  qed
qed


lemma deliver_source_cells:
  assumes "net_inv B n sb rb a M R A S C" "s < 2" "x \<le> B"
  shows "spm (deliver c a) Src (blk B sb s x) = spm a Src (blk B sb s x)"
  using assms unfolding net_inv_def
  by (cases c) (auto simp: deliver_def wr_spm_def split: list.splits)

lemma argo_run_inv:
  assumes "argo_run a b" "net_inv B n sb rb a M R A S C"
  shows "\<exists>S'. net_inv B n sb rb b M R A S' C \<and> S \<le> S' \<and> (flight a Snk = [] \<longrightarrow> S' = S \<and> flight b Snk = [])
    \<and> (\<forall>s x. s < 2 \<and> x \<le> B \<longrightarrow> spm b Src (blk B sb s x) = spm a Src (blk B sb s x))"
  using assms
proof (induction rule: argo_run.induct)
  case (argo_step a b c)
  then obtain S1 where S1: "net_inv B n sb rb b M R A S1 C" "S \<le> S1" "flight a Snk = [] \<longrightarrow> S1 = S \<and> flight b Snk = []"
    and src: "\<forall>s x. s < 2 \<and> x \<le> B \<longrightarrow> spm b Src (blk B sb s x) = spm a Src (blk B sb s x)" by blast
  have src': "\<forall>s x. s < 2 \<and> x \<le> B \<longrightarrow> spm (deliver c b) Src (blk B sb s x) = spm a Src (blk B sb s x)"
    using src deliver_source_cells [OF S1(1)] by simp
  show ?case
  proof (cases c)
    case Src
    moreover have "flight (deliver Src b) Snk = flight b Snk" by (simp add: deliver_def wr_spm_def split: list.splits)
    ultimately show ?thesis using S1 src' deliver_msg [OF S1(1)] by metis
  next
    case Snk
    have "flight b Snk = [] \<Longrightarrow> flight (deliver Snk b) Snk = []" by (simp add: deliver_def)
    then show ?thesis using S1 src' deliver_ack [OF S1(1)] Snk by (metis le_trans)
  qed
qed auto

lemma argo_run_done: "argo_run a b \<Longrightarrow> flight a c = [] \<Longrightarrow> flight b c = []"
proof (induction rule: argo_run.induct)
  case (argo_step a b d)
  then show ?case by (cases "d = c") (auto simp: deliver_def wr_spm_def split: list.splits)
qed

lemma argo_run_dma0: "argo_run a b \<Longrightarrow> dma0 b = dma0 a"
  by (induction rule: argo_run.induct) (auto simp: deliver_def wr_spm_def split: list.splits)

lemma argo_run_trans: "argo_run b c \<Longrightarrow> argo_run a b \<Longrightarrow> argo_run a c"
  by (induction rule: argo_run.induct) (auto intro: argo_run.intros)

lemma net_inv_dma0 [simp]: "net_inv B n sb rb (a\<lparr>dma0 := d\<rparr>) M R A S C = net_inv B n sb rb a M R A S C"
  by (simp add: net_inv_def in_flight_def arrived_def)

section \<open>What the two ends do\<close>

lemma inv_write_source:
  assumes I: "net_inv B n sb rb a M R A S C" and x: "x \<le> B"
  shows "net_inv B n sb rb (wr_spm Src (blk B sb (length M mod 2) x) v a) M R A S C"
proof -
  define b where "b = wr_spm Src (blk B sb (length M mod 2) x) v a"
  have b: "spm b Src = (spm a Src)(blk B sb (length M mod 2) x := v)" "spm b Snk = spm a Snk" "flight b = flight a"
    by (simp_all add: b_def wr_spm_def)
  have "in_flight B n sb rb b M k" if "in_flight B n sb rb a M k" for k
  proof (rule in_flight_cong [OF that])
    have "length M = Suc k" using that by (simp add: in_flight_def)
    then show "\<And>y. y \<le> B \<Longrightarrow> spm b Src (blk B sb (k mod 2) y) = spm a Src (blk B sb (k mod 2) y)"
      using x by (simp add: b)
  qed (simp_all add: b)
  then have "flight b Src = [] \<or> (\<exists>k. in_flight B n sb rb b M k)"
    using I b(3) unfolding net_inv_def by metis
  moreover have "arrived b M = arrived a M" by (rule arrived_cong) (simp add: b)
  ultimately show ?thesis using I x unfolding net_inv_def b_def [symmetric] by (simp add: b)
qed

lemma inv_start_message:
  assumes I: "net_inv B n sb rb a M R A S C" and "flight a Src = []" "length M - S < n"
    and "\<And>x. x < B \<Longrightarrow> spm a Src (blk B sb (length M mod 2) x) = w ! x"
    and "spm a Src (blk B sb (length M mod 2) B) = FLAG_VALID"
  shows "net_inv B n sb rb (a\<lparr>flight := (flight a)(Src := msg_words B n sb rb (length M))\<rparr>) (M @ [w]) R A S C"
proof -
  define b where "b = a\<lparr>flight := (flight a)(Src := msg_words B n sb rb (length M))\<rparr>"
  have b: "spm b = spm a" "flight b Src = msg_words B n sb rb (length M)" "flight b Snk = flight a Snk"
    by (simp_all add: b_def)
  have "flight b Src \<noteq> []" using msg_words_not_end [of 0] by (simp add: b)
  then have arr: "arrived b (M @ [w]) = length M" "arrived a M = length M" using assms(2) by (simp_all add: arrived_def)
  have "in_flight B n sb rb b (M @ [w]) (length M)"
    unfolding in_flight_def using assms by (intro conjI exI [of _ 0]) (simp_all add: b)
  then show ?thesis
    using I assms(3) unfolding net_inv_def b_def [symmetric] arr by (auto simp: b nth_append)
qed

lemma inv_receive:
  assumes I: "net_inv B n sb rb a M R A S C" and n: "0 < n" and v: "spm a Snk (blk B rb (R mod n) B) \<noteq> 0"
  shows "R < arrived a M" "net_inv B n sb rb (wr_spm Snk (blk B rb (R mod n) B) 0 a) M (Suc R) A S C"
proof -
  have le: "S \<le> A" "A \<le> R" "R \<le> arrived a M" "length M - S \<le> n"
    and flags: "\<And>s. s < n \<Longrightarrow> spm a Snk (blk B rb s B) \<noteq> 0 \<longleftrightarrow> (\<exists>i. R \<le> i \<and> i < arrived a M \<and> i mod n = s)"
    using I by (simp_all add: net_inv_def)
  have arr: "arrived a M \<le> length M" by (simp add: arrived_def)
  have win: "R < i \<Longrightarrow> i < arrived a M \<Longrightarrow> i mod n \<noteq> R mod n" for i
    using le arr by (intro mod_window [symmetric]) auto
  obtain i where "R \<le> i" "i < arrived a M" "i mod n = R mod n" using flags [of "R mod n"] v n by auto
  then show R: "R < arrived a M" by linarith
  define b where "b = wr_spm Snk (blk B rb (R mod n) B) 0 a"
  have b: "spm b Snk = (spm a Snk)(blk B rb (R mod n) B := 0)" "spm b Src = spm a Src" "flight b = flight a"
    by (simp_all add: b_def wr_spm_def)
  have "in_flight B n sb rb b M k" if "in_flight B n sb rb a M k" for k
    by (rule in_flight_cong [OF that]) (simp_all add: b)
  then have "flight b Src = [] \<or> (\<exists>k. in_flight B n sb rb b M k)"
    using I b(3) unfolding net_inv_def by metis
  moreover have "arrived b M = arrived a M" by (rule arrived_cong) (simp add: b)
  moreover have "spm b Snk (blk B rb s B) \<noteq> 0 \<longleftrightarrow> (\<exists>i. Suc R \<le> i \<and> i < arrived a M \<and> i mod n = s)" if s: "s < n" for s
  proof (cases "s = R mod n")
    case True
    then show ?thesis using win by (auto simp: b Suc_le_eq)
  next
    case False
    then have "spm b Snk (blk B rb s B) \<noteq> 0 \<longleftrightarrow> (\<exists>i. R \<le> i \<and> i < arrived a M \<and> i mod n = s)" using flags [OF s] by (simp add: b)
    also have "\<dots> \<longleftrightarrow> (\<exists>i. Suc R \<le> i \<and> i < arrived a M \<and> i mod n = s)"
      using False by (metis Suc_leD le_antisym not_less_eq_eq)
    finally show ?thesis .
  qed
  moreover have "R mod n \<noteq> n" using n by (simp add: nat_neq_iff)
  ultimately show "net_inv B n sb rb (wr_spm Snk (blk B rb (R mod n) B) 0 a) M (Suc R) A S C"
    using I R unfolding net_inv_def b_def [symmetric] by (auto simp: b)
qed

lemma inv_count_ack:
  assumes I: "net_inv B n sb rb a M R A S C" and "flight a Snk = []" "A < R" "0 < n"
  shows "net_inv B n sb rb (wr_spm Snk (blk B rb n 0) (of_nat (Suc C)) a) M R (Suc A) S (Suc C)"
proof -
  define b where "b = wr_spm Snk (blk B rb n 0) (of_nat (Suc C)) a"
  have b: "spm b Snk = (spm a Snk)(blk B rb n 0 := of_nat (Suc C))" "spm b Src = spm a Src" "flight b = flight a"
    by (simp_all add: b_def wr_spm_def)
  have n: "i mod n \<noteq> n" "n \<noteq> i mod n" for i using assms(4) mod_less_divisor [of n i] by linarith+
  have "in_flight B n sb rb b M k" if "in_flight B n sb rb a M k" for k
    by (rule in_flight_cong [OF that]) (simp_all add: b n)
  then have "flight b Src = [] \<or> (\<exists>k. in_flight B n sb rb b M k)"
    using I b(3) unfolding net_inv_def by metis
  moreover have "arrived b M = arrived a M" by (rule arrived_cong) (simp add: b)
  ultimately show ?thesis
    using I assms(2,3) n unfolding net_inv_def b_def [symmetric] by (auto simp: b simp del: of_nat_Suc)
qed

lemma inv_start_ack:
  assumes "net_inv B n sb rb a M R A S C" "S \<le> C" "C \<le> A"
  shows "net_inv B n sb rb (a\<lparr>flight := (flight a)(Snk := [(blk B sb 2 0, blk B rb n 0)])\<rparr>) M R A S C"
  using assms unfolding net_inv_def in_flight_def arrived_def by simp


section \<open>The operations\<close>

lemma unat_spm_offset: "x < 2 ^ 14 \<Longrightarrow> unat (spm_addr io x - NOC_SPM_BASE io) = 4 * x"
proof -
  assume "x < 2 ^ 14"
  then have "unat (of_nat (4 * x) :: u32) = 4 * x" by (intro of_nat_u32) simp
  then show ?thesis by (simp add: spm_addr_def)
qed

lemma spm_addr_plus: "spm_addr io x + of_nat (4 * y) = spm_addr io (x + y)"
  by (simp add: spm_addr_def algebra_simps)

lemma active_bit: "w AND NOC_ACTIVE_BIT \<noteq> 0 \<longleftrightarrow> bit w 31" for w :: u32
proof -
  have "(0x80000000 :: u32) = 2 ^ 31" by simp
  then show ?thesis by (simp only: and_one_at)
qed

lemma dma_done:
  assumes "dma_access io st c rid" "noc_dma_done io (ucast rid) p = (free, p')"
  shows "argo_run (st p) (st p')" "free \<longleftrightarrow> flight (st p') c = []"
proof -
  obtain w q where w: "io_rd io (dma_addr io rid + 4) p = (w, q)" "argo_run (st p) (st q)" "bit w 31 \<longleftrightarrow> flight (st q) c \<noteq> []"
    using assms(1) unfolding dma_access_def by blast
  have addr: "NOC_DMA_BASE io + 4 * (push_bit 1 (ucast rid) + 1) = dma_addr io rid + 4"
    by (simp add: dma_addr_def push_bit_eq_mult algebra_simps)
  have "noc_dma_done io (ucast rid) p = (\<not> bit w 31, q)"
    unfolding noc_dma_done_def k_noc_dma_done_def addr w(1) active_bit by simp
  then show "argo_run (st p) (st p')" "free \<longleftrightarrow> flight (st p') c = []" using assms(2) w by auto
qed

lemma nbwrite_start:
  assumes D: "dma_access io st c rid" and small: "x < 2 ^ 14" "y < 2 ^ 14" "w < 2 ^ 16"
    and eq: "noc_nbwrite io (ucast rid) (spm_addr io x) (spm_addr io y) (of_nat (4 * w)) 1 p = (ok, p')"
  shows "\<exists>a. argo_run (st p) a \<and> (if ok then flight a c = [] \<and>
      (\<exists>d b. argo_run (a\<lparr>dma0 := d\<rparr>) b \<and> st p' = b\<lparr>flight := (flight b)(c := map (\<lambda>j. (x + j, y + j)) [0..<w])\<rparr>)
    else st p' = a \<and> flight a c \<noteq> [])"
proof -
  obtain free p1 where p1: "noc_dma_done io (ucast rid) p = (free, p1)" by fastforce
  note d1 = dma_done [OF D p1]
  show ?thesis
  proof (cases free)
    case False
    then have "ok = False" "p' = p1" using noc_nbwrite_busy [of io "ucast rid" p p1 1] p1 eq by auto
    then show ?thesis using d1 False by auto
  next
    case True
    have sz: "unat (of_nat (4 * w) :: u32) = 4 * w" using small by (intro of_nat_u32) simp
    obtain w0 w1 where w: "noc_nbwrite io (ucast rid) (spm_addr io x) (spm_addr io y) (of_nat (4 * w)) 1 p
        = (True, io_wr io (NOC_DMA_BASE io + 8 * ucast rid + 4) w1 (io_wr io (NOC_DMA_BASE io + 8 * ucast rid) w0 p1))"
      "unat (take_bit 14 w0) = x" "unat (take_bit 14 w1) = y" "unat (take_bit 17 (drop_bit 14 w1)) = w" "bit w1 31"
      using noc_nbwrite_words [of io "ucast rid" p p1 1 "spm_addr io x" "spm_addr io y" "of_nat (4 * w)"] p1 True small
      by (auto simp: unat_spm_offset sz simp del: of_nat_mult)
    define p2 where "p2 = io_wr io (dma_addr io rid) w0 p1"
    have ok: "ok = True" "p' = io_wr io (dma_addr io rid + 4) w1 p2"
      using w(1) eq by (simp_all add: p2_def dma_addr_def)
    obtain a where a: "argo_run (st p1) a" "st p2 = a\<lparr>dma0 := (dma0 a)(c := w0)\<rparr>"
      using D unfolding dma_access_def p2_def by blast
    have free: "flight a c = []" using argo_run_done [OF a(1)] d1 True by simp
    then have "flight (st p2) c = []" by (simp add: a(2))
    then obtain b where b: "argo_run (st p2) b" "st p' = b\<lparr>flight := (flight b)(c := transfer (dma0 b c) w1)\<rparr>"
      using D w(5) unfolding dma_access_def ok(2) by blast
    have "dma0 b c = w0" using argo_run_dma0 [OF b(1)] by (simp add: a(2))
    then have "st p' = b\<lparr>flight := (flight b)(c := map (\<lambda>j. (x + j, y + j)) [0..<w])\<rparr>"
      using b(2) w by (simp add: transfer_def)
    then show ?thesis
      using ok(1) free b(1) a(2) argo_run_trans [OF a(1) d1(1)] by auto
  qed
qed


text \<open>The descriptors of the two ends, for \<open>k\<close> messages sent and \<open>R\<close> received.\<close>

definition src_ok :: "'d noc_io \<Rightarrow> u8 \<Rightarrow> nat \<Rightarrow> nat \<Rightarrow> nat \<Rightarrow> nat \<Rightarrow> qpd_t \<Rightarrow> nat \<Rightarrow> bool" where
  "src_ok io rid B n sb rb q k \<longleftrightarrow> remote q = rid \<and> recv_addr q = spm_addr io rb
     \<and> send_recv_count q = spm_addr io (blk B sb 2 0) \<and> buf_size q = of_nat (4 * B) \<and> num_buf q = of_nat n
     \<and> write_buf q = spm_addr io (blk B sb (k mod 2) 0) \<and> shadow_write_buf q = spm_addr io (blk B sb (Suc k mod 2) 0)
     \<and> send_count q = of_nat k \<and> send_ptr q = of_nat (k mod n)"

definition snk_ok :: "'d noc_io \<Rightarrow> u8 \<Rightarrow> nat \<Rightarrow> nat \<Rightarrow> nat \<Rightarrow> nat \<Rightarrow> qpd_t \<Rightarrow> nat \<Rightarrow> bool" where
  "snk_ok io rid B n sb rb q R \<longleftrightarrow> remote q = rid \<and> recv_addr q = spm_addr io rb
     \<and> send_recv_count q = spm_addr io (blk B sb 2 0) \<and> recv_count q = spm_addr io (blk B rb n 0)
     \<and> buf_size q = of_nat (4 * B) \<and> num_buf q = of_nat n \<and> recv_ptr q = of_nat (R mod n)"

definition layout :: "nat \<Rightarrow> nat \<Rightarrow> nat \<Rightarrow> nat \<Rightarrow> bool" where
  "layout B n sb rb \<longleftrightarrow> 0 < n \<and> blk B sb 2 0 < 2 ^ 14 \<and> blk B rb n 0 < 2 ^ 14"

lemma blk_0: "blk B base s 0 + x = blk B base s x"
  by (simp add: blk_def)

lemma layoutD:
  assumes "layout B n sb rb"
  shows "0 < n" "n < 2 ^ 14" "B < 2 ^ 14" "blk B sb 2 0 < 2 ^ 14" "blk B rb n 0 < 2 ^ 14"
    and "\<And>s x. s < 2 \<Longrightarrow> x \<le> B \<Longrightarrow> blk B sb s x < 2 ^ 14" and "\<And>s x. s < n \<Longrightarrow> x \<le> B \<Longrightarrow> blk B rb s x < 2 ^ 14"
proof -
  show l: "0 < n" "blk B sb 2 0 < 2 ^ 14" "blk B rb n 0 < 2 ^ 14" using assms by (simp_all add: layout_def)
  have le: "blk B base s x \<le> blk B base t 0" if "s < t" "x \<le> B" for base s t x
  proof -
    have "s * Suc B + x \<le> Suc s * Suc B" using that by simp
    also have "\<dots> \<le> t * Suc B" using that by (intro mult_le_mono1) simp
    finally show ?thesis by (simp add: blk_def)
  qed
  show "blk B sb s x < 2 ^ 14" if "s < 2" "x \<le> B" for s x using le [OF that, of sb] l by linarith
  show "blk B rb s x < 2 ^ 14" if "s < n" "x \<le> B" for s x using le [OF that, of rb] l by linarith
  show "n < 2 ^ 14" "B < 2 ^ 14" using l by (auto simp: blk_def)
qed

lemma buf_step: "of_nat (4 * B) + FLAG_SIZE = of_nat (4 * Suc B)"
  by simp

lemma slot_addr: "spm_addr io base + of_nat (4 * Suc B) * of_nat s = spm_addr io (blk B base s 0)"
  by (simp add: spm_addr_def blk_def algebra_simps)

lemma blk_addr: "spm_addr io (blk B base s 0) + of_nat (4 * x) = spm_addr io (blk B base s x)"
  by (simp only: spm_addr_plus blk_0)

lemma of_nat_eq_u32: "a < 2 ^ 32 \<Longrightarrow> b < 2 ^ 32 \<Longrightarrow> (of_nat a :: u32) = of_nat b \<longleftrightarrow> a = b"
  by (metis of_nat_u32)

lemma next_ptr:
  assumes "0 < n" "n < 2 ^ 14"
  shows "(if (of_nat (k mod n) :: u32) = of_nat n - 1 then 0 else of_nat (k mod n) + 1) = (of_nat (Suc k mod n) :: u32)"
proof -
  have "(of_nat n - 1 :: u32) = of_nat (n - 1)" using assms by (simp add: of_nat_diff)
  moreover have "k mod n < 2 ^ 32" using mod_less_divisor [OF assms(1), of k] assms(2) by simp
  moreover have "n - 1 < 2 ^ 32" using assms by simp
  ultimately show ?thesis using assms by (auto simp: of_nat_eq_u32 mod_Suc simp del: of_nat_diff)
qed

lemma window_full:
  assumes "S \<le> k" "k - S \<le> n" "n < 2 ^ 14"
  shows "(of_nat k - of_nat S :: u32) = of_nat n \<longleftrightarrow> k - S = n"
proof -
  have "(of_nat k - of_nat S :: u32) = of_nat (k - S)" using assms by (simp add: of_nat_diff)
  then show ?thesis using assms by (simp add: of_nat_eq_u32 del: of_nat_diff)
qed

lemma spm_write:
  assumes "spm_access io st Src" "net_inv B n sb rb (st p) M R A S C" "layout B n sb rb" "x \<le> B"
  shows "\<exists>S'. net_inv B n sb rb (st (io_wr io (spm_addr io (blk B sb (length M mod 2) x)) v p)) M R A S' C \<and> S \<le> S'
    \<and> (\<forall>y\<le>B. spm (st (io_wr io (spm_addr io (blk B sb (length M mod 2) x)) v p)) Src (blk B sb (length M mod 2) y)
        = (if y = x then v else spm (st p) Src (blk B sb (length M mod 2) y)))"
proof -
  obtain a where a: "argo_run (st p) a"
    "st (io_wr io (spm_addr io (blk B sb (length M mod 2) x)) v p) = wr_spm Src (blk B sb (length M mod 2) x) v a"
    using assms(1) layoutD(6) [OF assms(3), of "length M mod 2" x] assms(4) unfolding spm_access_def by fastforce
  obtain S' where S': "net_inv B n sb rb a M R A S' C" "S \<le> S'"
    "\<forall>s x. s < 2 \<and> x \<le> B \<longrightarrow> spm a Src (blk B sb s x) = spm (st p) Src (blk B sb s x)"
    using argo_run_inv [OF a(1) assms(2)] by blast
  show ?thesis
    using inv_write_source [OF S'(1) assms(4)] S'(2,3) assms(4) unfolding a(2)
    by (intro exI [of _ S']) (auto simp: wr_spm_def)
qed

lemma put_words_inv:
  assumes "spm_access io st Src" "layout B n sb rb" "length w = B"
    and "net_inv B n sb rb (st p) M R A S C" "vs = drop j w"
    and "\<And>x. x < j \<Longrightarrow> spm (st p) Src (blk B sb (length M mod 2) x) = w ! x"
  shows "\<exists>S'. net_inv B n sb rb (st (put_words io (spm_addr io (blk B sb (length M mod 2) j)) vs p)) M R A S' C \<and> S \<le> S'
    \<and> (\<forall>x<B. spm (st (put_words io (spm_addr io (blk B sb (length M mod 2) j)) vs p)) Src (blk B sb (length M mod 2) x) = w ! x)"
  using assms(4-)
proof (induction vs arbitrary: p j S)
  case Nil
  then have "B \<le> j" using assms(3) by simp
  then show ?case using Nil by (auto intro!: exI [of _ S])
next
  case (Cons v vs)
  have j: "j < B" using Cons.prems(2) assms(3) by (metis drop_all list.distinct(1) not_less)
  then have v: "v = w ! j" "vs = drop (Suc j) w"
    using Cons.prems(2) assms(3) by (metis Cons_nth_drop_Suc list.inject)+
  define p1 where "p1 = io_wr io (spm_addr io (blk B sb (length M mod 2) j)) v p"
  obtain S1 where S1: "net_inv B n sb rb (st p1) M R A S1 C" "S \<le> S1"
    "\<forall>y\<le>B. spm (st p1) Src (blk B sb (length M mod 2) y) = (if y = j then v else spm (st p) Src (blk B sb (length M mod 2) y))"
    using spm_write [OF assms(1) Cons.prems(1) assms(2), of j v] j unfolding p1_def by auto
  have pre: "spm (st p1) Src (blk B sb (length M mod 2) x) = w ! x" if "x < Suc j" for x
    using S1(3) Cons.prems(3) [of x] v(1) that j by (auto simp: less_Suc_eq)
  have step: "put_words io (spm_addr io (blk B sb (length M mod 2) j)) (v # vs) p
    = put_words io (spm_addr io (blk B sb (length M mod 2) (Suc j))) vs p1"
    using spm_addr_plus [of io "blk B sb (length M mod 2) j" 1] by (simp add: p1_def blk_def)
  show ?case unfolding step using Cons.IH [OF S1(1) v(2) pre] S1(2) by (meson le_trans)
qed


lemma nbsend_inv:
  assumes P: "spm_access io st Src" "dma_access io st Src rid" and L: "layout B n sb rb"
    and q: "src_ok io rid B n sb rb q (length M)" and I: "net_inv B n sb rb (st p) M R A S C"
    and w: "\<And>x. x < B \<Longrightarrow> spm (st p) Src (blk B sb (length M mod 2) x) = w ! x"
    and eq: "mp_nbsend io (q, p) = (ok, q', p')"
  shows "src_ok io rid B n sb rb q' (length M + (if ok then 1 else 0))
    \<and> (\<exists>S'. net_inv B n sb rb (st p') (M @ (if ok then [w] else [])) R A S' C \<and> S \<le> S')"
proof -
  note l = layoutD [OF L]
  let ?t = "length M mod 2" and ?k = "length M"
  define p1 where "p1 = io_wr io (spm_addr io (blk B sb ?t B)) FLAG_VALID p"
  obtain S1 where S1: "net_inv B n sb rb (st p1) M R A S1 C" "S \<le> S1"
    and c1: "\<forall>y\<le>B. spm (st p1) Src (blk B sb ?t y) = (if y = B then FLAG_VALID else spm (st p) Src (blk B sb ?t y))"
    using spm_write [OF P(1) I L, of B FLAG_VALID] unfolding p1_def by auto
  obtain p2 where p2: "io_rd io (spm_addr io (blk B sb 2 0)) p1 = (spm (st p2) Src (blk B sb 2 0), p2)" "argo_run (st p1) (st p2)"
    using P(1) l(4) unfolding spm_access_def by blast
  obtain S2 where S2: "net_inv B n sb rb (st p2) M R A S2 C" "S1 \<le> S2"
    and c2: "\<forall>s x. s < 2 \<and> x \<le> B \<longrightarrow> spm (st p2) Src (blk B sb s x) = spm (st p1) Src (blk B sb s x)"
    using argo_run_inv [OF p2(2) S1(1)] by blast
  have cnt: "spm (st p2) Src (blk B sb 2 0) = of_nat S2" "S2 \<le> ?k" "?k - S2 \<le> n"
    using S2(1) by (auto simp: net_inv_def arrived_def split: if_splits)
  have q': "buf_size q = of_nat (4 * B)" "write_buf q = spm_addr io (blk B sb ?t 0)" "send_ptr q = of_nat (?k mod n)"
    "recv_addr q = spm_addr io rb" "send_recv_count q = spm_addr io (blk B sb 2 0)" "send_count q = of_nat ?k"
    "num_buf q = of_nat n" "remote q = rid" "shadow_write_buf q = spm_addr io (blk B sb (Suc ?k mod 2) 0)"
    using q by (simp_all add: src_ok_def)
  define r where "r = noc_nbwrite io (ucast rid) (spm_addr io (blk B rb (?k mod n) 0)) (spm_addr io (blk B sb ?t 0)) (of_nat (4 * Suc B)) 1 p2"
  have send: "mp_nbsend io (q, p) = (if ?k - S2 = n then (False, q, p2)
      else if \<not> fst r then (False, q, snd r)
      else (True, q\<lparr>send_count := of_nat (Suc ?k), send_ptr := of_nat (Suc ?k mod n),
        write_buf := spm_addr io (blk B sb (Suc ?k mod 2) 0), shadow_write_buf := spm_addr io (blk B sb ?t 0)\<rparr>, snd r))"
    unfolding mp_nbsend_def Let_def prod.case q' buf_step slot_addr blk_addr p1_def [symmetric] p2(1) cnt(1) window_full [OF cnt(2,3) l(2)] r_def [symmetric]
    using next_ptr [OF l(1,2), of ?k] by (auto simp: q' split: prod.splits if_splits)
  show ?thesis
  proof (cases "?k - S2 = n")
    case True
    then show ?thesis using send eq q S2 S1 by auto
  next
    case False
    obtain ok' p3 where r: "r = (ok', p3)" by fastforce
    then have okeq: "ok = ok'" "p' = p3" using send eq False by (auto split: if_splits)
    have km: "?k mod n < n" using l(1) by simp
    have "\<exists>a. argo_run (st p2) a \<and> (if ok' then flight a Src = [] \<and> (\<exists>d b. argo_run (a\<lparr>dma0 := d\<rparr>) b \<and>
        st p3 = b\<lparr>flight := (flight b)(Src := map (\<lambda>j. (blk B rb (?k mod n) 0 + j, blk B sb ?t 0 + j)) [0..<Suc B])\<rparr>)
      else st p3 = a \<and> flight a Src \<noteq> [])"
      using nbwrite_start [OF P(2) l(7) [OF km] l(6) [of ?t 0] _ r [unfolded r_def]] l(3) by simp
    then obtain a where a: "argo_run (st p2) a" and a': "if ok' then flight a Src = [] \<and> (\<exists>d b. argo_run (a\<lparr>dma0 := d\<rparr>) b \<and>
        st p3 = b\<lparr>flight := (flight b)(Src := msg_words B n sb rb ?k)\<rparr>) else st p3 = a"
      unfolding blk_0 msg_words_def by (metis (no_types, lifting))
    obtain S3 where S3: "net_inv B n sb rb a M R A S3 C" "S2 \<le> S3"
      and c3: "\<forall>s x. s < 2 \<and> x \<le> B \<longrightarrow> spm a Src (blk B sb s x) = spm (st p2) Src (blk B sb s x)"
      using argo_run_inv [OF a S2(1)] by blast
    show ?thesis
    proof (cases ok')
      case False
      then show ?thesis using a' S3 S2 S1 okeq q send eq \<open>?k - S2 \<noteq> n\<close> r by auto
    next
      case True
      then obtain d b where b: "argo_run (a\<lparr>dma0 := d\<rparr>) b" "st p3 = b\<lparr>flight := (flight b)(Src := msg_words B n sb rb ?k)\<rparr>"
        and fl: "flight a Src = []" using a' by auto
      obtain S4 where S4: "net_inv B n sb rb b M R A S4 C" "S3 \<le> S4"
        and c4: "\<forall>s x. s < 2 \<and> x \<le> B \<longrightarrow> spm b Src (blk B sb s x) = spm a Src (blk B sb s x)"
        using argo_run_inv [OF b(1), of B n sb rb M R A S3 C] S3(1) by auto
      have "flight b Src = []" using argo_run_done [OF b(1)] fl by simp
      moreover have "?k - S4 < n" using False cnt(3) S3 S4 by linarith
      moreover have "spm b Src (blk B sb ?t x) = w ! x" if "x < B" for x
        using c4 c3 c2 c1 w [OF that] that by simp
      moreover have "spm b Src (blk B sb ?t B) = FLAG_VALID" using c4 c3 c2 c1 by simp
      ultimately have "net_inv B n sb rb (st p3) (M @ [w]) R A S4 C"
        using inv_start_message [OF S4(1)] b(2) by simp
      moreover have "src_ok io rid B n sb rb q' (Suc ?k)"
        using q send eq False True r okeq by (auto simp: src_ok_def)
      ultimately show ?thesis using True okeq S1 S2 S3 S4 by auto
    qed
  qed
qed


lemma arrived_mono: "argo_run a b \<Longrightarrow> arrived a M \<le> arrived b M"
  using argo_run_done [of a b Src] by (auto simp: arrived_def)

lemma nbrecv_inv:
  assumes P: "spm_access io st Snk" and L: "layout B n sb rb"
    and q: "snk_ok io rid B n sb rb q R" and I: "net_inv B n sb rb (st p) M R A S C"
    and eq: "mp_nbrecv io (q, p) = (ok, q', p')"
  shows "snk_ok io rid B n sb rb q' (R + (if ok then 1 else 0)) \<and> buf_size q' = buf_size q
    \<and> (ok \<longrightarrow> read_buf q' = spm_addr io (blk B rb (R mod n) 0))
    \<and> (\<exists>S'. net_inv B n sb rb (st p') M (R + (if ok then 1 else 0)) A S' C)
    \<and> (flight (st p) Src = [] \<and> R < length M \<longrightarrow> ok)"
proof -
  note l = layoutD [OF L]
  have rn: "R mod n < n" using l(1) by simp
  have qf: "buf_size q = of_nat (4 * B)" "recv_addr q = spm_addr io rb" "recv_ptr q = of_nat (R mod n)" "num_buf q = of_nat n"
    using q by (simp_all add: snk_ok_def)
  obtain p1 where p1: "io_rd io (spm_addr io (blk B rb (R mod n) B)) p = (spm (st p1) Snk (blk B rb (R mod n) B), p1)"
    "argo_run (st p) (st p1)"
    using P l(7) [OF rn, of B] unfolding spm_access_def by blast
  obtain S1 where S1: "net_inv B n sb rb (st p1) M R A S1 C" using argo_run_inv [OF p1(2) I] by blast
  define v where "v = spm (st p1) Snk (blk B rb (R mod n) B)"
  have flag: "v \<noteq> 0 \<longleftrightarrow> (\<exists>i. R \<le> i \<and> i < arrived (st p1) M \<and> i mod n = R mod n)"
    using S1 rn unfolding net_inv_def v_def by blast
  have recv: "mp_nbrecv io (q, p) = (if v = 0 then (False, q, p1)
      else (True, q\<lparr>recv_ptr := of_nat (Suc R mod n), read_buf := spm_addr io (blk B rb (R mod n) 0)\<rparr>,
            io_wr io (spm_addr io (blk B rb (R mod n) B)) 0 p1))"
    unfolding mp_nbrecv_def Let_def prod.case qf buf_step slot_addr blk_addr p1(1) v_def [symmetric]
    using next_ptr [OF l(1,2), of R] by (auto simp: qf)
  have live: "flight (st p) Src = [] \<Longrightarrow> R < length M \<Longrightarrow> v \<noteq> 0"
    using argo_run_done [OF p1(2), of Src] unfolding flag by (auto simp: arrived_def intro!: exI [of _ R])
  show ?thesis
  proof (cases "v = 0")
    case True
    then show ?thesis using recv eq q S1 live by auto
  next
    case False
    obtain a where a: "argo_run (st p1) a"
      "st (io_wr io (spm_addr io (blk B rb (R mod n) B)) 0 p1) = wr_spm Snk (blk B rb (R mod n) B) 0 a"
      using P l(7) [OF rn, of B] unfolding spm_access_def by blast
    obtain S2 where S2: "net_inv B n sb rb a M R A S2 C" using argo_run_inv [OF a(1) S1] by blast
    have "R < arrived (st p1) M" using inv_receive(1) [OF S1 l(1)] False by (simp add: v_def)
    then have "R < arrived a M" using arrived_mono [OF a(1), of M] by simp
    then have "spm a Snk (blk B rb (R mod n) B) \<noteq> 0" using S2 rn unfolding net_inv_def by blast
    from inv_receive(2) [OF S2 l(1) this] show ?thesis
      using recv eq q False a(2) by (auto simp: snk_ok_def)
  qed
qed

lemma get_words_inv:
  assumes P: "spm_access io st Snk" and L: "layout B n sb rb" and i: "A \<le> i" "i < R"
    and I: "net_inv B n sb rb (st p) M R A S C" and x: "x + m = B"
  shows "\<exists>p' S'. get_words io (spm_addr io (blk B rb (i mod n) x)) m p = (map ((!) (M ! i)) [x..<B], p')
    \<and> net_inv B n sb rb (st p') M R A S' C"
  using I x
proof (induction m arbitrary: x p S)
  case 0
  then show ?case by auto
next
  case (Suc m)
  note l = layoutD [OF L]
  have "i mod n < n" "x \<le> B" using l(1) Suc.prems(2) by simp_all
  then have "blk B rb (i mod n) x < 2 ^ 14" by (rule l(7))
  then obtain p1 where p1: "io_rd io (spm_addr io (blk B rb (i mod n) x)) p = (spm (st p1) Snk (blk B rb (i mod n) x), p1)"
    "argo_run (st p) (st p1)"
    using P unfolding spm_access_def by blast
  obtain S1 where S1: "net_inv B n sb rb (st p1) M R A S1 C" using argo_run_inv [OF p1(2) Suc.prems(1)] by blast
  then have v: "spm (st p1) Snk (blk B rb (i mod n) x) = M ! i ! x"
    using i Suc.prems(2) unfolding net_inv_def by auto
  have nxt: "spm_addr io (blk B rb (i mod n) x) + 4 = spm_addr io (blk B rb (i mod n) (Suc x))"
    using spm_addr_plus [of io "blk B rb (i mod n) x" 1] by (simp add: blk_def)
  obtain p' S' where "get_words io (spm_addr io (blk B rb (i mod n) (Suc x))) m p1 = (map ((!) (M ! i)) [Suc x..<B], p')"
    "net_inv B n sb rb (st p') M R A S' C"
    using Suc.IH [OF S1, of "Suc x"] Suc.prems(2) by auto
  then show ?case using p1(1) v nxt Suc.prems(2) by (auto simp: upt_conv_Cons)
qed

lemma nback_inv:
  assumes P: "spm_access io st Snk" "dma_access io st Snk rid" and L: "layout B n sb rb"
    and q: "snk_ok io rid B n sb rb q R" and I: "net_inv B n sb rb (st p) M R A S A" and A: "A < R"
    and eq: "mp_nback io (q, p) = (ok, q', p')"
  shows "q' = q \<and> (\<exists>S'. net_inv B n sb rb (st p') M R (A + (if ok then 1 else 0)) S' (A + (if ok then 1 else 0)))"
proof -
  note l = layoutD [OF L]
  have qf: "remote q = rid" "recv_count q = spm_addr io (blk B rb n 0)" "send_recv_count q = spm_addr io (blk B sb 2 0)"
    using q by (simp_all add: snk_ok_def)
  obtain free p1 where p1: "noc_dma_done io (ucast rid) p = (free, p1)" by fastforce
  note d1 = dma_done [OF P(2) p1]
  obtain S1 where S1: "net_inv B n sb rb (st p1) M R A S1 A" using argo_run_inv [OF d1(1) I] by blast
  show ?thesis
  proof (cases free)
    case False
    then show ?thesis using eq S1 p1 by (auto simp: mp_nback_def qf)
  next
    case True
    obtain p2 where p2: "io_rd io (spm_addr io (blk B rb n 0)) p1 = (spm (st p2) Snk (blk B rb n 0), p2)" "argo_run (st p1) (st p2)"
      using P(1) l(5) unfolding spm_access_def by blast
    obtain S2 where S2: "net_inv B n sb rb (st p2) M R A S2 A" using argo_run_inv [OF p2(2) S1] by blast
    then have v: "spm (st p2) Snk (blk B rb n 0) = of_nat A" by (simp add: net_inv_def)
    define p3 where "p3 = io_wr io (spm_addr io (blk B rb n 0)) (of_nat (Suc A)) p2"
    obtain a where a: "argo_run (st p2) a" "st p3 = wr_spm Snk (blk B rb n 0) (of_nat (Suc A)) a"
      using P(1) l(5) unfolding spm_access_def p3_def by blast
    obtain S3 where S3: "net_inv B n sb rb a M R A S3 A" using argo_run_inv [OF a(1) S2] by blast
    have fl: "flight a Snk = []"
      using argo_run_done [OF a(1)] argo_run_done [OF p2(2)] d1 True by simp
    have I3: "net_inv B n sb rb (st p3) M R (Suc A) S3 (Suc A)"
      unfolding a(2) by (rule inv_count_ack [OF S3 fl A l(1)])
    obtain ok' p4 where r: "noc_nbwrite io (ucast rid) (spm_addr io (blk B sb 2 0)) (spm_addr io (blk B rb n 0)) (of_nat (4 * 1)) 1 p3 = (ok', p4)"
      by fastforce
    have S: "S3 \<le> A" using S3 by (simp add: net_inv_def)
    obtain b where b: "argo_run (st p3) b" and b': "if ok' then flight b Snk = [] \<and> (\<exists>d e. argo_run (b\<lparr>dma0 := d\<rparr>) e \<and>
        st p4 = e\<lparr>flight := (flight e)(Snk := map (\<lambda>j. (blk B sb 2 0 + j, blk B rb n 0 + j)) [0..<1])\<rparr>)
      else st p4 = b \<and> flight b Snk \<noteq> []"
      using nbwrite_start [OF P(2) l(4,5) _ r] by auto
    have "flight b Snk = []" using argo_run_done [OF b] fl by (simp add: a(2) wr_spm_def)
    then have ok': ok' using b' by (auto split: if_splits)
    then obtain d e where e: "argo_run (b\<lparr>dma0 := d\<rparr>) e" "st p4 = e\<lparr>flight := (flight e)(Snk := [(blk B sb 2 0, blk B rb n 0)])\<rparr>"
      using b' by auto
    obtain S4 where S4: "net_inv B n sb rb b M R (Suc A) S4 (Suc A)" using argo_run_inv [OF b I3] by blast
    obtain S5 where S5: "net_inv B n sb rb e M R (Suc A) S5 (Suc A)"
      using argo_run_inv [OF e(1), of B n sb rb M R "Suc A" S4 "Suc A"] S4 by auto
    then have "net_inv B n sb rb (st p4) M R (Suc A) S5 (Suc A)"
      unfolding e(2) by (intro inv_start_ack) (auto simp: net_inv_def)
    moreover have "mp_nback io (q, p) = (True, q, p4)"
      using p1 True p2(1) v r ok' by (simp add: mp_nback_def qf p3_def add.commute)
    ultimately show ?thesis using eq by auto
  qed
qed


section \<open>First in, first out\<close>

definition queue_inv ::
    "(core \<Rightarrow> 'p noc_io) \<Rightarrow> (core \<Rightarrow> u8) \<Rightarrow> ('p \<Rightarrow> argo) \<Rightarrow> nat \<Rightarrow> nat \<Rightarrow> nat \<Rightarrow> nat \<Rightarrow> 'p queue_sys \<Rightarrow> bool" where
  "queue_inv io cid st B n sb rb s \<longleftrightarrow>
     src_ok (io Src) (cid Snk) B n sb rb (src_q s) (length (sent s)) \<and>
     snk_ok (io Snk) (cid Src) B n sb rb (sink_q s) (length (received s)) \<and>
     (\<exists>S. net_inv B n sb rb (st (plat s)) (sent s) (length (received s)) (acked s) S (acked s)) \<and>
     received s = take (length (received s)) (sent s) \<and> list_all (\<lambda>w. length w = B) (sent s)"

text \<open>A channel just created: nothing sent, the counters and the flags are zero, no transfer is under way.\<close>

definition queue_start ::
    "(core \<Rightarrow> 'p noc_io) \<Rightarrow> (core \<Rightarrow> u8) \<Rightarrow> ('p \<Rightarrow> argo) \<Rightarrow> nat \<Rightarrow> nat \<Rightarrow> nat \<Rightarrow> nat \<Rightarrow> 'p queue_sys \<Rightarrow> bool" where
  "queue_start io cid st B n sb rb s \<longleftrightarrow> layout B n sb rb \<and>
     src_ok (io Src) (cid Snk) B n sb rb (src_q s) 0 \<and> snk_ok (io Snk) (cid Src) B n sb rb (sink_q s) 0 \<and>
     sent s = [] \<and> received s = [] \<and> acked s = 0 \<and>
     flight (st (plat s)) Src = [] \<and> flight (st (plat s)) Snk = [] \<and>
     spm (st (plat s)) Src (blk B sb 2 0) = 0 \<and> spm (st (plat s)) Snk (blk B rb n 0) = 0 \<and>
     (\<forall>i<n. spm (st (plat s)) Snk (blk B rb i B) = 0)"

lemma queue_start_inv: "queue_start io cid st B n sb rb s \<Longrightarrow> queue_inv io cid st B n sb rb s"
  by (auto simp: queue_start_def queue_inv_def net_inv_def arrived_def intro!: exI [of _ 0])

fun op_ok :: "nat \<Rightarrow> q_op \<Rightarrow> bool" where
  "op_ok B (Send w) \<longleftrightarrow> length w = B"
| "op_ok B Recv \<longleftrightarrow> True"
| "op_ok B Ack \<longleftrightarrow> True"

lemma queue_send_inv:
  assumes "argo_platform io cid st" "layout B n sb rb" "queue_inv io cid st B n sb rb s" "length w = B"
  shows "queue_inv io cid st B n sb rb (queue_op io (Send w) s)"
proof -
  have P: "spm_access (io Src) st Src" "dma_access (io Src) st Src (cid Snk)"
    using assms(1) unfolding argo_platform_def by (metis other.simps(1))+
  obtain S where I: "net_inv B n sb rb (st (plat s)) (sent s) (length (received s)) (acked s) S (acked s)"
    and q: "src_ok (io Src) (cid Snk) B n sb rb (src_q s) (length (sent s))"
    using assms(3) by (auto simp: queue_inv_def)
  define p where "p = put_words (io Src) (write_buf (src_q s)) w (plat s)"
  have wb: "write_buf (src_q s) = spm_addr (io Src) (blk B sb (length (sent s) mod 2) 0)" using q by (simp add: src_ok_def)
  obtain S1 where S1: "net_inv B n sb rb (st p) (sent s) (length (received s)) (acked s) S1 (acked s)"
    and w: "\<forall>x<B. spm (st p) Src (blk B sb (length (sent s) mod 2) x) = w ! x"
    using put_words_inv [OF P(1) assms(2,4) I, of w 0] unfolding p_def wb by auto
  obtain ok q' p' where r: "mp_nbsend (io Src) (src_q s, p) = (ok, q', p')" by (cases "mp_nbsend (io Src) (src_q s, p)")
  have op: "queue_op io (Send w) s = s\<lparr>src_q := q', plat := p', sent := sent s @ (if ok then [w] else [])\<rparr>"
    by (simp add: r flip: p_def)
  have le: "length (received s) \<le> length (sent s)"
    using I by (auto simp: net_inv_def arrived_def split: if_splits)
  show ?thesis
    using nbsend_inv [OF P assms(2) q S1 _ r, of w] w assms(3,4) le unfolding op queue_inv_def
    by (auto simp: add.commute)
qed

lemma queue_recv_inv:
  assumes "argo_platform io cid st" "layout B n sb rb" "queue_inv io cid st B n sb rb s"
  shows "queue_inv io cid st B n sb rb (queue_op io Recv s)
    \<and> (flight (st (plat s)) Src = [] \<and> length (received s) < length (sent s) \<longrightarrow>
        received (queue_op io Recv s) = received s @ [sent s ! length (received s)])"
proof -
  have P: "spm_access (io Snk) st Snk"
    using assms(1) unfolding argo_platform_def by metis
  let ?R = "length (received s)" and ?M = "sent s"
  obtain S where I: "net_inv B n sb rb (st (plat s)) ?M ?R (acked s) S (acked s)"
    and q: "snk_ok (io Snk) (cid Src) B n sb rb (sink_q s) ?R"
    using assms(3) by (auto simp: queue_inv_def)
  obtain ok q' p' where r: "mp_nbrecv (io Snk) (sink_q s, plat s) = (ok, q', p')" by (cases "mp_nbrecv (io Snk) (sink_q s, plat s)")
  note n = nbrecv_inv [OF P assms(2) q I r]
  show ?thesis
  proof (cases ok)
    case False
    then have "queue_op io Recv s = s\<lparr>sink_q := q', plat := p'\<rparr>" by (simp add: r)
    then show ?thesis using n False assms(3) by (auto simp: queue_inv_def)
  next
    case True
    then obtain S1 where S1: "net_inv B n sb rb (st p') ?M (Suc ?R) (acked s) S1 (acked s)" using n by auto
    have A: "acked s \<le> ?R" using I by (simp add: net_inv_def)
    have R: "?R < length ?M" using S1 by (auto simp: net_inv_def arrived_def split: if_splits)
    obtain p2 S2 where p2: "get_words (io Snk) (spm_addr (io Snk) (blk B rb (?R mod n) 0)) B p' = (map ((!) (?M ! ?R)) [0..<B], p2)"
      "net_inv B n sb rb (st p2) ?M (Suc ?R) (acked s) S2 (acked s)"
      using get_words_inv [OF P assms(2) A _ S1, of 0 B] by auto
    have "length (?M ! ?R) = B" using assms(3) R by (auto simp: queue_inv_def list_all_length)
    then have word: "map ((!) (?M ! ?R)) [0..<B] = ?M ! ?R" using map_nth by blast
    have "4 * B < 2 ^ 32" using layoutD(3) [OF assms(2)] by simp
    then have "unat (buf_size q') div 4 = B"
      using n q of_nat_u32 [of "4 * B"] by (simp add: snk_ok_def del: of_nat_mult)
    then have op: "queue_op io Recv s = s\<lparr>sink_q := q', plat := p2, received := received s @ [?M ! ?R]\<rparr>"
      using True n p2(1) by (simp add: r word)
    have "received s @ [?M ! ?R] = take (Suc ?R) ?M"
      using assms(3) R by (simp add: queue_inv_def take_Suc_conv_app_nth)
    moreover have "min (length ?M) (Suc ?R) = Suc ?R" using R by simp
    ultimately show ?thesis using n True p2(2) assms(3) unfolding op queue_inv_def by auto
  qed
qed

lemma queue_ack_inv:
  assumes "argo_platform io cid st" "layout B n sb rb" "queue_inv io cid st B n sb rb s"
  shows "queue_inv io cid st B n sb rb (queue_op io Ack s)"
proof (cases "acked s < length (received s)")
  case True
  have P: "spm_access (io Snk) st Snk" "dma_access (io Snk) st Snk (cid Src)"
    using assms(1) unfolding argo_platform_def by (metis other.simps(2))+
  obtain S where I: "net_inv B n sb rb (st (plat s)) (sent s) (length (received s)) (acked s) S (acked s)"
    and q: "snk_ok (io Snk) (cid Src) B n sb rb (sink_q s) (length (received s))"
    using assms(3) by (auto simp: queue_inv_def)
  obtain ok q' p' where r: "mp_nback (io Snk) (sink_q s, plat s) = (ok, q', p')" by (cases "mp_nback (io Snk) (sink_q s, plat s)")
  show ?thesis
    using nback_inv [OF P assms(2) q I True r] assms(3) True by (auto simp: r queue_inv_def)
qed (use assms in simp)

lemma queue_run_inv:
  assumes "argo_platform io cid st" "layout B n sb rb"
  shows "queue_inv io cid st B n sb rb s \<Longrightarrow> list_all (op_ok B) ops \<Longrightarrow> queue_inv io cid st B n sb rb (fold (queue_op io) ops s)"
proof (induction ops arbitrary: s)
  case (Cons x xs)
  then have "queue_inv io cid st B n sb rb (queue_op io x s)"
    using queue_send_inv [OF assms] queue_recv_inv [OF assms] queue_ack_inv [OF assms] by (cases x) auto
  then show ?case using Cons by simp
qed simp

text \<open>
  C3. A queuing port is a FIFO queue. On every platform whose network copies the words of a transfer in order,
  however the deliveries interleave with the accesses of the two cores, and for every sequence of attempts to
  send, receive and acknowledge: the messages received are the first of the messages sent, unaltered
  and in order; at most \<open>n\<close> messages are unacknowledged; and when the network is idle and a
  message has not been received yet, \<open>mp_nbrecv\<close> receives it.
\<close>

theorem queue_fifo:
  assumes "argo_platform io cid st" "queue_start io cid st B n sb rb s0" "list_all (op_ok B) ops"
    and "s = fold (queue_op io) ops s0"
  shows "received s = take (length (received s)) (sent s) \<and> length (sent s) - acked s \<le> n
    \<and> (flight (st (plat s)) Src = [] \<and> length (received s) < length (sent s) \<longrightarrow>
        received (queue_op io Recv s) = received s @ [sent s ! length (received s)])"
proof -
  have L: "layout B n sb rb" using assms(2) by (simp add: queue_start_def)
  have I: "queue_inv io cid st B n sb rb s"
    using queue_run_inv [OF assms(1) L queue_start_inv [OF assms(2)] assms(3)] assms(4) by simp
  then have "length (sent s) - acked s \<le> n" unfolding queue_inv_def net_inv_def by fastforce
  then show ?thesis using I queue_recv_inv [OF assms(1) L I] by (simp add: queue_inv_def)
qed


text \<open>
  A platform whose interface delivers one word in each direction at every read; the ports have two buffers
  of two words.
\<close>

definition demo_rd :: "core \<Rightarrow> u32 \<Rightarrow> argo \<Rightarrow> u32 \<times> argo" where
  "demo_rd c a p = (let p = deliver Src (deliver Snk p) in
     if a < 0x4000000 then (if flight p c = [] then 0 else 0x80000000, p)
     else (spm p c (unat ((a - 0x4000000) div 4)), p))"

definition demo_wr :: "core \<Rightarrow> u8 \<Rightarrow> u32 \<Rightarrow> u32 \<Rightarrow> argo \<Rightarrow> argo" where
  "demo_wr c rid a v p =
     (if a = 8 * ucast rid then p\<lparr>dma0 := (dma0 p)(c := v)\<rparr>
      else if a < 0x4000000 then p\<lparr>flight := (flight p)(c := transfer (dma0 p c) v)\<rparr>
      else wr_spm c (unat ((a - 0x4000000) div 4)) v p)"

fun demo_cid :: "core \<Rightarrow> u8" where
  "demo_cid Src = 0"
| "demo_cid Snk = 1"

definition demo_io :: "core \<Rightarrow> argo noc_io" where
  "demo_io c = \<lparr>io_rd = demo_rd c, io_wr = demo_wr c (demo_cid (other c)), exc_register = (\<lambda>_ _ p. p),
     intr_clear_pending = (\<lambda>p. p), PATMOS_IO_ARGO = 0, get_cpuid = ucast (demo_cid c), get_cpucnt = 2\<rparr>"

lemma demo_addr:
  "x < 2 ^ 14 \<Longrightarrow> spm_addr (demo_io c) x - 0x4000000 = 4 * of_nat x"
  "x < 2 ^ 14 \<Longrightarrow> \<not> spm_addr (demo_io c) x < 0x4000000"
  "x < 2 ^ 14 \<Longrightarrow> unat (4 * of_nat x div 4 :: u32) = x"
proof -
  assume x: "x < 2 ^ 14"
  have u: "unat (4 * of_nat x :: u32) = 4 * x" using of_nat_u32 [of "4 * x"] x by simp
  show "spm_addr (demo_io c) x - 0x4000000 = 4 * of_nat x"
    by (simp add: spm_addr_def NOC_SPM_BASE_def demo_io_def)
  show "unat (4 * of_nat x div 4 :: u32) = x" by (simp add: unat_div u)
  have "unat (0x4000000 + 4 * of_nat x :: u32) = 0x4000000 + 4 * x" using x u by (simp add: unat_word_ariths)
  then show "\<not> spm_addr (demo_io c) x < 0x4000000"
    by (simp add: spm_addr_def NOC_SPM_BASE_def demo_io_def word_less_nat_alt)
qed

lemma demo_dma: "dma_addr (demo_io c) rid = 8 * ucast rid"
  by (simp add: dma_addr_def NOC_DMA_BASE_def BANK_def demo_io_def)

lemma demo_dma_small: "8 * ucast (rid :: u8) + 4 < (0x4000000 :: u32)"
proof -
  have "unat (ucast rid :: u32) < 256" using unsigned_less [of rid, where ?'a = nat] by (simp add: unsigned_ucast_eq take_bit_nat_eq_self)
  then show ?thesis by (simp add: word_less_nat_alt unat_word_ariths)
qed

lemma demo_run: "argo_run p (deliver Src (deliver Snk p))"
  by (intro argo_step argo_refl)

lemma demo_platform: "argo_platform demo_io demo_cid (\<lambda>p. p)"
proof -
  have io: "io_rd (demo_io c) = demo_rd c" "io_wr (demo_io c) = demo_wr c (demo_cid (other c))" for c
    by (simp_all add: demo_io_def)
  have ne: "spm_addr (demo_io c) x \<noteq> 8 * ucast (rid :: u8)" if "x < 2 ^ 14" for c x rid
  proof
    assume e: "spm_addr (demo_io c) x = 8 * ucast rid"
    have "unat (ucast rid :: u32) < 256" using unsigned_less [of rid, where ?'a = nat] by (simp add: unsigned_ucast_eq take_bit_nat_eq_self)
    then have "8 * ucast rid < (0x4000000 :: u32)" by (simp add: word_less_nat_alt unat_word_ariths)
    then show False using demo_addr(2) [OF that, of c] e by simp
  qed
  have "spm_access (demo_io c) (\<lambda>p. p) c" for c
    unfolding spm_access_def io demo_rd_def demo_wr_def Let_def
    using ne [of _ c "demo_cid (other c)"] by (auto simp: demo_addr intro: demo_run argo_refl)
  moreover have "dma_access (demo_io c) (\<lambda>p. p) c (demo_cid (other c))" for c
    unfolding dma_access_def io demo_rd_def demo_wr_def Let_def demo_dma
    using demo_dma_small [of "demo_cid (other c)"] by (auto simp: bit_one_at intro: demo_run argo_refl)
  ultimately show ?thesis by (simp add: argo_platform_def)
qed


definition demo_src :: qpd_t where
  "demo_src = \<lparr>direction_type = SOURCE, remote = 1, recv_addr = 0x4000020, send_recv_count = 0x4000018, buf_size = 8, num_buf = 2,
     write_buf = 0x4000000, shadow_write_buf = 0x400000C, send_count = 0, send_ptr = 0, read_buf = 0, recv_count = 0, recv_ptr = 0\<rparr>"

definition demo_sink :: qpd_t where
  "demo_sink = \<lparr>direction_type = SINK, remote = 0, recv_addr = 0x4000020, send_recv_count = 0x4000018, buf_size = 8, num_buf = 2,
     write_buf = 0, shadow_write_buf = 0, send_count = 0, send_ptr = 0, read_buf = 0x4000020, recv_count = 0x4000038, recv_ptr = 0\<rparr>"

definition demo_queue :: "argo queue_sys" where
  "demo_queue = \<lparr>src_q = demo_src, sink_q = demo_sink,
     plat = \<lparr>spm = (\<lambda>_ _. 0), dma0 = (\<lambda>_. 0), flight = (\<lambda>_. [])\<rparr>, sent = [], received = [], acked = 0\<rparr>"

lemma demo_queue_start: "queue_start demo_io demo_cid (\<lambda>p. p) 2 2 0 8 demo_queue"
  by (simp add: queue_start_def layout_def blk_def src_ok_def snk_ok_def demo_queue_def demo_src_def demo_sink_def
      spm_addr_def NOC_SPM_BASE_def demo_io_def)

lemma demo_received:
  "received (fold (queue_op demo_io) [Send [7, 8], Recv, Recv, Recv, Recv, Ack] demo_queue) = [[7, 8]]"
  by code_simp

theorem queue_fifo_witness:
  "let s = fold (queue_op demo_io) [Send [7, 8], Recv, Recv, Recv, Recv, Ack] demo_queue
   in received s = [[7, 8]] \<and> received s = take (length (received s)) (sent s) \<and> length (sent s) - acked s \<le> 2"
proof -
  have "list_all (op_ok 2) [Send [7, 8], Recv, Recv, Recv, Recv, Ack]" by simp
  from queue_fifo [OF demo_platform demo_queue_start this refl] demo_received show ?thesis
    unfolding Let_def by (elim conjE) (intro conjI)
qed


section \<open>Creating and connecting the two ports\<close>

lemma argo_run_idle: "argo_run a b \<Longrightarrow> flight a = (\<lambda>_. []) \<Longrightarrow> b = a"
  by (induction rule: argo_run.induct) (auto simp: deliver_def)

lemma idle_write:
  assumes "spm_access io st c" "flight (st p) = (\<lambda>_. [])" "x < 2 ^ 14"
  shows "st (io_wr io (spm_addr io x) v p) = wr_spm c x v (st p)"
  using assms argo_run_idle unfolding spm_access_def by metis

lemma idle_flags:
  assumes "spm_access io st c" "flight (st p) = (\<lambda>_. [])" "\<And>i. i < k \<Longrightarrow> f i < 2 ^ 14"
  shows "\<exists>a. st (fold (\<lambda>i. io_wr io (spm_addr io (f i)) 0) [0..<k] p) = a \<and> flight a = (\<lambda>_. [])
    \<and> (\<forall>d x. spm a d x = (if d = c \<and> x \<in> f ` {..<k} then 0 else spm (st p) d x))"
  using assms(3)
proof (induction k)
  case 0
  then show ?case using assms(2) by simp
next
  case (Suc k)
  then obtain a where a: "st (fold (\<lambda>i. io_wr io (spm_addr io (f i)) 0) [0..<k] p) = a" "flight a = (\<lambda>_. [])"
    "\<forall>d x. spm a d x = (if d = c \<and> x \<in> f ` {..<k} then 0 else spm (st p) d x)" by force
  have "st (fold (\<lambda>i. io_wr io (spm_addr io (f i)) 0) [0..<Suc k] p) = wr_spm c (f k) 0 a"
    using idle_write [OF assms(1), of "fold (\<lambda>i. io_wr io (spm_addr io (f i)) 0) [0..<k] p" "f k" 0] a Suc.prems [of k] by simp
  then show ?case using a(2,3) by (auto simp: wr_spm_def lessThan_Suc)
qed

lemma mp_alloc_ok:
  assumes "mp_alloc io sz m = (a, m')" "a \<noteq> 0"
  shows "a = spm_alloc_array m (get_cpuid io)"
    "m' = m\<lparr>spm_alloc_array := (spm_alloc_array m)(get_cpuid io := a + WALIGN sz)\<rparr>"
  using assms by (auto simp: mp_alloc_def Let_def split: if_splits)

lemma WALIGN_40: "WALIGN 40 = 40"
  by (simp add: WALIGN_def)

lemma WALIGN_words: "unat x + 3 < 2 ^ 32 \<Longrightarrow> WALIGN x = of_nat (4 * ((unat x + 3) div 4))"
proof -
  assume x: "unat x + 3 < 2 ^ 32"
  then have "unat (x + 3) = unat x + 3" by (simp add: unat_word_ariths)
  then have "unat (WALIGN x) = 4 * ((unat x + 3) div 4)"
    unfolding WALIGN_def and_not_3 unat_walign by simp
  moreover have "4 * ((unat x + 3) div 4) < 2 ^ 32" using x by (metis div_times_less_eq_dividend mult.commute le_less_trans)
  ultimately show ?thesis unfolding word_unat_eq_iff using of_nat_u32 by metis
qed

lemma created_source:
  assumes "mp_create_qport io ch SOURCE sz n_buf (m, p) = (ps, m1, p1)" "ps \<noteq> 0"
    and x: "spm_alloc_array m (get_cpuid io) = spm_addr io x" and bs: "WALIGN sz = of_nat (4 * B)"
  shows "unat ch < 256" "p1 = io_wr io (spm_addr io (blk B (x + 10) 2 0)) 0 p"
    "qpds m1 (get_cpuid io) ps = (qpds m (get_cpuid io) ps)\<lparr>direction_type := SOURCE, buf_size := of_nat (4 * B), num_buf := n_buf,
       send_recv_count := spm_addr io (blk B (x + 10) 2 0), send_count := 0, send_ptr := 0,
       write_buf := spm_addr io (blk B (x + 10) 0 0), shadow_write_buf := spm_addr io (blk B (x + 10) 1 0)\<rparr>"
    "chan_info m1 (unat ch) = (chan_info m (unat ch))\<lparr>port_type := QUEUING, src_desc_ptr := ps,
       src_addr := spm_addr io (blk B (x + 10) 2 0), src_id := char_id (get_cpuid io)\<rparr>"
    "\<And>c. c \<noteq> get_cpuid io \<Longrightarrow> spm_alloc_array m1 c = spm_alloc_array m c"
proof -
  let ?cpu = "get_cpuid io"
  show ch: "unat ch < 256" using assms(1,2) by (auto simp: mp_create_qport_def split: if_splits)
  obtain q ma where q: "mp_alloc io 40 m = (q, ma)" by fastforce
  have "q \<noteq> 0" using assms(1,2) ch q by (auto simp: mp_create_qport_def)
  note al = mp_alloc_ok [OF q this]
  define mb where "mb = upd_chan (unat ch) (\<lambda>ch. ch\<lparr>port_type := QUEUING\<rparr>)
    (upd_qpd ?cpu q (\<lambda>q. q\<lparr>direction_type := SOURCE, buf_size := WALIGN sz, num_buf := n_buf\<rparr>) ma)"
  obtain r mc where r: "mp_alloc io (mp_send_alloc_size (qpds mb ?cpu q)) mb = (r, mc)" by fastforce
  have cs: "create_source io (unat ch) q (mb, p) = (ps, m1, p1)"
    using assms(1) ch q \<open>q \<noteq> 0\<close> by (simp add: mp_create_qport_def mb_def)
  then have "r \<noteq> 0" using r assms(2) by (auto simp: create_source_def Let_def split: if_splits)
  note al2 = mp_alloc_ok [OF r this]
  have r': "r = spm_addr io (x + 10)"
    using al2(1) al x spm_addr_plus [of io x 10] by (simp add: mb_def upd_chan_def upd_qpd_def WALIGN_40)
  have off: "r + of_nat (4 * Suc B) * NUM_WRITE_BUF = spm_addr io (blk B (x + 10) 2 0)"
    "r + of_nat (4 * Suc B) = spm_addr io (blk B (x + 10) 1 0)" "r = spm_addr io (blk B (x + 10) 0 0)"
    using slot_addr [of io "x + 10" B 2] slot_addr [of io "x + 10" B 1] slot_addr [of io "x + 10" B 0] by (simp_all add: r')
  have mb: "buf_size (qpds mb ?cpu q) = of_nat (4 * B)" using bs by (simp add: mb_def upd_chan_def upd_qpd_def)
  have cs': "(ps, m1, p1) = (q, upd_qpd ?cpu q (\<lambda>q. q\<lparr>send_count := 0, send_ptr := 0, write_buf := spm_addr io (blk B (x + 10) 0 0),
      shadow_write_buf := spm_addr io (blk B (x + 10) 1 0)\<rparr>)
    (upd_chan (unat ch) (\<lambda>ch. ch\<lparr>src_id := char_id ?cpu\<rparr>)
    (upd_chan (unat ch) (\<lambda>ch. ch\<lparr>src_addr := spm_addr io (blk B (x + 10) 2 0)\<rparr>)
    (upd_chan (unat ch) (\<lambda>ch. ch\<lparr>src_desc_ptr := q\<rparr>)
    (upd_qpd ?cpu q (\<lambda>q. q\<lparr>send_recv_count := spm_addr io (blk B (x + 10) 2 0)\<rparr>) mc)))), 
    io_wr io (spm_addr io (blk B (x + 10) 2 0)) 0 p)"
    unfolding cs [symmetric] create_source_def Let_def prod.case r mb buf_step off(1)
    using \<open>r \<noteq> 0\<close> off(2,3) mb by (simp add: upd_chan_def upd_qpd_def al2(2) add.commute del: of_nat_mult)
  show "p1 = io_wr io (spm_addr io (blk B (x + 10) 2 0)) 0 p" using cs' by simp
  show "qpds m1 ?cpu ps = (qpds m ?cpu ps)\<lparr>direction_type := SOURCE, buf_size := of_nat (4 * B), num_buf := n_buf,
       send_recv_count := spm_addr io (blk B (x + 10) 2 0), send_count := 0, send_ptr := 0,
       write_buf := spm_addr io (blk B (x + 10) 0 0), shadow_write_buf := spm_addr io (blk B (x + 10) 1 0)\<rparr>"
    using cs' bs by (simp add: upd_chan_def upd_qpd_def al2(2) mb_def al(2))
  show "chan_info m1 (unat ch) = (chan_info m (unat ch))\<lparr>port_type := QUEUING, src_desc_ptr := ps,
       src_addr := spm_addr io (blk B (x + 10) 2 0), src_id := char_id ?cpu\<rparr>"
    using cs' by (simp add: upd_chan_def upd_qpd_def al2(2) mb_def al(2))
  show "\<And>c. c \<noteq> ?cpu \<Longrightarrow> spm_alloc_array m1 c = spm_alloc_array m c"
    using cs' by (simp add: upd_chan_def upd_qpd_def al2(2) mb_def al(2))
qed

lemma created_sink:
  assumes "mp_create_qport io ch SINK sz n_buf (m, p) = (pr, m2, p2)" "pr \<noteq> 0"
    and y: "spm_alloc_array m (get_cpuid io) = spm_addr io y" and bs: "WALIGN sz = of_nat (4 * B)"
  shows "p2 = fold (\<lambda>i. io_wr io (spm_addr io (blk B (y + 10) i B)) 0) [0..<unat n_buf]
      (io_wr io (spm_addr io (blk B (y + 10) (unat n_buf) 0)) 0 p)"
    "qpds m2 (get_cpuid io) pr = (qpds m (get_cpuid io) pr)\<lparr>direction_type := SINK, buf_size := of_nat (4 * B), num_buf := n_buf,
       recv_addr := spm_addr io (y + 10), read_buf := spm_addr io (y + 10), recv_ptr := 0,
       recv_count := spm_addr io (blk B (y + 10) (unat n_buf) 0)\<rparr>"
    "chan_info m2 (unat ch) = (chan_info m (unat ch))\<lparr>port_type := QUEUING, sink_desc_ptr := pr,
       sink_addr := spm_addr io (y + 10), sink_id := char_id (get_cpuid io)\<rparr>"
    "\<And>c. c \<noteq> get_cpuid io \<Longrightarrow> qpds m2 c = qpds m c"
proof -
  let ?cpu = "get_cpuid io"
  have ch: "unat ch < 256" using assms(1,2) by (auto simp: mp_create_qport_def split: if_splits)
  obtain q ma where q: "mp_alloc io 40 m = (q, ma)" by fastforce
  have "q \<noteq> 0" using assms(1,2) ch q by (auto simp: mp_create_qport_def)
  note al = mp_alloc_ok [OF q this]
  define mb where "mb = upd_chan (unat ch) (\<lambda>ch. ch\<lparr>port_type := QUEUING\<rparr>)
    (upd_qpd ?cpu q (\<lambda>q. q\<lparr>direction_type := SINK, buf_size := WALIGN sz, num_buf := n_buf\<rparr>) ma)"
  obtain r mc where r: "mp_alloc io (mp_recv_alloc_size (qpds mb ?cpu q)) mb = (r, mc)" by fastforce
  have cs: "create_sink io (unat ch) q n_buf (mb, p) = (pr, m2, p2)"
    using assms(1) ch q \<open>q \<noteq> 0\<close> by (simp add: mp_create_qport_def mb_def)
  then have "r \<noteq> 0" using r assms(2) by (auto simp: create_sink_def Let_def upd_qpd_def upd_chan_def split: if_splits)
  note al2 = mp_alloc_ok [OF r this]
  have r': "r = spm_addr io (y + 10)"
    using al2(1) al y spm_addr_plus [of io y 10] by (simp add: mb_def upd_chan_def upd_qpd_def WALIGN_40)
  have off: "spm_addr io (y + 10) + of_nat (4 * Suc B) * n_buf = spm_addr io (blk B (y + 10) (unat n_buf) 0)"
    using slot_addr [of io "y + 10" B "unat n_buf"] by simp
  have flag: "spm_addr io (y + 10) + of_nat (4 * Suc B) * of_nat i + of_nat (4 * B) = spm_addr io (blk B (y + 10) i B)" for i
    unfolding slot_addr by (rule blk_addr)
  have mb: "buf_size (qpds mb ?cpu q) = of_nat (4 * B)" "num_buf (qpds mb ?cpu q) = n_buf"
    using bs by (simp_all add: mb_def upd_chan_def upd_qpd_def)
  define f :: "qpd_t \<Rightarrow> qpd_t" where "f = (\<lambda>q. q\<lparr>recv_addr := spm_addr io (y + 10), read_buf := spm_addr io (y + 10), recv_ptr := 0,
       recv_count := spm_addr io (blk B (y + 10) (unat n_buf) 0)\<rparr>)"
  have cs': "(pr, m2, p2) = (q, upd_qpd ?cpu q f
    (upd_chan (unat ch) (\<lambda>ch. ch\<lparr>sink_desc_ptr := q, sink_addr := spm_addr io (y + 10), sink_id := char_id ?cpu\<rparr>) mc),
    fold (\<lambda>i. io_wr io (spm_addr io (blk B (y + 10) i B)) 0) [0..<unat n_buf]
      (io_wr io (spm_addr io (blk B (y + 10) (unat n_buf) 0)) 0 p))"
    using \<open>r \<noteq> 0\<close> mb off flag unfolding cs [symmetric] create_sink_def
    by (simp add: upd_chan_def upd_qpd_def al2(2) r' Let_def r buf_step f_def comp_def del: of_nat_mult of_nat_Suc mult_Suc_right)
  show "p2 = fold (\<lambda>i. io_wr io (spm_addr io (blk B (y + 10) i B)) 0) [0..<unat n_buf]
      (io_wr io (spm_addr io (blk B (y + 10) (unat n_buf) 0)) 0 p)" using cs' by simp
  show "qpds m2 ?cpu pr = (qpds m ?cpu pr)\<lparr>direction_type := SINK, buf_size := of_nat (4 * B), num_buf := n_buf,
       recv_addr := spm_addr io (y + 10), read_buf := spm_addr io (y + 10), recv_ptr := 0,
       recv_count := spm_addr io (blk B (y + 10) (unat n_buf) 0)\<rparr>"
    using cs' bs by (simp add: upd_chan_def upd_qpd_def al2(2) mb_def al(2) f_def)
  show "chan_info m2 (unat ch) = (chan_info m (unat ch))\<lparr>port_type := QUEUING, sink_desc_ptr := pr,
       sink_addr := spm_addr io (y + 10), sink_id := char_id ?cpu\<rparr>"
    using cs' by (simp add: upd_chan_def upd_qpd_def al2(2) mb_def al(2))
  show "\<And>c. c \<noteq> ?cpu \<Longrightarrow> qpds m2 c = qpds m c"
    using cs' by (simp add: upd_chan_def upd_qpd_def al2(2) mb_def al(2))
qed

text \<open>
  C16. Creating the two ports of a channel and connecting them gives a working queue: when the source and the sink have created their
  port on the same channel, for messages of the same size, neither call has failed and the buffers lie in
  the communication memory, then after \<open>mp_init_ports\<close> has connected both ends
  the channel is a queue of \<open>n_buf\<close> buffers with nothing in it.
\<close>

theorem queue_created:
  assumes "argo_platform io cid st" "\<And>c. get_cpuid (io c) = ucast (cid c)" "cid Src \<noteq> cid Snk"
    and "\<And>c. NOC_SPM_BASE (io c) = base" "flight (st p) = (\<lambda>_. [])"
    and "mp_create_qport (io Src) ch SOURCE sz n_buf (m, p) = (ps, m1, p1)" "ps \<noteq> 0"
    and "mp_create_qport (io Snk) ch SINK sz n_buf (m1, p1) = (pr, m2, p2)" "pr \<noteq> 0"
    and "m3 = connect_sink (get_cpuid (io Snk)) (unat ch) (connect_source (get_cpuid (io Src)) (unat ch) m2)"
    and "\<And>c. spm_alloc_array m (get_cpuid (io c)) = spm_addr (io c) (free c)"
    and "B = (unat sz + 3) div 4" "unat sz + 3 < 2 ^ 32" "layout B (unat n_buf) (free Src + 10) (free Snk + 10)"
  shows "queue_start io cid st B (unat n_buf) (free Src + 10) (free Snk + 10)
    \<lparr>src_q = qpds m3 (get_cpuid (io Src)) ps, sink_q = qpds m3 (get_cpuid (io Snk)) pr, plat = p2,
      sent = [], received = [], acked = 0\<rparr>"
proof -
  let ?s = "get_cpuid (io Src)" and ?r = "get_cpuid (io Snk)" and ?c = "unat ch" and ?n = "unat n_buf"
  let ?sb = "free Src + 10" and ?rb = "free Snk + 10"
  note l = layoutD [OF assms(14)]
  have sr: "?s \<noteq> ?r" using assms(2,3) by (metis ucast_u8_u32)
  have bs: "WALIGN sz = of_nat (4 * B)" using WALIGN_words [OF assms(13)] assms(12) by simp
  have id: "char_id (get_cpuid (io c)) = ucast (cid c)" "ucast (char_id (get_cpuid (io c))) = cid c" for c
    by (simp_all add: char_id_def assms(2))
  have addr: "spm_addr (io Snk) x = spm_addr (io Src) x" for x by (simp add: spm_addr_def assms(4))
  note src = created_source [OF assms(6,7) assms(11) bs]
  have "spm_alloc_array m1 ?r = spm_addr (io Snk) (free Snk)" using src(5) [of ?r] sr assms(11) by simp
  note snk = created_sink [OF assms(8,9) this bs]
  have acc: "spm_access (io c) st c" for c using assms(1) by (simp add: argo_platform_def)
  have p1: "st p1 = wr_spm Src (blk B ?sb 2 0) 0 (st p)"
    unfolding src(2) by (rule idle_write [OF acc assms(5) l(4)])
  then have f1: "flight (st p1) = (\<lambda>_. [])" using assms(5) by (simp add: wr_spm_def)
  define p' where "p' = io_wr (io Snk) (spm_addr (io Snk) (blk B ?rb ?n 0)) 0 p1"
  have p': "st p' = wr_spm Snk (blk B ?rb ?n 0) 0 (st p1)"
    unfolding p'_def by (rule idle_write [OF acc f1 l(5)])
  then have f': "flight (st p') = (\<lambda>_. [])" using f1 by (simp add: wr_spm_def)
  have "st p2 = st (fold (\<lambda>i. io_wr (io Snk) (spm_addr (io Snk) (blk B ?rb i B)) 0) [0..<?n] p')"
    by (simp add: snk(1) p'_def)
  moreover have "\<exists>a. st (fold (\<lambda>i. io_wr (io Snk) (spm_addr (io Snk) (blk B ?rb i B)) 0) [0..<?n] p') = a \<and> flight a = (\<lambda>_. [])
    \<and> (\<forall>d x. spm a d x = (if d = Snk \<and> x \<in> (\<lambda>i. blk B ?rb i B) ` {..<?n} then 0 else spm (st p') d x))"
    using l(7) by (intro idle_flags [OF acc f']) simp
  ultimately have p2: "flight (st p2) = (\<lambda>_. [])"
    "\<And>d x. spm (st p2) d x = (if d = Snk \<and> x \<in> (\<lambda>i. blk B ?rb i B) ` {..<?n} then 0 else spm (st p') d x)" by auto
  have "chan_info m2 ?c = (chan_info m ?c)\<lparr>port_type := QUEUING, src_desc_ptr := ps, src_addr := spm_addr (io Src) (blk B ?sb 2 0),
      src_id := ucast (cid Src), sink_desc_ptr := pr, sink_addr := spm_addr (io Src) ?rb, sink_id := ucast (cid Snk)\<rparr>"
    using src(4) snk(3) by (simp add: id addr)
  then have "m3 = upd_qpd ?r pr (\<lambda>q. q\<lparr>send_recv_count := spm_addr (io Src) (blk B ?sb 2 0), remote := cid Src\<rparr>)
    (upd_qpd ?s ps (\<lambda>q. q\<lparr>recv_addr := spm_addr (io Src) ?rb, remote := cid Snk\<rparr>) m2)"
    by (simp add: assms(10) connect_sink_def connect_source_def Let_def upd_qpd_def)
  then have "src_ok (io Src) (cid Snk) B ?n ?sb ?rb (qpds m3 ?s ps) 0" "snk_ok (io Snk) (cid Src) B ?n ?sb ?rb (qpds m3 ?r pr) 0"
    using sr src(3) snk(2) snk(4) [of ?s] by (simp_all add: upd_qpd_def src_ok_def snk_ok_def addr)
  moreover have "spm (st p2) Src (blk B ?sb 2 0) = 0" "spm (st p2) Snk (blk B ?rb ?n 0) = 0"
    "\<forall>i<?n. spm (st p2) Snk (blk B ?rb i B) = 0"
    using p2(2) p' p1 by (auto simp: wr_spm_def)
  ultimately show ?thesis using p2(1) assms(14) by (simp add: queue_start_def)
qed

text \<open>Two cores whose communication memories of 64 KByte are still empty.\<close>

definition demo_mem :: mp_mem where
  "demo_mem = \<lparr>spm_alloc_array = (\<lambda>_. 0x4000000), spm_size_array = (\<lambda>_. 0x10000),
     chan_info = (\<lambda>_. \<lparr>port_type = SAMPLING, src_id = -1, sink_id = -1, src_addr = 0, sink_addr = 0, src_lock = 0, sink_lock = 0,
       src_desc_ptr = 0, sink_desc_ptr = 0\<rparr>),
     qpds = (\<lambda>_ _. demo_src), spds = (\<lambda>_ _. undefined), locks = (\<lambda>_ _. undefined)\<rparr>"

lemma demo_mem_alloc: "spm_alloc_array demo_mem c = 0x4000000"
  by (simp add: demo_mem_def)

theorem queue_created_witness:
  "\<exists>ps m1 p1 pr m2 p2. mp_create_qport (demo_io Src) 3 SOURCE 7 2 (demo_mem, plat demo_queue) = (ps, m1, p1) \<and> ps \<noteq> 0
    \<and> mp_create_qport (demo_io Snk) 3 SINK 7 2 (m1, p1) = (pr, m2, p2) \<and> pr \<noteq> 0
    \<and> queue_start demo_io demo_cid (\<lambda>p. p) 2 2 10 10
      \<lparr>src_q = qpds (connect_sink 1 3 (connect_source 0 3 m2)) 0 ps, sink_q = qpds (connect_sink 1 3 (connect_source 0 3 m2)) 1 pr,
        plat = p2, sent = [], received = [], acked = 0\<rparr>"
proof -
  note defs = mp_create_qport_def create_source_def create_sink_def mp_alloc_def Let_def upd_qpd_def upd_chan_def demo_io_def
    NOC_SPM_BASE_def WALIGN_def mp_send_alloc_size_def mp_recv_alloc_size_def demo_mem_def
  obtain ps m1 p1 where s: "mp_create_qport (demo_io Src) 3 SOURCE 7 2 (demo_mem, plat demo_queue) = (ps, m1, p1)"
    by (cases "mp_create_qport (demo_io Src) 3 SOURCE 7 2 (demo_mem, plat demo_queue)")
  obtain pr m2 p2 where r: "mp_create_qport (demo_io Snk) 3 SINK 7 2 (m1, p1) = (pr, m2, p2)"
    by (cases "mp_create_qport (demo_io Snk) 3 SINK 7 2 (m1, p1)")
  have ps: "ps \<noteq> 0" using s by (auto simp: defs)
  have pr: "pr \<noteq> 0" using s r by (auto simp: defs)
  have "queue_start demo_io demo_cid (\<lambda>p. p) ((unat (7 :: u32) + 3) div 4) (unat (2 :: u32)) (0 + 10) (0 + 10)
    \<lparr>src_q = qpds (connect_sink (get_cpuid (demo_io Snk)) (unat (3 :: u32)) (connect_source (get_cpuid (demo_io Src)) (unat (3 :: u32)) m2))
       (get_cpuid (demo_io Src)) ps,
     sink_q = qpds (connect_sink (get_cpuid (demo_io Snk)) (unat (3 :: u32)) (connect_source (get_cpuid (demo_io Src)) (unat (3 :: u32)) m2))
       (get_cpuid (demo_io Snk)) pr, plat = p2, sent = [], received = [], acked = 0\<rparr>"
    by (rule queue_created [where free = "\<lambda>_. 0" and base = "0x4000000", OF demo_platform _ _ _ _ s ps r pr refl _ refl])
      (simp_all add: demo_io_def NOC_SPM_BASE_def demo_queue_def demo_mem_def spm_addr_def layout_def blk_def)
  then show ?thesis using s ps r pr by (auto simp: demo_io_def)
qed

end
