(* ===== verification/Mp_Lock.thy ===== *)
theory Mp_Lock
  imports Mp_Queue
begin

text \<open>
  \<open>c/libmp/lock.c\<close>: the bakery lock of two cores. Each core keeps in its communication memory its own flag and ticket
  and a copy of those of the other core, which the other core updates through the network. The
  two cores run interleaved, one access at a time, and with the network: a transfer reads
  its source word and updates the copy when it arrives, and \<open>noc_dma_done\<close> holds when no transfer of the core is
  under way. The code that uses the lock has
  transfers of its own, \<open>X_words\<close> and \<open>X_newest\<close>.
\<close>

datatype xfer = X_entering | X_number | X_words nat | X_newest

text \<open>The points of \<open>acquire_lock\<close> and \<open>release_lock\<close> between two accesses.\<close>

datatype lock_pc = Idle | A_enter | A_enter_w | A_enter_d | A_num | A_num_set | A_num_w | A_num_d
  | A_leave | A_leave_w | A_wait_e | A_read_m | A_cmp | Held | R_num | R_w | R_d

record lock_sys =
  lk :: "core \<Rightarrow> LOCK_T"
  lpc :: "core \<Rightarrow> lock_pc"
  tick :: "core \<Rightarrow> u32"
  seen :: "core \<Rightarrow> u32"
  pend :: "core \<Rightarrow> xfer option"

abbreviation (input) at :: "core \<Rightarrow> lock_pc \<Rightarrow> 'a lock_sys_scheme \<Rightarrow> 'a lock_sys_scheme" where
  "at c pc s \<equiv> s\<lparr>lpc := (lpc s)(c := pc)\<rparr>"

abbreviation (input) upd_lk :: "core \<Rightarrow> (LOCK_T \<Rightarrow> LOCK_T) \<Rightarrow> 'a lock_sys_scheme \<Rightarrow> 'a lock_sys_scheme" where
  "upd_lk c f s \<equiv> s\<lparr>lk := (lk s)(c := f (lk s c))\<rparr>"

text \<open>\<open>noc_write\<close> waits until the entry is free and then starts the transfer.\<close>

definition lock_write :: "core \<Rightarrow> xfer \<Rightarrow> lock_pc \<Rightarrow> 'a lock_sys_scheme \<Rightarrow> 'a lock_sys_scheme" where
  "lock_write c x pc s = (if pend s c = None then at c pc (s\<lparr>pend := (pend s)(c := Some x)\<rparr>) else s)"

definition lock_done :: "core \<Rightarrow> lock_pc \<Rightarrow> 'a lock_sys_scheme \<Rightarrow> 'a lock_sys_scheme" where
  "lock_done c pc s = (if pend s c = None then at c pc s else s)"

text \<open>One access of core \<open>c\<close>; \<open>cpu\<close> are the core numbers.\<close>

fun lock_step :: "(core \<Rightarrow> u32) \<Rightarrow> core \<Rightarrow> lock_pc \<Rightarrow> 'a lock_sys_scheme \<Rightarrow> 'a lock_sys_scheme" where
  "lock_step cpu c Idle s = s"
| "lock_step cpu c A_enter s = at c A_enter_w (upd_lk c (\<lambda>l. l\<lparr>local_entering := 1\<rparr>) s)"
| "lock_step cpu c A_enter_w s = lock_write c X_entering A_enter_d s"
| "lock_step cpu c A_enter_d s = lock_done c A_num s"
| "lock_step cpu c A_num s = at c A_num_set (s\<lparr>tick := (tick s)(c := remote_number (lk s c) + 1)\<rparr>)"
| "lock_step cpu c A_num_set s = at c A_num_w (upd_lk c (\<lambda>l. l\<lparr>local_number := tick s c\<rparr>) s)"
| "lock_step cpu c A_num_w s = lock_write c X_number A_num_d s"
| "lock_step cpu c A_num_d s = lock_done c A_leave s"
| "lock_step cpu c A_leave s = at c A_leave_w (upd_lk c (\<lambda>l. l\<lparr>local_entering := 0\<rparr>) s)"
| "lock_step cpu c A_leave_w s = lock_write c X_entering A_wait_e s"
| "lock_step cpu c A_wait_e s = (if remote_entering (lk s c) = 1 then s else at c A_read_m s)"
| "lock_step cpu c A_read_m s = at c A_cmp (s\<lparr>seen := (seen s)(c := remote_number (lk s c))\<rparr>)"
| "lock_step cpu c A_cmp s =
     (let m = seen s c; n = tick s c; remote = cpu (other c) in
      if m \<noteq> 0 \<and> (m < n \<or> m = n \<and> remote < cpu c)
      then s\<lparr>seen := (seen s)(c := remote_number (lk s c))\<rparr> else at c Held s)"
| "lock_step cpu c Held s = s"
| "lock_step cpu c R_num s = at c R_w (upd_lk c (\<lambda>l. l\<lparr>local_number := 0\<rparr>) s)"
| "lock_step cpu c R_w s = lock_write c X_number R_d s"
| "lock_step cpu c R_d s = lock_done c Idle s"

definition acquire_lock :: "core \<Rightarrow> 'a lock_sys_scheme \<Rightarrow> 'a lock_sys_scheme" where
  "acquire_lock c s = (if lpc s c = Idle then at c A_enter s else s)"

definition release_lock :: "core \<Rightarrow> 'a lock_sys_scheme \<Rightarrow> 'a lock_sys_scheme" where
  "release_lock c s = (if lpc s c = Held then at c R_num s else s)"

text \<open>The arrival of a transfer of core \<open>c\<close> at the other core.\<close>

definition lock_deliver :: "core \<Rightarrow> 'a lock_sys_scheme \<Rightarrow> 'a lock_sys_scheme" where
  "lock_deliver c s =
     (case pend s c of
        Some X_entering \<Rightarrow> (upd_lk (other c) (\<lambda>l. l\<lparr>remote_entering := local_entering (lk s c)\<rparr>) s)\<lparr>pend := (pend s)(c := None)\<rparr>
      | Some X_number \<Rightarrow> (upd_lk (other c) (\<lambda>l. l\<lparr>remote_number := local_number (lk s c)\<rparr>) s)\<lparr>pend := (pend s)(c := None)\<rparr>
      | _ \<Rightarrow> s)"

definition lock_start :: "'a lock_sys_scheme \<Rightarrow> bool" where
  "lock_start s \<longleftrightarrow> (\<forall>c. remote_entering (lk s c) = 0 \<and> remote_number (lk s c) = 0 \<and> local_entering (lk s c) = 0
     \<and> local_number (lk s c) = 0 \<and> lpc s c = Idle \<and> pend s c = None)"

text \<open>No ticket is the largest number, so that the next ticket does not wrap around.\<close>

definition tickets_ok :: "'a lock_sys_scheme \<Rightarrow> bool" where
  "tickets_ok s \<longleftrightarrow> (\<forall>c. remote_number (lk s c) \<noteq> -1)"

inductive lock_reach :: "(core \<Rightarrow> u32) \<Rightarrow> bool \<Rightarrow> lock_sys \<Rightarrow> bool" for cpu bounded where
  start: "lock_start s \<Longrightarrow> lock_reach cpu bounded s"
| acquire: "lock_reach cpu bounded s \<Longrightarrow> lock_reach cpu bounded (acquire_lock c s)"
| release: "lock_reach cpu bounded s \<Longrightarrow> lock_reach cpu bounded (release_lock c s)"
| step: "lock_reach cpu bounded s \<Longrightarrow> bounded \<longrightarrow> tickets_ok s \<Longrightarrow> lock_reach cpu bounded (lock_step cpu c (lpc s c) s)"
| deliver: "lock_reach cpu bounded s \<Longrightarrow> lock_reach cpu bounded (lock_deliver c s)"

section \<open>Mutual exclusion\<close>

lemma other_simps [simp]: "other (other c) = c" "other c \<noteq> c" "c \<noteq> other c" "(d = other c) = (d \<noteq> c)" "(other c = d) = (d \<noteq> c)"
  by (cases c; cases d; simp)+

text \<open>What holds of a core by its own position: its flag, its ticket and their copies, and its transfer.\<close>

definition app_or_none :: "xfer option \<Rightarrow> bool" where
  "app_or_none p \<longleftrightarrow> p \<noteq> Some X_entering \<and> p \<noteq> Some X_number"

fun pc_inv :: "lock_pc \<Rightarrow> LOCK_T \<Rightarrow> LOCK_T \<Rightarrow> u32 \<Rightarrow> xfer option \<Rightarrow> bool" where
  "pc_inv Idle l r n p \<longleftrightarrow> app_or_none p"
| "pc_inv A_enter l r n p \<longleftrightarrow> app_or_none p"
| "pc_inv A_enter_w l r n p \<longleftrightarrow> app_or_none p \<and> local_entering l = 1"
| "pc_inv A_enter_d l r n p \<longleftrightarrow> local_entering l = 1 \<and> (p = Some X_entering \<or> p = None \<and> remote_entering r = 1)"
| "pc_inv A_num l r n p \<longleftrightarrow> local_entering l = 1 \<and> remote_entering r = 1 \<and> p = None"
| "pc_inv A_num_set l r n p \<longleftrightarrow> local_entering l = 1 \<and> remote_entering r = 1 \<and> p = None"
| "pc_inv A_num_w l r n p \<longleftrightarrow> local_entering l = 1 \<and> remote_entering r = 1 \<and> local_number l = n \<and> p = None"
| "pc_inv A_num_d l r n p \<longleftrightarrow> local_entering l = 1 \<and> remote_entering r = 1 \<and> local_number l = n
     \<and> (p = Some X_number \<or> p = None \<and> remote_number r = n)"
| "pc_inv A_leave l r n p \<longleftrightarrow> remote_entering r = 1 \<and> local_number l = n \<and> remote_number r = n \<and> p = None"
| "pc_inv A_leave_w l r n p \<longleftrightarrow> remote_entering r = 1 \<and> local_number l = n \<and> remote_number r = n \<and> p = None"
| "pc_inv A_wait_e l r n p \<longleftrightarrow> local_number l = n \<and> remote_number r = n \<and> p \<noteq> Some X_number"
| "pc_inv A_read_m l r n p \<longleftrightarrow> local_number l = n \<and> remote_number r = n \<and> p \<noteq> Some X_number"
| "pc_inv A_cmp l r n p \<longleftrightarrow> local_number l = n \<and> remote_number r = n \<and> p \<noteq> Some X_number"
| "pc_inv Held l r n p \<longleftrightarrow> local_number l = n \<and> remote_number r = n \<and> p \<noteq> Some X_number"
| "pc_inv R_num l r n p \<longleftrightarrow> p \<noteq> Some X_number"
| "pc_inv R_w l r n p \<longleftrightarrow> p \<noteq> Some X_number"
| "pc_inv R_d l r n p \<longleftrightarrow> p = None \<or> p = Some X_number"

definition own_inv :: "'a lock_sys_scheme \<Rightarrow> core \<Rightarrow> bool" where
  "own_inv s c \<longleftrightarrow> pc_inv (lpc s c) (lk s c) (lk s (other c)) (tick s c) (pend s c)"

definition waiting :: "lock_pc \<Rightarrow> bool" where
  "waiting pc \<longleftrightarrow> pc \<in> {A_wait_e, A_read_m, A_cmp, Held}"

definition numbered :: "lock_pc \<Rightarrow> bool" where
  "numbered pc \<longleftrightarrow> waiting pc \<or> pc \<in> {A_num_set, A_num_w, A_num_d, A_leave, A_leave_w}"

text \<open>What a core that has seen the other outside its doorway knows of the other's ticket.\<close>

definition pair_inv :: "(core \<Rightarrow> u32) \<Rightarrow> 'a lock_sys_scheme \<Rightarrow> core \<Rightarrow> bool" where
  "pair_inv cpu s c \<longleftrightarrow> (let d = other c in
     (numbered (lpc s c) \<longrightarrow> tick s c \<noteq> 0) \<and>
     (numbered (lpc s d) \<longrightarrow>
       (lpc s c = A_read_m \<longrightarrow> tick s c < tick s d \<or> waiting (lpc s d)) \<and>
       (lpc s c = A_cmp \<longrightarrow> tick s c < tick s d \<or> waiting (lpc s d) \<and> seen s c = tick s d) \<and>
       (lpc s c = Held \<longrightarrow> tick s c < tick s d \<or> tick s c = tick s d \<and> cpu c < cpu d)))"

definition lock_inv :: "(core \<Rightarrow> u32) \<Rightarrow> 'a lock_sys_scheme \<Rightarrow> bool" where
  "lock_inv cpu s \<longleftrightarrow> (\<forall>c. own_inv s c \<and> pair_inv cpu s c)"

lemma lock_start_inv: "lock_start s \<Longrightarrow> lock_inv cpu s"
  by (auto simp: lock_start_def lock_inv_def own_inv_def pair_inv_def app_or_none_def numbered_def waiting_def Let_def)

lemma core_cases: "d = c \<or> d = other c"
  by (cases c; cases d) auto

lemma lock_invI: "own_inv s c \<Longrightarrow> own_inv s (other c) \<Longrightarrow> pair_inv cpu s c \<Longrightarrow> pair_inv cpu s (other c) \<Longrightarrow> lock_inv cpu s"
  unfolding lock_inv_def using core_cases by metis

lemma plus_1_gt: "(n :: u32) \<noteq> -1 \<Longrightarrow> n < n + 1" "(n :: u32) \<noteq> -1 \<Longrightarrow> n + 1 \<noteq> 0"
proof -
  assume "n \<noteq> -1"
  then have "unat n + 1 < 2 ^ 32" using unat_u32_lt [of n] by (simp add: word_unat_eq_iff)
  then have "unat (n + 1) = unat n + 1" by (simp add: unat_word_ariths)
  then show "n < n + 1" "n + 1 \<noteq> 0" by (simp_all add: word_less_nat_alt word_unat_eq_iff)
qed

lemma lock_step_own: "own_inv s c \<Longrightarrow> own_inv (lock_step cpu c (lpc s c) s) c"
  by (cases "lpc s c") (auto simp: own_inv_def lock_write_def lock_done_def app_or_none_def Let_def)

lemma pc_inv_cong:
  "remote_entering r = remote_entering r' \<Longrightarrow> remote_number r = remote_number r' \<Longrightarrow> pc_inv pc l r n p = pc_inv pc l r' n p"
  by (cases pc) simp_all

lemma lock_step_frame:
  "lk (lock_step cpu c pc s) (other c) = lk s (other c)" "lpc (lock_step cpu c pc s) (other c) = lpc s (other c)"
  "tick (lock_step cpu c pc s) (other c) = tick s (other c)" "pend (lock_step cpu c pc s) (other c) = pend s (other c)"
  "seen (lock_step cpu c pc s) (other c) = seen s (other c)"
  "remote_entering (lk (lock_step cpu c pc s) c) = remote_entering (lk s c)"
  "remote_number (lk (lock_step cpu c pc s) c) = remote_number (lk s c)"
  by (cases pc; simp add: lock_write_def lock_done_def Let_def)+

lemma lock_step_other: "own_inv s (other c) \<Longrightarrow> own_inv (lock_step cpu c pc s) (other c)"
  unfolding own_inv_def lock_step_frame other_simps
  by (subst pc_inv_cong [of _ "lk s c"]) (simp_all add: lock_step_frame)

text \<open>A core with a ticket is in its doorway, and the other sees its flag, or it waits, and the other sees its ticket.\<close>

lemma doorway: "own_inv s d \<Longrightarrow> numbered (lpc s d) \<Longrightarrow> remote_entering (lk s (other d)) \<noteq> 1 \<Longrightarrow> waiting (lpc s d)"
  by (cases "lpc s d") (simp_all add: own_inv_def numbered_def waiting_def)

lemma waiting_ticket: "own_inv s d \<Longrightarrow> waiting (lpc s d) \<Longrightarrow> remote_number (lk s (other d)) = tick s d"
  by (cases "lpc s d") (simp_all add: own_inv_def waiting_def)

lemma waiting_numbered: "waiting pc \<Longrightarrow> numbered pc"
  by (simp add: numbered_def)

lemma lock_step_pair_own:
  assumes "own_inv s c" "own_inv s (other c)" "pair_inv cpu s c" "pair_inv cpu s (other c)" "tickets_ok s" "cpu (other c) \<noteq> cpu c"
  shows "pair_inv cpu (lock_step cpu c (lpc s c) s) c"
proof -
  define d where "d = other c"
  have d: "d \<noteq> c" "other d = c" "other c = d" "c \<noteq> d" by (simp_all add: d_def)
  note dw = doorway [OF assms(2)] waiting_ticket [OF assms(2)]
  have num: "numbered (lpc s d) \<Longrightarrow> tick s d \<noteq> 0" using assms(4) by (simp add: pair_inv_def Let_def d_def)
  have pcs: "numbered A_read_m" "numbered A_cmp" "numbered Held" "numbered A_wait_e" by (simp_all add: numbered_def waiting_def)
  show ?thesis
  proof (cases "lpc s c")
    case A_wait_e
    then show ?thesis using assms(3) dw(1) by (auto simp: pair_inv_def Let_def pcs)
  next
    case A_read_m
    then show ?thesis using assms(3) dw(2) by (auto simp: pair_inv_def Let_def pcs)
  next
    case A_cmp
    have K: "numbered (lpc s d) \<Longrightarrow> tick s c < tick s d \<or> waiting (lpc s d) \<and> seen s c = tick s d"
      using assms(3) A_cmp by (simp add: pair_inv_def Let_def d_def)
    have t: "waiting (lpc s d) \<Longrightarrow> remote_number (lk s c) = tick s d" using dw(2) by (simp add: d_def)
    have pos: "tick s c \<noteq> 0" using assms(3) A_cmp pcs by (simp add: pair_inv_def Let_def)
    show ?thesis
    proof (cases "seen s c \<noteq> 0 \<and> (seen s c < tick s c \<or> seen s c = tick s c \<and> cpu d < cpu c)")
      case True
      then have "lock_step cpu c (lpc s c) s = s\<lparr>seen := (seen s)(c := remote_number (lk s c))\<rparr>" using A_cmp by (simp add: d_def)
      then show ?thesis using A_cmp K t pos by (auto simp: pair_inv_def Let_def d)
    next
      case False
      then have "lock_step cpu c (lpc s c) s = at c Held s" using A_cmp by (auto simp: d_def Let_def)
      moreover have "tick s c < tick s d \<or> tick s c = tick s d \<and> cpu c < cpu d" if "numbered (lpc s d)"
        using K [OF that] num [OF that] False assms(6) by (auto simp: d)
      ultimately show ?thesis using pos by (simp add: pair_inv_def Let_def d)
    qed
  qed (use assms(3,5) plus_1_gt(2) [of "remote_number (lk s c)"] in
     \<open>auto simp: pair_inv_def lock_write_def lock_done_def Let_def numbered_def waiting_def tickets_ok_def\<close>)
qed

lemma lock_step_ticket:
  assumes "lpc s c \<noteq> A_num" "s' = lock_step cpu c (lpc s c) s"
  shows "tick s' c = tick s c" "numbered (lpc s' c) \<Longrightarrow> numbered (lpc s c) \<and> (waiting (lpc s c) \<longrightarrow> waiting (lpc s' c))"
  unfolding assms(2) using assms(1)
  by (cases "lpc s c"; simp add: lock_write_def lock_done_def Let_def numbered_def waiting_def split: if_splits)+

lemma lock_step_pair_other:
  assumes "own_inv s (other c)" "pair_inv cpu s (other c)" "tickets_ok s"
  shows "pair_inv cpu (lock_step cpu c (lpc s c) s) (other c)"
proof (cases "lpc s c = A_num")
  case True
  have "lpc s (other c) \<in> {A_read_m, A_cmp, Held} \<Longrightarrow> remote_number (lk s c) = tick s (other c)"
    using assms(1) by (auto simp: own_inv_def)
  then show ?thesis using True assms plus_1_gt(1) [of "remote_number (lk s c)"]
    by (auto simp: pair_inv_def Let_def tickets_ok_def)
next
  case False
  show ?thesis
    using assms(2) lock_step_ticket [OF False refl, of cpu]
    unfolding pair_inv_def Let_def lock_step_frame other_simps by auto
qed

lemma lock_step_inv:
  assumes "lock_inv cpu s" "tickets_ok s" "cpu (other c) \<noteq> cpu c"
  shows "lock_inv cpu (lock_step cpu c (lpc s c) s)"
proof (rule lock_invI [of _ c])
  have I: "own_inv s c" "own_inv s (other c)" "pair_inv cpu s c" "pair_inv cpu s (other c)"
    using assms(1) by (simp_all add: lock_inv_def)
  show "own_inv (lock_step cpu c (lpc s c) s) c" by (rule lock_step_own [OF I(1)])
  show "own_inv (lock_step cpu c (lpc s c) s) (other c)" by (rule lock_step_other [OF I(2)])
  show "pair_inv cpu (lock_step cpu c (lpc s c) s) c" by (rule lock_step_pair_own [OF I assms(2,3)])
  show "pair_inv cpu (lock_step cpu c (lpc s c) s) (other c)" by (rule lock_step_pair_other [OF I(2,4) assms(2)])
qed

text \<open>Everything else leaves the tickets alone.\<close>

lemma pair_inv_frame:
  assumes "pair_inv cpu s c" "tick s' = tick s" "seen s' = seen s"
    and "\<And>d. numbered (lpc s' d) \<Longrightarrow> lpc s' d = lpc s d"
  shows "pair_inv cpu s' c"
proof -
  have *: "lpc s' c = lpc s c" if "lpc s' c \<in> {A_read_m, A_cmp, Held}"
    using assms(4) that by (auto simp: numbered_def waiting_def)
  have o: "numbered (lpc s' (other c)) \<Longrightarrow> lpc s' (other c) = lpc s (other c)" "numbered (lpc s' c) \<Longrightarrow> lpc s' c = lpc s c"
    using assms(4) by blast+
  show ?thesis
  proof (cases "numbered (lpc s' (other c))")
    case True
    show ?thesis
      using assms(1) True * o unfolding pair_inv_def Let_def assms(2,3) by (cases "lpc s' c") auto
  next
    case False
    then show ?thesis using assms(1) o unfolding pair_inv_def Let_def assms(2,3) by auto
  qed
qed

lemma lock_move_inv:
  assumes I: "lock_inv cpu s" and pc: "\<not> numbered pc" and own: "own_inv (at c pc s) c"
  shows "lock_inv cpu (at c pc s)"
proof (rule lock_invI [of _ c])
  have I': "pair_inv cpu s d" "own_inv s d" for d using I by (simp_all add: lock_inv_def)
  have frame: "numbered (lpc (at c pc s) d) \<Longrightarrow> lpc (at c pc s) d = lpc s d" for d
    using pc by (cases "d = c") auto
  show "pair_inv cpu (at c pc s) c" "pair_inv cpu (at c pc s) (other c)"
    by (rule pair_inv_frame [OF I'(1) _ _ frame]; simp)+
  show "own_inv (at c pc s) (other c)" using I'(2) [of "other c"] by (simp add: own_inv_def)
qed (rule own)

lemma acquire_lock_inv: "lock_inv cpu s \<Longrightarrow> lock_inv cpu (acquire_lock c s)"
proof (cases "lpc s c = Idle")
  case True
  assume I: "lock_inv cpu s"
  then have "own_inv s c" by (simp add: lock_inv_def)
  then have "own_inv (at c A_enter s) c" using True by (simp add: own_inv_def)
  then show ?thesis using True lock_move_inv [OF I, of A_enter c] by (simp add: acquire_lock_def numbered_def waiting_def)
qed (simp add: acquire_lock_def)

lemma release_lock_inv: "lock_inv cpu s \<Longrightarrow> lock_inv cpu (release_lock c s)"
proof (cases "lpc s c = Held")
  case True
  assume I: "lock_inv cpu s"
  then have "own_inv s c" by (simp add: lock_inv_def)
  then have "own_inv (at c R_num s) c" using True by (simp add: own_inv_def)
  then show ?thesis using True lock_move_inv [OF I, of R_num c] by (simp add: release_lock_def numbered_def waiting_def)
qed (simp add: release_lock_def)

lemma lock_deliver_inv: "lock_inv cpu s \<Longrightarrow> lock_inv cpu (lock_deliver c s)"
proof (rule lock_invI [of _ c])
  assume I: "lock_inv cpu s"
  have I': "pair_inv cpu s d" "own_inv s d" for d using I by (simp_all add: lock_inv_def)
  have same: "lpc (lock_deliver c s) = lpc s" "tick (lock_deliver c s) = tick s" "seen (lock_deliver c s) = seen s"
    by (auto simp: lock_deliver_def split: option.splits xfer.splits)
  show "pair_inv cpu (lock_deliver c s) c" "pair_inv cpu (lock_deliver c s) (other c)"
    by (rule pair_inv_frame [OF I'(1)]; simp add: same)+
  show "own_inv (lock_deliver c s) c"
    using I'(2) [of c] unfolding own_inv_def lock_deliver_def
    by (cases "lpc s c"; cases "pend s c") (auto simp: app_or_none_def split: xfer.splits)
  have upd: "pc_inv pc (l\<lparr>remote_entering := x\<rparr>) r n p = pc_inv pc l r n p" "pc_inv pc (l\<lparr>remote_number := x\<rparr>) r n p = pc_inv pc l r n p"
    for pc l x r n p by (cases pc; simp)+
  show "own_inv (lock_deliver c s) (other c)"
    using I'(2) [of "other c"] unfolding own_inv_def lock_deliver_def
    by (simp add: upd split: option.splits xfer.splits)
qed

lemma lock_reach_inv: "lock_reach cpu True s \<Longrightarrow> cpu Src \<noteq> cpu Snk \<Longrightarrow> lock_inv cpu s"
proof (induction rule: lock_reach.induct)
  case (step s c)
  then show ?case by (intro lock_step_inv) (cases c; auto)+
qed (auto intro: lock_start_inv acquire_lock_inv release_lock_inv lock_deliver_inv)

lemma held_exclusive:
  assumes "lock_inv cpu s"
  shows "\<not> (lpc s Src = Held \<and> lpc s Snk = Held)"
proof -
  have "pair_inv cpu s Src" "pair_inv cpu s Snk"
    using assms by (simp_all add: lock_inv_def)
  moreover have "numbered Held" by (simp add: numbered_def waiting_def)
  ultimately have "tick s Src < tick s Snk \<or> tick s Src = tick s Snk \<and> cpu Src < cpu Snk"
    "tick s Snk < tick s Src \<or> tick s Snk = tick s Src \<and> cpu Snk < cpu Src"
    if "lpc s Src = Held" "lpc s Snk = Held"
    using that by (simp_all add: pair_inv_def)
  then show ?thesis by (metis less_not_sym less_imp_neq)
qed

text \<open>
  C1. Mutual exclusion of the lock: as long as no ticket is the largest number, the two
  cores never hold the lock at the same time, for every interleaving of their accesses and of the arrivals of
  their transfers.
\<close>

theorem lock_mutual_exclusion:
  assumes "lock_reach cpu True s" "cpu Src \<noteq> cpu Snk"
  shows "\<not> (lpc s Src = Held \<and> lpc s Snk = Held)"
  by (rule held_exclusive [OF lock_reach_inv [OF assms]])

text \<open>Runs given by the sequence of their actions.\<close>

datatype lock_act = Acq core | Rel core | Stp core | Dlv core

fun lock_do :: "(core \<Rightarrow> u32) \<Rightarrow> lock_act \<Rightarrow> lock_sys \<Rightarrow> lock_sys" where
  "lock_do cpu (Acq c) s = acquire_lock c s"
| "lock_do cpu (Rel c) s = release_lock c s"
| "lock_do cpu (Stp c) s = lock_step cpu c (lpc s c) s"
| "lock_do cpu (Dlv c) s = lock_deliver c s"

lemma lock_do_reach: "lock_reach cpu False s \<Longrightarrow> lock_reach cpu False (fold (lock_do cpu) xs s)"
proof (induction xs arbitrary: s)
  case (Cons x xs)
  then have "lock_reach cpu False (lock_do cpu x s)" by (cases x) (auto intro: lock_reach.intros)
  then show ?case using Cons.IH by simp
qed simp

definition acquire_run :: "core \<Rightarrow> lock_act list" where
  "acquire_run c = [Acq c, Stp c, Stp c, Dlv c, Stp c, Stp c, Stp c, Stp c, Dlv c, Stp c, Stp c, Stp c, Dlv c, Stp c, Stp c]"

definition release_run :: "core \<Rightarrow> lock_act list" where
  "release_run c = [Rel c, Stp c, Stp c, Dlv c, Stp c]"

text \<open>Core \<open>c\<close> holds the lock with ticket \<open>t\<close>, the other waits with the next ticket.\<close>

definition contended :: "core \<Rightarrow> u32 \<Rightarrow> lock_sys \<Rightarrow> bool" where
  "contended c t s \<longleftrightarrow> (let d = other c in
     lpc s c = Held \<and> lpc s d = A_cmp \<and> tick s d = t + 1 \<and> seen s d = t \<and> pend s c = None \<and> pend s d = None \<and>
     remote_entering (lk s c) = 0 \<and> remote_number (lk s c) = t + 1 \<and>
     remote_entering (lk s d) = 0 \<and> remote_number (lk s d) = t \<and> local_entering (lk s c) = 0 \<and> local_entering (lk s d) = 0
     \<and> local_number (lk s d) = t + 1)"

lemma contended_start:
  assumes "lock_start s"
  shows "contended Src 1 (fold (lock_do cpu) (acquire_run Src @ [Stp Src] @ acquire_run Snk) s)"
  using assms by (simp add: lock_start_def acquire_run_def acquire_lock_def lock_write_def lock_done_def lock_deliver_def
      contended_def Let_def)

lemma contended_turn:
  assumes "contended c t s" "t \<noteq> 0" "t \<noteq> -1"
  shows "contended (other c) (t + 1) (fold (lock_do cpu) (release_run c @ [Stp (other c), Stp (other c)] @ acquire_run c) s)"
  using assms plus_1_gt(1) [of t]
  by (cases c) (simp_all add: release_run_def acquire_run_def acquire_lock_def release_lock_def lock_write_def lock_done_def lock_deliver_def
      contended_def Let_def)

text \<open>Both cores idle and no ticket taken.\<close>

definition free_lock :: lock_sys where
  "free_lock = \<lparr>lk = (\<lambda>_. \<lparr>remote_entering = 0, remote_number = 0, local_entering = 0, local_number = 0, remote_ptr = 0, remote_cpuid = 0\<rparr>),
     lpc = (\<lambda>_. Idle), tick = (\<lambda>_. 0), seen = (\<lambda>_. 0), pend = (\<lambda>_. None)\<rparr>"

lemma free_lock_start: "lock_start free_lock"
  by (simp add: lock_start_def free_lock_def)

lemma contended_reach:
  assumes "1 \<le> k" "k \<le> 2 ^ 32 - 2"
  shows "\<exists>c s. lock_reach cpu False s \<and> contended c (of_nat k) s"
  using assms
proof (induction k rule: nat_induct_at_least)
  case base
  have "contended Src (of_nat 1) (fold (lock_do cpu) (acquire_run Src @ [Stp Src] @ acquire_run Snk) free_lock)"
    using contended_start [OF free_lock_start] by simp
  moreover have "lock_reach cpu False (fold (lock_do cpu) (acquire_run Src @ [Stp Src] @ acquire_run Snk) free_lock)"
    by (rule lock_do_reach [OF lock_reach.start [OF free_lock_start]])
  ultimately show ?case by blast
next
  case (Suc k)
  then obtain c s where s: "lock_reach cpu False s" "contended c (of_nat k) s" by auto
  have u: "unat (of_nat k :: u32) = k" using Suc.prems by (intro of_nat_u32) simp
  have "(of_nat k :: u32) \<noteq> 0" "(of_nat k :: u32) \<noteq> -1" using Suc u by (auto simp: word_unat_eq_iff)
  from contended_turn [OF s(2) this] lock_do_reach [OF s(1)] show ?case by (metis of_nat_Suc add.commute)
qed

text \<open>
  C32. Without the bound on the tickets the exclusion fails. Every turn of two contending cores takes the next ticket, and
  the ticket after the largest number is 0: after \<open>2 ^ 32 - 1\<close> turns a core takes ticket 0, which
  the other core reads as not waiting, and both hold the lock.
\<close>

theorem lock_ticket_overflow:
  "\<exists>s. lock_reach cpu False s \<and> lpc s Src = Held \<and> lpc s Snk = Held"
proof -
  obtain c s where s: "lock_reach cpu False s" "contended c (of_nat (2 ^ 32 - 2)) s"
    using contended_reach [of "2 ^ 32 - 2" cpu] by auto
  have "(of_nat (2 ^ 32 - 2) :: u32) = -2" by simp
  then have c: "contended c (-2) s" using s(2) by metis
  let ?s = "fold (lock_do cpu) (release_run c @ [Stp (other c), Stp (other c)] @ acquire_run c @ [Stp c]) s"
  have lt: "(-2 :: u32) < -1" "\<not> (-1 :: u32) < 0" by (simp_all add: word_less_nat_alt)
  have "lpc ?s Src = Held \<and> lpc ?s Snk = Held"
    using c lt by (cases c) (simp_all add: release_run_def acquire_run_def acquire_lock_def release_lock_def lock_write_def
        lock_done_def lock_deliver_def contended_def Let_def)
  then show ?thesis using lock_do_reach [OF s(1)] by metis
qed

text \<open>A run within the bound.\<close>

fun bounded_run :: "(core \<Rightarrow> u32) \<Rightarrow> lock_act list \<Rightarrow> lock_sys \<Rightarrow> bool" where
  "bounded_run cpu [] s \<longleftrightarrow> True"
| "bounded_run cpu (x # xs) s \<longleftrightarrow> tickets_ok s \<and> bounded_run cpu xs (lock_do cpu x s)"

lemma bounded_run_reach: "lock_reach cpu True s \<Longrightarrow> bounded_run cpu xs s \<Longrightarrow> lock_reach cpu True (fold (lock_do cpu) xs s)"
proof (induction xs arbitrary: s)
  case (Cons x xs)
  then have "lock_reach cpu True (lock_do cpu x s)" by (cases x) (auto intro: lock_reach.intros)
  then show ?case using Cons by simp
qed simp

definition two_cpus :: "core \<Rightarrow> u32" where
  "two_cpus c = (if c = Src then 0 else 1)"

theorem lock_mutual_exclusion_witness:
  "let s = fold (lock_do two_cpus) (acquire_run Src @ [Stp Src] @ acquire_run Snk) free_lock
   in lpc s Src = Held \<and> lpc s Snk \<noteq> Held"
proof -
  let ?xs = "acquire_run Src @ [Stp Src] @ acquire_run Snk"
  have r: "lock_reach two_cpus True free_lock" by (rule lock_reach.start [OF free_lock_start])
  have all: "(\<forall>c. P c) \<longleftrightarrow> P Src \<and> P Snk" for P by (metis core.exhaust)
  have "bounded_run two_cpus ?xs free_lock"
    by (simp add: acquire_run_def acquire_lock_def lock_write_def lock_done_def lock_deliver_def free_lock_def tickets_ok_def all Let_def)
  from lock_mutual_exclusion [OF bounded_run_reach [OF r this]]
  have "\<not> (lpc (fold (lock_do two_cpus) ?xs free_lock) Src = Held \<and> lpc (fold (lock_do two_cpus) ?xs free_lock) Snk = Held)"
    by (simp add: two_cpus_def del: fold_append)
  moreover have "lpc (fold (lock_do two_cpus) ?xs free_lock) Src = Held"
    by (simp add: acquire_run_def acquire_lock_def lock_write_def lock_done_def lock_deliver_def free_lock_def Let_def)
  ultimately show ?thesis unfolding Let_def by blast
qed

end
