(* ===== verification/Mp_Sampling.thy ===== *)
theory Mp_Sampling
  imports Mp_Lock
begin

text \<open>
  \<open>c/libmp/sampling.c\<close>, the default implementation \<open>DOUBLE_NOC\<close>: a writer (\<open>Src\<close>) and a reader (\<open>Snk\<close>) share two buffers in the
  memory of the reader. The writer fills the buffer it owns, and then, holding the lock, tells the
  reader which buffer is the newest; the reader copies the newest buffer while it holds the lock.
  The state extends that of the lock, whose steps are those of \<open>Mp_Lock\<close>.
\<close>

datatype writer_pc = W_idle | W_send | W_send_d | W_call | W_acq | W_new | W_new_d | W_free | W_rel | W_flip
datatype reader_pc = S_idle | S_call | S_acq | S_newest | S_copy | S_free | S_rel

text \<open>
  \<open>sbuf b i\<close> is word \<open>i\<close> of read buffer \<open>b\<close>, which is 0 or 1; \<open>sample\<close> is the memory the writer sends from. \<open>published\<close> are
  the samples that have become the newest one.
\<close>

record sample_sys = lock_sys +
  wpc :: writer_pc
  rpc :: reader_pc
  snext :: u32
  snewest :: u32
  sbuf :: "u32 \<Rightarrow> nat \<Rightarrow> u32"
  sample :: "nat \<Rightarrow> u32"
  rnewest :: u32
  copied :: "u32 list"
  published :: "u32 list list"

definition start_xfer :: "xfer \<Rightarrow> writer_pc \<Rightarrow> sample_sys \<Rightarrow> sample_sys" where
  "start_xfer x pc s = (if pend s Src = None then s\<lparr>pend := (pend s)(Src := Some x), wpc := pc\<rparr> else s)"

definition wait_xfer :: "writer_pc \<Rightarrow> sample_sys \<Rightarrow> sample_sys" where
  "wait_xfer pc s = (if pend s Src = None then s\<lparr>wpc := pc\<rparr> else s)"

text \<open>One step of \<open>mp_write\<close>, for samples of \<open>W\<close> words.\<close>

fun mp_write_step :: "(core \<Rightarrow> u32) \<Rightarrow> nat \<Rightarrow> writer_pc \<Rightarrow> sample_sys \<Rightarrow> sample_sys" where
  "mp_write_step cpu W W_idle s = s"
| "mp_write_step cpu W W_send s = start_xfer (X_words W) W_send_d s"
| "mp_write_step cpu W W_send_d s = wait_xfer W_call s"
| "mp_write_step cpu W W_call s = (acquire_lock Src s)\<lparr>wpc := W_acq\<rparr>"
| "mp_write_step cpu W W_acq s = (if lpc s Src = Held then s\<lparr>wpc := W_new\<rparr> else lock_step cpu Src (lpc s Src) s)"
| "mp_write_step cpu W W_new s = start_xfer X_newest W_new_d s"
| "mp_write_step cpu W W_new_d s = wait_xfer W_free s"
| "mp_write_step cpu W W_free s = (release_lock Src s)\<lparr>wpc := W_rel\<rparr>"
| "mp_write_step cpu W W_rel s = (if lpc s Src = Idle then s\<lparr>wpc := W_flip\<rparr> else lock_step cpu Src (lpc s Src) s)"
| "mp_write_step cpu W W_flip s = s\<lparr>snext := snext s XOR 1, wpc := W_idle\<rparr>"

text \<open>
  One iteration of the loop of \<open>mem_copy\<close>; the sample size is a multiple of a word. Before the first sample \<open>newest\<close> is
  -1, and the address is in front of the two buffers. There the local memory holds other objects, among them the
  reader's own lock, which changes meanwhile: the word read there is the argument \<open>out\<close>, which is arbitrary.
\<close>

definition mem_copy_step :: "nat \<Rightarrow> u32 \<Rightarrow> sample_sys \<Rightarrow> sample_sys" where
  "mem_copy_step W out s =
     (if length (copied s) < W
      then s\<lparr>copied := copied s @ [if rnewest s = 0 \<or> rnewest s = 1 then sbuf s (rnewest s) (length (copied s)) else out]\<rparr>
      else s\<lparr>rpc := S_free\<rparr>)"

text \<open>One step of \<open>mp_read\<close>.\<close>

fun mp_read_step :: "(core \<Rightarrow> u32) \<Rightarrow> nat \<Rightarrow> u32 \<Rightarrow> reader_pc \<Rightarrow> sample_sys \<Rightarrow> sample_sys" where
  "mp_read_step cpu W out S_idle s = s"
| "mp_read_step cpu W out S_call s = (acquire_lock Snk s)\<lparr>rpc := S_acq\<rparr>"
| "mp_read_step cpu W out S_acq s = (if lpc s Snk = Held then s\<lparr>rpc := S_newest\<rparr> else lock_step cpu Snk (lpc s Snk) s)"
| "mp_read_step cpu W out S_newest s = s\<lparr>rnewest := snewest s, copied := [], rpc := S_copy\<rparr>"
| "mp_read_step cpu W out S_copy s = mem_copy_step W out s"
| "mp_read_step cpu W out S_free s = (release_lock Snk s)\<lparr>rpc := S_rel\<rparr>"
| "mp_read_step cpu W out S_rel s = (if lpc s Snk = Idle then s\<lparr>rpc := S_idle\<rparr> else lock_step cpu Snk (lpc s Snk) s)"

text \<open>
  The arrival of the next word of a transfer. With \<open>m + 1\<close> of \<open>W\<close> words missing, the next word of a sample
  is number \<open>W - (m + 1)\<close>; the update of \<open>newest\<close> copies the writer's \<open>next\<close>.
\<close>

definition sample_deliver :: "nat \<Rightarrow> core \<Rightarrow> sample_sys \<Rightarrow> sample_sys" where
  "sample_deliver W c s =
     (case pend s c of
        Some (X_words (Suc m)) \<Rightarrow>
          s\<lparr>sbuf := (sbuf s)(snext s := (sbuf s (snext s))(W - Suc m := sample s (W - Suc m))),
            pend := (pend s)(c := (if m = 0 then None else Some (X_words m)))\<rparr>
      | Some (X_words 0) \<Rightarrow> s\<lparr>pend := (pend s)(c := None)\<rparr>
      | Some X_newest \<Rightarrow>
          s\<lparr>snewest := snext s, published := published s @ [map (sample s) [0..<W]], pend := (pend s)(c := None)\<rparr>
      | _ \<Rightarrow> lock_deliver c s)"

text \<open>
  All interleavings of the writer, the reader and the network. With the bound (\<open>b\<close>), a core makes a step only
  while no ticket is the largest number, as for the lock.
\<close>

inductive sample_reach :: "(core \<Rightarrow> u32) \<Rightarrow> nat \<Rightarrow> bool \<Rightarrow> sample_sys \<Rightarrow> bool" for cpu W b where
  start: "lock_start s \<Longrightarrow> wpc s = W_idle \<Longrightarrow> rpc s = S_idle \<Longrightarrow> snext s = 0 \<Longrightarrow> snewest s = -1 \<Longrightarrow> published s = []
    \<Longrightarrow> sample_reach cpu W b s"
| w_call: "sample_reach cpu W b s \<Longrightarrow> wpc s = W_idle \<Longrightarrow> sample_reach cpu W b (s\<lparr>sample := v, wpc := W_send\<rparr>)"
| r_call: "sample_reach cpu W b s \<Longrightarrow> rpc s = S_idle \<Longrightarrow> sample_reach cpu W b (s\<lparr>rpc := S_call\<rparr>)"
| w_step: "sample_reach cpu W b s \<Longrightarrow> (b \<Longrightarrow> tickets_ok s) \<Longrightarrow> sample_reach cpu W b (mp_write_step cpu W (wpc s) s)"
| r_step: "sample_reach cpu W b s \<Longrightarrow> (b \<Longrightarrow> tickets_ok s) \<Longrightarrow> sample_reach cpu W b (mp_read_step cpu W out (rpc s) s)"
| deliver: "sample_reach cpu W b s \<Longrightarrow> sample_reach cpu W b (sample_deliver W c s)"

section \<open>The lock under the port\<close>

lemma lock_inv_pend:
  assumes I: "lock_inv cpu s" and eq: "lk s' = lk s" "lpc s' = lpc s" "tick s' = tick s" "seen s' = seen s"
    and p: "\<And>d. pend s' d = pend s d \<or> lpc s d \<in> {Idle, Held} \<and> app_or_none (pend s' d)"
  shows "lock_inv cpu s'"
proof -
  have "own_inv s' d" for d
  proof (cases "pend s' d = pend s d")
    case True
    then show ?thesis using I eq by (simp add: lock_inv_def own_inv_def)
  next
    case False
    then have pd: "lpc s d \<in> {Idle, Held}" "app_or_none (pend s' d)" using p by blast+
    have "own_inv s d" using I by (simp add: lock_inv_def)
    then show ?thesis using pd eq by (auto simp: own_inv_def app_or_none_def)
  qed
  moreover have "pair_inv cpu s' d" for d using I eq by (simp add: lock_inv_def pair_inv_def)
  ultimately show ?thesis by (simp add: lock_inv_def)
qed

definition acquiring :: "lock_pc \<Rightarrow> bool" where
  "acquiring pc \<longleftrightarrow> pc \<notin> {Idle, R_num, R_w, R_d}"

definition releasing :: "lock_pc \<Rightarrow> bool" where
  "releasing pc \<longleftrightarrow> pc \<in> {Idle, R_num, R_w, R_d}"

text \<open>Where a core is in the lock, by its position in \<open>mp_write\<close> or \<open>mp_read\<close>, and which transfer it may have.\<close>

fun w_at :: "writer_pc \<Rightarrow> lock_pc \<Rightarrow> bool" where
  "w_at W_acq l \<longleftrightarrow> acquiring l"
| "w_at W_new l \<longleftrightarrow> l = Held"
| "w_at W_new_d l \<longleftrightarrow> l = Held"
| "w_at W_free l \<longleftrightarrow> l = Held"
| "w_at W_rel l \<longleftrightarrow> releasing l"
| "w_at _ l \<longleftrightarrow> l = Idle"

fun w_pend :: "nat \<Rightarrow> writer_pc \<Rightarrow> xfer option \<Rightarrow> bool" where
  "w_pend W pc None \<longleftrightarrow> True"
| "w_pend W pc (Some (X_words m)) \<longleftrightarrow> pc = W_send_d \<and> 0 < m \<and> m \<le> W"
| "w_pend W pc (Some X_newest) \<longleftrightarrow> pc = W_new_d"
| "w_pend W pc (Some _) \<longleftrightarrow> pc \<noteq> W_send_d \<and> pc \<noteq> W_new_d"

fun r_at :: "reader_pc \<Rightarrow> lock_pc \<Rightarrow> bool" where
  "r_at S_idle l \<longleftrightarrow> l = Idle"
| "r_at S_call l \<longleftrightarrow> l = Idle"
| "r_at S_acq l \<longleftrightarrow> acquiring l"
| "r_at S_rel l \<longleftrightarrow> releasing l"
| "r_at _ l \<longleftrightarrow> l = Held"

definition r_pend :: "xfer option \<Rightarrow> bool" where
  "r_pend p \<longleftrightarrow> p \<in> {None, Some X_entering, Some X_number}"

definition lock_use :: "nat \<Rightarrow> sample_sys \<Rightarrow> bool" where
  "lock_use W s \<longleftrightarrow> w_at (wpc s) (lpc s Src) \<and> w_pend W (wpc s) (pend s Src) \<and> r_at (rpc s) (lpc s Snk) \<and> r_pend (pend s Snk)"

lemma lock_step_port:
  "wpc (lock_step cpu c pc s) = wpc s" "rpc (lock_step cpu c pc s) = rpc s" "snext (lock_step cpu c pc s) = snext s"
  "snewest (lock_step cpu c pc s) = snewest s" "sbuf (lock_step cpu c pc s) = sbuf s" "sample (lock_step cpu c pc s) = sample s"
  "rnewest (lock_step cpu c pc s) = rnewest s" "copied (lock_step cpu c pc s) = copied s" "published (lock_step cpu c pc s) = published s"
  by (cases pc; simp add: lock_write_def lock_done_def Let_def)+

lemma lock_step_acquiring: "acquiring (lpc s c) \<Longrightarrow> acquiring (lpc (lock_step cpu c (lpc s c) s) c)"
  by (cases "lpc s c") (auto simp: acquiring_def lock_write_def lock_done_def Let_def)

lemma lock_step_releasing: "releasing (lpc s c) \<Longrightarrow> releasing (lpc (lock_step cpu c (lpc s c) s) c)"
  by (cases "lpc s c") (auto simp: releasing_def lock_write_def lock_done_def)

lemma lock_step_pend: "pend (lock_step cpu c pc s) c \<in> {pend s c, Some X_entering, Some X_number}"
  by (cases pc) (auto simp: lock_write_def lock_done_def Let_def)

text \<open>
  The data of the port. A sample that is being written goes to the buffer that is not the newest one, and the newest
  buffer holds the last published sample; a reader that copies has the lock.
\<close>

definition fresh :: "writer_pc \<Rightarrow> xfer option \<Rightarrow> bool" where
  "fresh pc p \<longleftrightarrow> pc \<in> {W_free, W_rel, W_flip} \<or> pc = W_new_d \<and> p = None"

fun words_sent :: "nat \<Rightarrow> writer_pc \<Rightarrow> xfer option \<Rightarrow> nat" where
  "words_sent W W_idle p = 0"
| "words_sent W W_send p = 0"
| "words_sent W W_send_d (Some (X_words m)) = W - m"
| "words_sent W pc p = W"

definition data_inv :: "nat \<Rightarrow> sample_sys \<Rightarrow> bool" where
  "data_inv W s \<longleftrightarrow>
     (snext s = 0 \<or> snext s = 1) \<and>
     (\<forall>i < words_sent W (wpc s) (pend s Src). sbuf s (snext s) i = sample s i) \<and>
     (fresh (wpc s) (pend s Src) \<longrightarrow> published s \<noteq> []) \<and>
     (if published s = [] then snewest s = -1 else snewest s = (if fresh (wpc s) (pend s Src) then snext s else snext s XOR 1)) \<and>
     (published s \<noteq> [] \<longrightarrow> map (sbuf s (snewest s)) [0..<W] = last (published s))"

definition copy_inv :: "nat \<Rightarrow> sample_sys \<Rightarrow> bool" where
  "copy_inv W s \<longleftrightarrow>
     (rpc s = S_copy \<longrightarrow> rnewest s = snewest s \<and> (published s \<noteq> [] \<longrightarrow> copied s = take (length (copied s)) (last (published s)))) \<and>
     (rpc s = S_free \<longrightarrow> published s \<noteq> [] \<longrightarrow> copied s = last (published s))"

definition port_inv :: "(core \<Rightarrow> u32) \<Rightarrow> nat \<Rightarrow> sample_sys \<Rightarrow> bool" where
  "port_inv cpu W s \<longleftrightarrow> lock_inv cpu s \<and> lock_use W s \<and> data_inv W s \<and> copy_inv W s"

lemma xor_1: "(n :: u32) = 0 \<or> n = 1 \<Longrightarrow> n XOR 1 \<noteq> n \<and> (n XOR 1 = 0 \<or> n XOR 1 = 1) \<and> n XOR 1 XOR 1 = n"
  by auto

section \<open>Every step keeps the invariant\<close>

lemma start_inv:
  "lock_start s \<Longrightarrow> wpc s = W_idle \<Longrightarrow> rpc s = S_idle \<Longrightarrow> snext s = 0 \<Longrightarrow> snewest s = -1 \<Longrightarrow> published s = [] \<Longrightarrow> port_inv cpu W s"
  by (simp add: port_inv_def lock_start_inv)
    (simp add: lock_use_def data_inv_def copy_inv_def fresh_def r_pend_def lock_start_def)

lemma lock_frame:
  assumes "lock_inv cpu s" "lk s' = lk s" "lpc s' = lpc s" "tick s' = tick s" "seen s' = seen s" "pend s' = pend s"
  shows "lock_inv cpu s'"
  using lock_inv_pend [of cpu s s'] assms by auto

text \<open>The data depend on the position of the writer only through what it has sent and published.\<close>

lemma data_frame:
  assumes "data_inv W s" "snext s' = snext s" "sbuf s' = sbuf s" "snewest s' = snewest s" "published s' = published s"
    and "sample s' = sample s \<or> words_sent W (wpc s') (pend s' Src) = 0"
    and "words_sent W (wpc s') (pend s' Src) \<le> words_sent W (wpc s) (pend s Src)"
    and "fresh (wpc s') (pend s' Src) = fresh (wpc s) (pend s Src)"
  shows "data_inv W s'"
  using assms unfolding data_inv_def by auto

lemma copy_frame:
  assumes "copy_inv W s" "snewest s' = snewest s" "published s' = published s" "sbuf s' = sbuf s" "rnewest s' = rnewest s"
    "copied s' = copied s" "rpc s' = rpc s \<or> rpc s' \<noteq> S_copy \<and> rpc s' \<noteq> S_free"
  shows "copy_inv W s'"
  using assms unfolding copy_inv_def by auto

lemma w_call_inv: "port_inv cpu W s \<Longrightarrow> wpc s = W_idle \<Longrightarrow> port_inv cpu W (s\<lparr>sample := v, wpc := W_send\<rparr>)"
  unfolding port_inv_def
  by (intro conjI; (rule lock_frame data_frame copy_frame)?)
     (auto simp: lock_use_def fresh_def elim: w_pend.elims)

lemma r_call_inv: "port_inv cpu W s \<Longrightarrow> rpc s = S_idle \<Longrightarrow> port_inv cpu W (s\<lparr>rpc := S_call\<rparr>)"
  unfolding port_inv_def
  by (intro conjI; (rule lock_frame data_frame copy_frame)?) (auto simp: lock_use_def)

lemma w_pend_lock: "w_pend W pc p \<Longrightarrow> pc \<noteq> W_send_d \<Longrightarrow> pc \<noteq> W_new_d \<Longrightarrow> q \<in> {p, Some X_entering, Some X_number} \<Longrightarrow> w_pend W pc q"
  by auto

lemma lock_step_port_inv:
  assumes I: "port_inv cpu W s" and t: "tickets_ok s" "cpu (other c) \<noteq> cpu c"
    and pc: "c = Src \<and> (wpc s = W_acq \<or> wpc s = W_rel) \<or> c = Snk \<and> (rpc s = S_acq \<or> rpc s = S_rel)"
  shows "port_inv cpu W (lock_step cpu c (lpc s c) s)" (is "port_inv cpu W ?s")
proof -
  note p = lock_step_port [of cpu c "lpc s c" s]
  have "lock_inv cpu ?s" using lock_step_inv [of cpu s c] I t by (simp add: port_inv_def)
  moreover have "lock_use W ?s" "data_inv W ?s"
  proof (atomize (full), cases c)
    case Src
    have L: "w_at (wpc s) (lpc s Src)" "w_pend W (wpc s) (pend s Src)" "data_inv W s" "lock_use W s"
      using I by (simp_all add: port_inv_def lock_use_def)
    have w: "wpc s = W_acq \<or> wpc s = W_rel" using pc Src by simp
    have "w_at (wpc s) (lpc ?s Src)" using L(1) w lock_step_acquiring [of s c cpu] lock_step_releasing [of s c cpu] Src by auto
    moreover have "w_pend W (wpc s) (pend ?s Src)"
      by (rule w_pend_lock [OF L(2)]) (use w lock_step_pend [of cpu c "lpc s c" s] Src in auto)
    ultimately have "lock_use W ?s"
      using L(4) lock_step_frame [of cpu c "lpc s c" s] unfolding lock_use_def Src by (simp add: lock_step_port)
    moreover have "data_inv W ?s" by (rule data_frame [OF L(3)]) (use w in \<open>auto simp: p fresh_def\<close>)
    ultimately show "lock_use W ?s \<and> data_inv W ?s" by simp
  next
    case Snk
    have L: "r_at (rpc s) (lpc s Snk)" "r_pend (pend s Snk)" "data_inv W s" "lock_use W s"
      using I by (simp_all add: port_inv_def lock_use_def)
    have w: "rpc s = S_acq \<or> rpc s = S_rel" using pc Snk by simp
    have "r_at (rpc s) (lpc ?s Snk)" using L(1) w lock_step_acquiring [of s c cpu] lock_step_releasing [of s c cpu] Snk by auto
    moreover have "r_pend (pend ?s Snk)" using L(2) lock_step_pend [of cpu c "lpc s c" s] Snk by (auto simp: r_pend_def)
    ultimately have "lock_use W ?s"
      using L(4) lock_step_frame [of cpu c "lpc s c" s] unfolding lock_use_def Snk by (simp add: lock_step_port)
    moreover have "data_inv W ?s" by (rule data_frame [OF L(3)]) (use lock_step_frame(4) [of cpu c "lpc s c" s] Snk in \<open>simp_all add: lock_step_port\<close>)
    ultimately show "lock_use W ?s \<and> data_inv W ?s" by simp
  qed
  moreover have "copy_inv W ?s" by (rule copy_frame [of W s]) (use I in \<open>simp_all add: p port_inv_def\<close>)
  ultimately show ?thesis by (simp add: port_inv_def)
qed

text \<open>The steps of the writer outside the lock.\<close>

lemma start_xfer_inv:
  assumes I: "port_inv cpu W s" and x: "wpc s = W_send \<and> x = X_words W \<and> pc = W_send_d \<and> 0 < W \<or> wpc s = W_new \<and> x = X_newest \<and> pc = W_new_d"
  shows "port_inv cpu W (start_xfer x pc s)"
proof (cases "pend s Src = None")
  case True
  let ?s = "s\<lparr>pend := (pend s)(Src := Some x), wpc := pc\<rparr>"
  have "lock_inv cpu ?s"
    by (rule lock_inv_pend [of cpu s]) (use I x in \<open>auto simp: port_inv_def lock_use_def app_or_none_def\<close>)
  moreover have "lock_use W ?s" using I x by (auto simp: port_inv_def lock_use_def)
  moreover have "data_inv W ?s" by (rule data_frame [of W s]) (use I x in \<open>auto simp: port_inv_def fresh_def\<close>)
  moreover have "copy_inv W ?s" by (rule copy_frame [of W s]) (use I in \<open>auto simp: port_inv_def\<close>)
  ultimately show ?thesis using True by (simp add: start_xfer_def port_inv_def)
qed (use I in \<open>auto simp: start_xfer_def\<close>)

lemma w_move_inv:
  assumes I: "port_inv cpu W s" and u: "lock_use W (s\<lparr>wpc := pc\<rparr>)"
    and f: "fresh pc (pend s Src) = fresh (wpc s) (pend s Src)" "words_sent W pc (pend s Src) \<le> words_sent W (wpc s) (pend s Src)"
  shows "port_inv cpu W (s\<lparr>wpc := pc\<rparr>)"
proof -
  have "lock_inv cpu (s\<lparr>wpc := pc\<rparr>)" by (rule lock_frame [of cpu s]) (use I in \<open>auto simp: port_inv_def\<close>)
  moreover have "data_inv W (s\<lparr>wpc := pc\<rparr>)" by (rule data_frame [of W s]) (use I f in \<open>auto simp: port_inv_def\<close>)
  moreover have "copy_inv W (s\<lparr>wpc := pc\<rparr>)" by (rule copy_frame [of W s]) (use I in \<open>auto simp: port_inv_def\<close>)
  ultimately show ?thesis using u by (simp add: port_inv_def)
qed

lemma w_lock_call_inv:
  assumes I: "port_inv cpu W s" and x: "wpc s = W_call \<and> f = acquire_lock \<and> pc = W_acq \<or> wpc s = W_free \<and> f = release_lock \<and> pc = W_rel"
  shows "port_inv cpu W ((f Src s)\<lparr>wpc := pc\<rparr>)" (is "port_inv cpu W ?s")
proof -
  have "lock_inv cpu (f Src s)" using I x acquire_lock_inv [of cpu s Src] release_lock_inv [of cpu s Src] by (auto simp: port_inv_def)
  then have "lock_inv cpu ?s" by (rule lock_frame) simp_all
  moreover have "lock_use W ?s"
    using I x by (auto simp: port_inv_def lock_use_def acquire_lock_def release_lock_def acquiring_def releasing_def intro: w_pend_lock elim: w_pend.elims)
  moreover have "data_inv W ?s"
    by (rule data_frame [of W s]) (use I x in \<open>auto simp: port_inv_def fresh_def acquire_lock_def release_lock_def\<close>)
  moreover have "copy_inv W ?s" by (rule copy_frame [of W s]) (use I x in \<open>auto simp: port_inv_def acquire_lock_def release_lock_def split: if_splits\<close>)
  ultimately show ?thesis by (simp add: port_inv_def)
qed

lemma w_flip_inv:
  assumes I: "port_inv cpu W s" and x: "wpc s = W_flip"
  shows "port_inv cpu W (s\<lparr>snext := snext s XOR 1, wpc := W_idle\<rparr>)" (is "port_inv cpu W ?s")
proof -
  have "lock_inv cpu ?s" by (rule lock_frame [of cpu s]) (use I in \<open>auto simp: port_inv_def\<close>)
  moreover have "lock_use W ?s" using I x by (auto simp: port_inv_def lock_use_def elim: w_pend.elims)
  moreover have "data_inv W ?s" using I x xor_1 [of "snext s"] by (auto simp: port_inv_def data_inv_def fresh_def)
  moreover have "copy_inv W ?s" by (rule copy_frame [of W s]) (use I in \<open>auto simp: port_inv_def\<close>)
  ultimately show ?thesis by (simp add: port_inv_def)
qed

lemma mp_write_step_inv:
  assumes I: "port_inv cpu W s" and t: "tickets_ok s" "cpu Src \<noteq> cpu Snk" "0 < W"
  shows "port_inv cpu W (mp_write_step cpu W (wpc s) s)"
proof -
  have U: "w_at (wpc s) (lpc s Src)" "lock_use W s" using I by (simp_all add: port_inv_def lock_use_def)
  note L = lock_step_port_inv [OF I t(1), of Src]
  note M = w_move_inv [OF I]
  show ?thesis
  proof (cases "wpc s")
    case W_acq
    then show ?thesis using U L M [of W_new] t(2) by (auto simp: lock_use_def fresh_def acquiring_def elim: w_pend.elims)
  next
    case W_rel
    then show ?thesis using U L M [of W_flip] t(2) by (auto simp: lock_use_def fresh_def releasing_def elim: w_pend.elims)
  next
    case W_send_d
    then show ?thesis using I U M [of W_call] by (auto simp: wait_xfer_def lock_use_def fresh_def)
  next
    case W_new_d
    then show ?thesis using I U M [of W_free] by (auto simp: wait_xfer_def lock_use_def fresh_def)
  qed (use I start_xfer_inv w_lock_call_inv w_flip_inv t(3) in auto)
qed

text \<open>The steps of the reader.\<close>

lemma r_move_inv:
  assumes I: "port_inv cpu W s" and u: "r_at pc (lpc s Snk)" and c: "copy_inv W (s\<lparr>rnewest := n, copied := ws, rpc := pc\<rparr>)"
  shows "port_inv cpu W (s\<lparr>rnewest := n, copied := ws, rpc := pc\<rparr>)" (is "port_inv cpu W ?s")
proof -
  have "lock_inv cpu ?s" by (rule lock_frame [of cpu s]) (use I in \<open>auto simp: port_inv_def\<close>)
  moreover have "data_inv W ?s" by (rule data_frame [of W s]) (use I in \<open>auto simp: port_inv_def\<close>)
  moreover have "lock_use W ?s" using I u by (simp add: port_inv_def lock_use_def)
  ultimately show ?thesis using c by (simp add: port_inv_def)
qed

lemma r_lock_call_inv:
  assumes I: "port_inv cpu W s" and x: "rpc s = S_call \<and> f = acquire_lock \<and> pc = S_acq \<or> rpc s = S_free \<and> f = release_lock \<and> pc = S_rel"
  shows "port_inv cpu W ((f Snk s)\<lparr>rpc := pc\<rparr>)" (is "port_inv cpu W ?s")
proof -
  have "lock_inv cpu (f Snk s)" using I x acquire_lock_inv [of cpu s Snk] release_lock_inv [of cpu s Snk] by (auto simp: port_inv_def)
  then have "lock_inv cpu ?s" by (rule lock_frame) simp_all
  moreover have "lock_use W ?s"
    using I x by (auto simp: port_inv_def lock_use_def acquire_lock_def release_lock_def acquiring_def releasing_def)
  moreover have "data_inv W ?s"
    by (rule data_frame [of W s]) (use I x in \<open>auto simp: port_inv_def acquire_lock_def release_lock_def split: if_splits\<close>)
  moreover have "copy_inv W ?s" using x by (auto simp: copy_inv_def)
  ultimately show ?thesis by (simp add: port_inv_def)
qed

lemma copy_step:
  assumes I: "port_inv cpu W s" and pc: "rpc s = S_copy"
  shows "port_inv cpu W (mp_read_step cpu W out S_copy s)"
proof -
  let ?w = "if rnewest s = 0 \<or> rnewest s = 1 then sbuf s (rnewest s) (length (copied s)) else out"
  let ?ws = "copied s @ [?w]"
  have D: "rnewest s = snewest s" using I pc by (simp add: port_inv_def copy_inv_def)
  have P: "copied s = take (length (copied s)) (last (published s))" "map (sbuf s (snewest s)) [0..<W] = last (published s)"
    "snewest s = 0 \<or> snewest s = 1" if "published s \<noteq> []"
    using I pc that xor_1 [of "snext s"] by (auto simp: port_inv_def copy_inv_def data_inv_def split: if_splits)
  have len: "length (last (published s)) = W" if "published s \<noteq> []" using arg_cong [OF P(2) [OF that], of length] by simp
  have u: "r_at S_copy (lpc s Snk)" "r_at S_free (lpc s Snk)" using I pc by (simp_all add: port_inv_def lock_use_def)
  show ?thesis
  proof (cases "length (copied s) < W")
    case True
    have "?ws = take (length ?ws) (last (published s))" if p: "published s \<noteq> []"
    proof -
      have "?w = last (published s) ! length (copied s)"
        using True D P(3) [OF p] arg_cong [OF P(2) [OF p], of "\<lambda>xs. xs ! length (copied s)"] by simp
      then show ?thesis using P(1) [OF p] True len [OF p] by (simp add: take_Suc_conv_app_nth)
    qed
    then have c: "copy_inv W (s\<lparr>rnewest := rnewest s, copied := ?ws, rpc := S_copy\<rparr>)"
      using D len True by (auto simp: copy_inv_def min_absorb2)
    have "s\<lparr>copied := ?ws, rpc := S_copy\<rparr> = s\<lparr>copied := ?ws\<rparr>" using pc by (cases s) simp
    then show ?thesis using True r_move_inv [OF I u(1) c] by (simp add: mem_copy_step_def)
  next
    case False
    have "copied s = last (published s)" if p: "published s \<noteq> []" using P(1) [OF p] len [OF p] False by simp
    then have "copy_inv W (s\<lparr>rnewest := rnewest s, copied := copied s, rpc := S_free\<rparr>)"
      by (simp add: copy_inv_def)
    from r_move_inv [OF I u(2) this] show ?thesis using False by (simp add: mem_copy_step_def)
  qed
qed

lemma mp_read_step_inv:
  assumes I: "port_inv cpu W s" and t: "tickets_ok s" "cpu Src \<noteq> cpu Snk"
  shows "port_inv cpu W (mp_read_step cpu W out (rpc s) s)"
proof -
  have U: "r_at (rpc s) (lpc s Snk)" "copy_inv W s" using I by (simp_all add: port_inv_def lock_use_def)
  note L = lock_step_port_inv [OF I t(1), of Snk]
  note M = r_move_inv [OF I, where n = "rnewest s" and ws = "copied s"]
  show ?thesis
  proof (cases "rpc s")
    case S_acq
    then show ?thesis using U L M [of S_newest] t(2) by (auto simp: copy_inv_def)
  next
    case S_rel
    then show ?thesis using U L M [of S_idle] t(2) by (auto simp: copy_inv_def)
  next
    case S_newest
    then show ?thesis using U r_move_inv [OF I, where pc = S_copy and n = "snewest s" and ws = "[]"] by (simp add: copy_inv_def)
  next
    case S_copy
    then show ?thesis using copy_step [OF I] by simp
  qed (use I r_lock_call_inv in auto)
qed

text \<open>The arrivals.\<close>

lemma words_arrive_inv:
  assumes I: "port_inv cpu W s" and p: "pend s Src = Some (X_words (Suc m))"
  shows "port_inv cpu W (sample_deliver W Src s)"
proof -
  let ?s = "sample_deliver W Src s" and ?q = "if m = 0 then None else Some (X_words m)"
  have e: "?s = s\<lparr>sbuf := (sbuf s)(snext s := (sbuf s (snext s))(W - Suc m := sample s (W - Suc m))), pend := (pend s)(Src := ?q)\<rparr>"
    using p by (simp add: sample_deliver_def)
  have L: "wpc s = W_send_d" "Suc m \<le> W" "lpc s Src = Idle" using I p by (auto simp: port_inv_def lock_use_def)
  have D: "data_inv W s" "copy_inv W s" using I by (simp_all add: port_inv_def)
  have f: "\<not> fresh W_send_d q" for q by (simp add: fresh_def)
  have ne: "snewest s \<noteq> snext s" "snext s \<noteq> -1"
    using D(1) xor_1 [of "snext s"] L(1) f by (auto simp: data_inv_def split: if_splits)
  have "lock_inv cpu ?s"
    by (rule lock_inv_pend [of cpu s]) (use I L in \<open>auto simp: e port_inv_def app_or_none_def\<close>)
  moreover have "lock_use W ?s" using I L by (simp add: e port_inv_def lock_use_def)
  moreover have "data_inv W ?s"
  proof -
    have "words_sent W W_send_d ?q = Suc (W - Suc m)" "words_sent W W_send_d (pend s Src) = W - Suc m"
      using L(2) p by (auto simp: Suc_diff_Suc)
    then show ?thesis using D(1) ne L(1) f unfolding data_inv_def by (auto simp: e less_Suc_eq)
  qed
  moreover have "copy_inv W ?s" using D(2) unfolding copy_inv_def by (simp add: e)
  ultimately show ?thesis by (simp add: port_inv_def)
qed

lemma newest_arrives_inv:
  assumes I: "port_inv cpu W s" and p: "pend s Src = Some X_newest"
  shows "port_inv cpu W (sample_deliver W Src s)"
proof -
  let ?s = "sample_deliver W Src s"
  have e: "?s = s\<lparr>snewest := snext s, published := published s @ [map (sample s) [0..<W]], pend := (pend s)(Src := None)\<rparr>"
    using p by (simp add: sample_deliver_def)
  have L: "wpc s = W_new_d" "lpc s Src = Held" using I p by (auto simp: port_inv_def lock_use_def)
  then have "lpc s Snk \<noteq> Held" using I held_exclusive [of cpu s] by (simp add: port_inv_def)
  then have R: "rpc s \<noteq> S_copy" "rpc s \<noteq> S_free" using I by (auto simp: port_inv_def lock_use_def)
  have "lock_inv cpu ?s"
    by (rule lock_inv_pend [of cpu s]) (use I L in \<open>auto simp: e port_inv_def app_or_none_def\<close>)
  moreover have "lock_use W ?s" using I L by (simp add: e port_inv_def lock_use_def)
  moreover have "data_inv W ?s" using I L p by (simp add: e port_inv_def data_inv_def fresh_def)
  moreover have "copy_inv W ?s" using R by (simp add: e copy_inv_def)
  ultimately show ?thesis by (simp add: port_inv_def)
qed

lemma words_sent_lock:
  "w_pend W pc p \<Longrightarrow> p \<in> {Some X_entering, Some X_number} \<Longrightarrow> words_sent W pc None = words_sent W pc p \<and> fresh pc None = fresh pc p"
  by (cases pc) (auto simp: fresh_def)

lemma lock_arrives_inv:
  assumes I: "port_inv cpu W s" and p: "pend s c \<in> {Some X_entering, Some X_number}"
  shows "port_inv cpu W (lock_deliver c s)"
proof -
  let ?s = "lock_deliver c s"
  have e: "lpc ?s = lpc s" "pend ?s = (pend s)(c := None)" "wpc ?s = wpc s" "rpc ?s = rpc s" "snext ?s = snext s" "snewest ?s = snewest s"
    "sbuf ?s = sbuf s" "sample ?s = sample s" "rnewest ?s = rnewest s" "copied ?s = copied s" "published ?s = published s"
    using p by (auto simp: lock_deliver_def)
  have U: "lock_use W s" using I by (simp add: port_inv_def)
  have "lock_inv cpu ?s" using I lock_deliver_inv [of cpu s c] by (simp add: port_inv_def)
  moreover have "lock_use W ?s" using U p unfolding lock_use_def e by (cases c) (auto simp: r_pend_def)
  moreover have "data_inv W ?s"
  proof (rule data_frame [of W s])
    have "words_sent W (wpc s) (((pend s)(c := None)) Src) = words_sent W (wpc s) (pend s Src)
      \<and> fresh (wpc s) (((pend s)(c := None)) Src) = fresh (wpc s) (pend s Src)"
      using words_sent_lock [of W "wpc s" "pend s Src"] U p by (cases c) (simp_all add: lock_use_def)
    then show "words_sent W (wpc ?s) (pend ?s Src) \<le> words_sent W (wpc s) (pend s Src)"
      "fresh (wpc ?s) (pend ?s Src) = fresh (wpc s) (pend s Src)" by (simp_all only: e)
  qed (use I in \<open>simp_all add: e port_inv_def\<close>)
  moreover have "copy_inv W ?s" by (rule copy_frame [of W s]) (use I in \<open>simp_all add: e port_inv_def\<close>)
  ultimately show ?thesis by (simp add: port_inv_def)
qed

lemma sample_deliver_inv:
  assumes I: "port_inv cpu W s"
  shows "port_inv cpu W (sample_deliver W c s)"
proof (cases "pend s c \<in> {Some X_entering, Some X_number}")
  case True
  then show ?thesis using lock_arrives_inv [OF I] by (auto simp: sample_deliver_def)
next
  case False
  have U: "lock_use W s" using I by (simp add: port_inv_def)
  show ?thesis
  proof (cases "pend s c")
    case None
    then show ?thesis using I by (simp add: sample_deliver_def lock_deliver_def)
  next
    case (Some x)
    then have "c = Src" "x = X_newest \<or> (\<exists>m. x = X_words (Suc m))"
      using U False by (cases c; cases x; auto simp: lock_use_def r_pend_def gr0_conv_Suc)+
    then show ?thesis using Some I words_arrive_inv newest_arrives_inv by auto
  qed
qed

lemma sample_reach_inv: "sample_reach cpu W True s \<Longrightarrow> cpu Src \<noteq> cpu Snk \<Longrightarrow> 0 < W \<Longrightarrow> port_inv cpu W s"
proof (induction rule: sample_reach.induct)
  case (start s)
  then show ?case by (simp add: start_inv)
next
  case (w_call s v)
  then show ?case by (intro w_call_inv) simp_all
next
  case (r_call s)
  then show ?case by (intro r_call_inv) simp_all
next
  case (w_step s)
  then show ?case by (intro mp_write_step_inv) simp_all
next
  case (r_step s out)
  then show ?case by (intro mp_read_step_inv) simp_all
next
  case (deliver s c)
  then show ?case by (intro sample_deliver_inv) simp_all
qed

text \<open>
  C2. Reads of a sampling port are never torn and never stale: as long as no ticket of the lock is the largest
  number, in every interleaving of the writer, the reader and the network, an \<open>mp_read\<close> that has finished its copy,
  and still holds the lock, has exactly the sample published last, once a sample has been published.
\<close>

theorem sampling_read_newest:
  assumes "sample_reach cpu W True s" "cpu Src \<noteq> cpu Snk" "0 < W" "rpc s = S_free" "published s \<noteq> []"
  shows "copied s = last (published s)"
  using sample_reach_inv [OF assms(1-3)] assms(4,5) by (simp add: port_inv_def copy_inv_def)

text \<open>Runs given by the sequence of their actions, which stop at a ticket that would wrap around.\<close>

datatype port_act = Write "nat \<Rightarrow> u32" | Read | W_step | R_step u32 | Arrive core

fun port_do :: "(core \<Rightarrow> u32) \<Rightarrow> nat \<Rightarrow> port_act \<Rightarrow> sample_sys \<Rightarrow> sample_sys" where
  "port_do cpu W (Write v) s = (if wpc s = W_idle then s\<lparr>sample := v, wpc := W_send\<rparr> else s)"
| "port_do cpu W Read s = (if rpc s = S_idle then s\<lparr>rpc := S_call\<rparr> else s)"
| "port_do cpu W W_step s = mp_write_step cpu W (wpc s) s"
| "port_do cpu W (R_step out) s = mp_read_step cpu W out (rpc s) s"
| "port_do cpu W (Arrive c) s = sample_deliver W c s"

fun port_run :: "(core \<Rightarrow> u32) \<Rightarrow> nat \<Rightarrow> port_act list \<Rightarrow> sample_sys \<Rightarrow> sample_sys option" where
  "port_run cpu W [] s = Some s"
| "port_run cpu W (x # xs) s =
     (if remote_number (lk s Src) = -1 \<or> remote_number (lk s Snk) = -1 then None else port_run cpu W xs (port_do cpu W x s))"

lemma port_run_reach: "sample_reach cpu W True s \<Longrightarrow> port_run cpu W xs s = Some s' \<Longrightarrow> sample_reach cpu W True s'"
proof (induction xs arbitrary: s)
  case (Cons x xs)
  then have t: "tickets_ok s" and r: "port_run cpu W xs (port_do cpu W x s) = Some s'"
    by (auto simp: tickets_ok_def split: if_splits) (metis core.exhaust)
  have "sample_reach cpu W True (port_do cpu W x s)"
    using Cons.prems(1) t by (cases x) (auto intro: sample_reach.intros)
  from Cons.IH [OF this r] show ?case .
qed simp

definition new_port :: sample_sys where
  "new_port = \<lparr>lk = \<lambda>_. \<lparr>remote_entering = 0, remote_number = 0, local_entering = 0, local_number = 0, remote_ptr = 0, remote_cpuid = 0\<rparr>, lpc = \<lambda>_. Idle, tick = \<lambda>_. 0,
     seen = \<lambda>_. 0, pend = \<lambda>_. None, wpc = W_idle, rpc = S_idle, snext = 0, snewest = -1, sbuf = \<lambda>_ _. 0, sample = \<lambda>_. 0,
     rnewest = 0, copied = [], published = []\<rparr>"

definition write_run :: "(nat \<Rightarrow> u32) \<Rightarrow> port_act list" where
  "write_run v = Write v # concat (replicate 30 [W_step, Arrive Src])"

definition read_run :: "nat \<Rightarrow> port_act list" where
  "read_run n = Read # concat (replicate n [R_step 5, Arrive Snk])"

theorem sampling_read_newest_witness:
  "map_option (\<lambda>s. copied s = last (published s) \<and> published s = [[7, 8]])
     (port_run two_cpus 2 (write_run (\<lambda>i. of_nat i + 7) @ read_run 18) new_port) = Some True"
proof -
  let ?r = "port_run two_cpus 2 (write_run (\<lambda>i. of_nat i + 7) @ read_run 18) new_port"
  have "map_option (\<lambda>s. (rpc s, published s)) ?r = Some (S_free, [[7, 8]])" by code_simp
  then obtain s where s: "?r = Some s" "rpc s = S_free" "published s = [[7, 8]]" by auto
  have "sample_reach two_cpus 2 True new_port" by (rule sample_reach.start) (simp_all add: new_port_def lock_start_def)
  then have "sample_reach two_cpus 2 True s" using s(1) by (rule port_run_reach)
  from sampling_read_newest [OF this _ _ s(2)] show ?thesis using s by (simp add: two_cpus_def)
qed

end
