(* ===== verification/Eth_TTE.thy ===== *)
theory Eth_TTE
  imports Eth_Mac
begin

text \<open>
  \<open>c/ethlib/tte.c\<close>: time-triggered Ethernet. A node synchronises its clock to the integration frames of the
  network, and sends the frames of its virtual links at the points of a schedule that is computed from
  their periods. The clock, the timer and the interrupt controller are a parameter, like the Ethernet controller.
  An access outside an array or to a virtual link that has not been initialised, a division by zero and
  a loop that does not end have the value \<open>None\<close>; \<open>malloc\<close> succeeds.
\<close>

abbreviation (input) CYCLES_PER_UNIT :: u32 where "CYCLES_PER_UNIT \<equiv> 8000"

datatype handler = Tte_clock_tick | Tte_clock_tick_log | Int_handler

record 'd tte_if =
  loclk :: "'d \<Rightarrow> u32 \<times> 'd"
  cpu_cycles :: "'d \<Rightarrow> u64 \<times> 'd"
  arm_timer :: "u64 \<Rightarrow> 'd \<Rightarrow> 'd"
  exc_reg :: "u32 \<Rightarrow> handler \<Rightarrow> 'd \<Rightarrow> 'd"
  intr_unmask :: "u32 \<Rightarrow> 'd \<Rightarrow> 'd"
  intr_clear_all_pending :: "'d \<Rightarrow> 'd"
  intr_enable :: "'d \<Rightarrow> 'd"
  malloc_word :: "nat \<Rightarrow> u32"

record VL =
  max_queue :: u8
  startTime :: u32
  period :: u32
  queue :: "u32 list"
  sizeQueue :: "u32 list"
  addplace :: u8
  rmplace :: u8

record 'd tte = "'d eth_mach" +
  TTE_MAX_TRANS_DELAY :: u32
  TTE_COMP_DELAY :: u32
  TTE_PRECISION :: u32
  integration_period :: u32
  integration_cycle :: u32
  cluster_period :: u32
  tte_current_time :: u64
  timer_time :: u64
  clock_err :: u64
  clock_err_integral :: u64
  CT_marker :: "u8 list"
  max_sched :: u8
  tte_mac :: "u8 list"
  send_times :: "u64 list"
  send_time_i :: nat
  VLarray :: "VL option list"
  VLsize :: u8
  sched :: "u32 list"
  VLsched :: "u32 list"
  startTick :: u32
  schedplace :: u8
  tte_receive_log_max_time :: u32
  handle_integration_frame_log_max_time :: u32
  tte_clear_free_rx_buffer_max_time :: u32

definition arr_get :: "'a list \<Rightarrow> nat \<Rightarrow> 'a option" where
  "arr_get xs i = (if i < length xs then Some (xs ! i) else None)"

definition arr_set :: "'a list \<Rightarrow> nat \<Rightarrow> 'a \<Rightarrow> 'a list option" where
  "arr_set xs i v = (if i < length xs then Some (xs[i := v]) else None)"

definition get_vl :: "nat \<Rightarrow> 'd tte \<Rightarrow> VL option" where
  "get_vl i s = (if i < length (VLarray s) then VLarray s ! i else None)"

definition put_vl :: "nat \<Rightarrow> VL \<Rightarrow> 'd tte \<Rightarrow> 'd tte" where
  "put_vl i v s = s\<lparr>VLarray := (VLarray s)[i := Some v]\<rparr>"

definition get_loclk :: "'d tte_if \<Rightarrow> 'd tte \<Rightarrow> u32 \<times> 'd tte" where
  "get_loclk t s = (case loclk t (eth_dev s) of (v, d) \<Rightarrow> (v, s\<lparr>eth_dev := d\<rparr>))"

definition get_cpu_cycles :: "'d tte_if \<Rightarrow> 'd tte \<Rightarrow> u64 \<times> 'd tte" where
  "get_cpu_cycles t s = (case cpu_cycles t (eth_dev s) of (v, d) \<Rightarrow> (v, s\<lparr>eth_dev := d\<rparr>))"

definition arm_clock_timer :: "'d tte_if \<Rightarrow> u64 \<Rightarrow> 'd tte \<Rightarrow> 'd tte" where
  "arm_clock_timer t v s = s\<lparr>eth_dev := arm_timer t v (eth_dev s)\<rparr>"

section \<open>Receiving\<close>

definition is_pcf :: "ethbuf \<Rightarrow> u32 \<Rightarrow> bool" where
  "is_pcf m addr \<longleftrightarrow> mem_iord_byte m (addr + 12) = 0x89 \<and> mem_iord_byte m (addr + 13) = 0x1D"

definition is_tte :: "u8 list \<Rightarrow> ethbuf \<Rightarrow> u32 \<Rightarrow> bool" where
  "is_tte ct m addr = list_all (\<lambda>i. mem_iord_byte m (addr + of_nat i) = ucast (ct ! i)) [0..<4]"

text \<open>
  \<open>continue\<close> goes to the condition of the loop, so that the two statements after it are dead: the time of
  arrival is not recorded, and the time is not compared with the timeout.
\<close>

partial_function (option) tte_poll :: "'d eth_if \<Rightarrow> 'd tte \<Rightarrow> 'd tte option" where
  "tte_poll io s = (case eth_iord io 0x04 s of (v, s) \<Rightarrow> if v AND 0x4 = 0 then tte_poll io s else Some s)"

definition tte_wait_for_message :: "'d eth_if \<Rightarrow> 'd tte_if \<Rightarrow> u64 \<Rightarrow> u64 \<Rightarrow> 'd tte \<Rightarrow> (u8 \<times> u64 \<times> 'd tte) option" where
  "tte_wait_for_message io t receive_point timeout s =
     (if timeout = 0
      then do { s \<leftarrow> tte_poll io s; Some (1, receive_point, s) }
      else let (start_time, s) = get_cpu_cycles t s
           in do { s \<leftarrow> tte_poll io s; Some (1, receive_point, s) })"

definition tte_clear_free_rx_buffer :: "'d eth_if \<Rightarrow> 'd tte_if \<Rightarrow> u32 \<Rightarrow> 'd tte \<Rightarrow> 'd tte" where
  "tte_clear_free_rx_buffer io t addr s =
     (let (initMeasurement, s) = get_loclk t s;
          s = eth_iowr io 0x04 0x00000004 s;
          (cur_data, s) = eth_iord io addr s;
          s = eth_iowr io addr (cur_data OR push_bit 15 1) s;
          (now, s) = get_loclk t s;
          diffTemp = now - initMeasurement
      in if diffTemp > tte_clear_free_rx_buffer_max_time s then s\<lparr>tte_clear_free_rx_buffer_max_time := diffTemp\<rparr> else s)"

definition transClk_to_clk :: "u64 \<Rightarrow> u64" where
  "transClk_to_clk transClk = drop_bit 26 (drop_bit 16 (transClk * 10) * 536871)"

text \<open>The fields of an integration frame.\<close>

definition rd_trans_clock :: "ethbuf \<Rightarrow> u32 \<Rightarrow> u64" where
  "rd_trans_clock m addr = fold (\<lambda>i x. push_bit 8 x OR ucast (mem_iord_byte m (addr + of_nat i))) [35..<42] (ucast (mem_iord_byte m (addr + 34)))"

definition rd_integration_cycle :: "ethbuf \<Rightarrow> u32 \<Rightarrow> u32" where
  "rd_integration_cycle m addr = fold (\<lambda>i x. push_bit 8 x OR mem_iord_byte m (addr + of_nat i)) [15..<18] (mem_iord_byte m (addr + 14))"

definition handle_integration_frame :: "'d tte_if \<Rightarrow> u32 \<Rightarrow> u64 \<Rightarrow> 'd tte \<Rightarrow> bool \<times> 'd tte" where
  "handle_integration_frame t addr receive_pit s =
     (let trans_clock = transClk_to_clk (rd_trans_clock (eth_buf s) addr);
          s = s\<lparr>integration_cycle := rd_integration_cycle (eth_buf s) addr\<rparr>;
          permanence_pit = receive_pit + (ucast (TTE_MAX_TRANS_DELAY s) - trans_clock);
          s = (if tte_current_time s = 0
               then s\<lparr>tte_current_time := permanence_pit - ucast (2 * TTE_MAX_TRANS_DELAY s + TTE_COMP_DELAY s)\<rparr> else s);
          sched_rec_pit = tte_current_time s + ucast (2 * TTE_MAX_TRANS_DELAY s) + ucast (TTE_COMP_DELAY s);
          err = permanence_pit - sched_rec_pit
      in if permanence_pit > sched_rec_pit - ucast (TTE_PRECISION s) \<and> permanence_pit < sched_rec_pit + ucast (TTE_PRECISION s)
         then let s = s\<lparr>tte_current_time := tte_current_time s + err\<rparr>;
                  s = (if integration_cycle s = 0
                       then let s = s\<lparr>schedplace := 0\<rparr>;
                                s = s\<lparr>timer_time := tte_current_time s + ucast (CYCLES_PER_UNIT * startTick s)\<rparr>
                            in arm_clock_timer t (timer_time s) s
                       else s)
              in (True, s\<lparr>tte_current_time := tte_current_time s + ucast (integration_period s)\<rparr>)
         else (False, s\<lparr>tte_current_time := 0\<rparr>))"

text \<open>The variant that logs its errors filters the correction and keeps the time of a frame outside the window.\<close>

definition handle_integration_frame_log :: "'d tte_if \<Rightarrow> u32 \<Rightarrow> u64 \<Rightarrow> u64 list \<Rightarrow> nat \<Rightarrow> 'd tte \<Rightarrow> (bool \<times> u64 list \<times> 'd tte) option" where
  "handle_integration_frame_log t addr receive_pit error i s =
     (let (initMeasurement, s) = get_loclk t s;
          trans_clock = transClk_to_clk (rd_trans_clock (eth_buf s) addr);
          s = s\<lparr>integration_cycle := rd_integration_cycle (eth_buf s) addr\<rparr>;
          permanence_pit = receive_pit + (ucast (TTE_MAX_TRANS_DELAY s) - trans_clock);
          s = (if tte_current_time s = 0
               then s\<lparr>tte_current_time := permanence_pit - ucast (2 * TTE_MAX_TRANS_DELAY s + TTE_COMP_DELAY s)\<rparr> else s);
          sched_rec_pit = tte_current_time s + ucast (2 * TTE_MAX_TRANS_DELAY s) + ucast (TTE_COMP_DELAY s);
          s = s\<lparr>clock_err := permanence_pit - sched_rec_pit\<rparr>
      in do {
           error \<leftarrow> arr_set error i (clock_err s);
           let (ans, s) =
             (if permanence_pit > sched_rec_pit - ucast (TTE_PRECISION s) \<and> permanence_pit < sched_rec_pit + ucast (TTE_PRECISION s)
              then let s = s\<lparr>clock_err_integral := clock_err_integral s + clock_err s\<rparr>;
                       s = s\<lparr>tte_current_time := tte_current_time s + signed_drop_bit 10 (300 * clock_err s)
                               + signed_drop_bit 10 (700 * clock_err_integral s)\<rparr>;
                       s = (if integration_cycle s = 0
                            then let s = s\<lparr>schedplace := 0\<rparr>;
                                     s = s\<lparr>timer_time := tte_current_time s + ucast (CYCLES_PER_UNIT * startTick s)\<rparr>
                                 in arm_clock_timer t (timer_time s) s
                            else s)
                   in (True, s\<lparr>tte_current_time := tte_current_time s + ucast (integration_period s)\<rparr>)
              else (False, s));
           let (now, s) = get_loclk t s;
           let diffTemp = now - initMeasurement;
           Some (ans, error, if diffTemp > handle_integration_frame_log_max_time s
                             then s\<lparr>handle_integration_frame_log_max_time := diffTemp\<rparr> else s)
         })"

definition tte_receive :: "'d tte_if \<Rightarrow> u32 \<Rightarrow> u64 \<Rightarrow> 'd tte \<Rightarrow> u8 \<times> 'd tte" where
  "tte_receive t addr rec_start s =
     (if is_pcf (eth_buf s) addr
      then if mem_iord_byte (eth_buf s) (addr + 28) = 0x2
           then (case handle_integration_frame t addr rec_start s of (ok, s) \<Rightarrow> (if ok then 1 else 0, s))
           else (3, s)
      else if is_tte (CT_marker s) (eth_buf s) addr then (2, s)
      else (3, s))"

definition tte_receive_log :: "'d tte_if \<Rightarrow> u32 \<Rightarrow> u64 \<Rightarrow> u64 list \<Rightarrow> nat \<Rightarrow> 'd tte \<Rightarrow> (u8 \<times> u64 list \<times> 'd tte) option" where
  "tte_receive_log t addr rec_start error i s =
     (let (initMeasurement, s) = get_loclk t s
      in do {
           (ans, error, s) \<leftarrow>
             (if is_pcf (eth_buf s) addr
              then if mem_iord_byte (eth_buf s) (addr + 28) = 0x2
                   then do { (ok, error, s) \<leftarrow> handle_integration_frame_log t addr rec_start error i s;
                             Some (if ok then 1 else 0, error, s) }
                   else Some (3, error, s)
              else Some (if is_tte (CT_marker s) (eth_buf s) addr then 2 else 3, error, s));
           let (now, s) = get_loclk t s;
           let diffTemp = now - initMeasurement;
           Some (ans, error, if diffTemp > tte_receive_log_max_time s then s\<lparr>tte_receive_log_max_time := diffTemp\<rparr> else s)
         })"

section \<open>Virtual links and their schedule\<close>

text \<open>
  The cast in \<open>(unsigned char) cluster_period/period\<close> applies to the cluster period, not to the quotient.
\<close>

definition tte_init_VL :: "u8 \<Rightarrow> u32 \<Rightarrow> u32 \<Rightarrow> 'd tte \<Rightarrow> 'd tte option" where
  "tte_init_VL i start per s =
     (if per = 0 \<or> unat i \<ge> length (VLarray s) then None
      else let mq = ucast ((ucast (ucast (cluster_period s) :: u8) :: u32) div per) :: u8
           in Some (put_vl (unat i) \<lparr>max_queue = mq, startTime = start, period = per, queue = replicate (unat mq) 0,
                sizeQueue = replicate (unat mq) 0, addplace = 0, rmplace = 0\<rparr> s))"

definition mac_of :: "u64 \<Rightarrow> u8 list" where
  "mac_of macAdd = map (\<lambda>i. ucast (drop_bit (8 * (5 - i)) macAdd AND 0xFF)) [0..<6]"

definition tte_initialize ::
    "'d eth_if \<Rightarrow> u32 \<Rightarrow> u32 \<Rightarrow> u8 list \<Rightarrow> u8 \<Rightarrow> u32 \<Rightarrow> u32 \<Rightarrow> u32 \<Rightarrow> 'd tte \<Rightarrow> 'd tte option" where
  "tte_initialize io int_period cl_period CT VLcount max_delay comp_delay precision s =
     (let s = s\<lparr>integration_period := int_period * CYCLES_PER_UNIT, cluster_period := cl_period, CT_marker := take 4 CT,
                TTE_MAX_TRANS_DELAY := max_delay, TTE_COMP_DELAY := comp_delay, TTE_PRECISION := precision\<rparr>;
          (macAdd, s) = get_mac_address io s;
          s = s\<lparr>tte_mac := mac_of macAdd\<rparr>;
          s = eth_iowr io 0x00 0x0000A423 s;
          s = eth_iowr io 0x08 0x00000004 s;
          s = s\<lparr>VLarray := replicate (unat VLcount + 1) None, VLsize := VLcount + 1\<rparr>
      in tte_init_VL VLcount int_period int_period s)"

text \<open>
  The loops that look for the smallest element: at the start of the schedule over the starting times, which
  leaves the link unset when there is none before the end of the cluster, and later over the next times of the links.
\<close>

definition min_scan :: "u32 list \<Rightarrow> u32 \<times> 'a \<Rightarrow> (nat \<Rightarrow> 'a) \<Rightarrow> u32 \<times> 'a" where
  "min_scan ts mv f = fold (\<lambda>i (mn, v). if ts ! i < mn then (ts ! i, f i) else (mn, v)) [0..<length ts] mv"

partial_function (option) sched_loop ::
    "u32 \<Rightarrow> nat \<Rightarrow> u32 list \<Rightarrow> nat \<Rightarrow> u32 \<Rightarrow> nat \<Rightarrow> u32 list \<Rightarrow> u32 list \<Rightarrow> u32 list \<Rightarrow> (u32 list \<times> u32 list) option" where
  "sched_loop cluster maxs periods index current vl cur sch vls =
     (let (mn, vl) = min_scan cur (cluster * 2, vl) (\<lambda>i. i)
      in do {
           sch \<leftarrow> arr_set sch index (mn - current);
           vls \<leftarrow> (if int index < int maxs - 1 then arr_set vls (index + 1) (of_nat vl) else Some vls);
           next_t \<leftarrow> arr_get cur vl;
           per \<leftarrow> arr_get periods vl;
           cur \<leftarrow> arr_set cur vl (next_t + per);
           if mn \<ge> cluster then Some (sch, vls)
           else sched_loop cluster maxs periods (index + 1) mn vl cur sch vls
         })"

definition tte_generate_schedule :: "'d tte_if \<Rightarrow> 'd tte \<Rightarrow> 'd tte option" where
  "tte_generate_schedule t s =
     do {
       vs \<leftarrow> those (map (\<lambda>i. get_vl i s) [0..<unat (VLsize s)]);
       let cur = map startTime vs;
       let (mn, first) = min_scan cur (cluster_period s, None) Some;
       let s = s\<lparr>max_sched := fold (\<lambda>v n. n + max_queue v) vs 0, startTick := mn\<rparr>;
       vl \<leftarrow> first;
       t0 \<leftarrow> arr_get cur vl;
       v \<leftarrow> arr_get vs vl;
       let cur = cur[vl := t0 + period v];
       let n = unat (max_sched s);
       let sch = map (malloc_word t) [0..<n];
       vls \<leftarrow> arr_set (map (malloc_word t) [0..<n]) 0 (of_nat vl);
       (sch, vls) \<leftarrow> sched_loop (cluster_period s) n (map period vs) 0 mn vl cur sch vls;
       Some (s\<lparr>sched := sch, VLsched := vls\<rparr>)
     }"

definition tte_start_ticking :: "'d tte_if \<Rightarrow> bool \<Rightarrow> bool \<Rightarrow> 'd tte \<Rightarrow> 'd tte option" where
  "tte_start_ticking t log_sending enable_int s =
     do {
       s \<leftarrow> tte_generate_schedule t s;
       let timer_handler = (if log_sending then Tte_clock_tick_log else Tte_clock_tick);
       let d = eth_dev s;
       let d = (if enable_int
                then intr_unmask t 17 (intr_unmask t 16 (exc_reg t 17 timer_handler (exc_reg t 16 Int_handler d)))
                else intr_unmask t 16 (exc_reg t 16 timer_handler d));
       let d = intr_enable t (intr_clear_all_pending t d);
       Some (s\<lparr>eth_dev := d, tte_current_time := 0\<rparr>)
     }"

definition tte_stop_ticking :: "'d tte \<Rightarrow> 'd tte" where
  "tte_stop_ticking s = s\<lparr>VLarray := map (\<lambda>_. None) (VLarray s)\<rparr>"

section \<open>Building frames\<close>

definition tte_prepare_header :: "u8 list \<Rightarrow> u8 list \<Rightarrow> u32 \<Rightarrow> u8 list \<Rightarrow> u8 list \<Rightarrow> ethbuf \<Rightarrow> ethbuf" where
  "tte_prepare_header ct mac tx_addr vl ethType m =
     (let m = fold (\<lambda>i m. mem_iowr_byte m (tx_addr + of_nat i) (ucast (ct ! i))) [0..<4] m;
          m = mem_iowr_byte m (tx_addr + 4) (ucast (vl ! 0));
          m = mem_iowr_byte m (tx_addr + 5) (ucast (vl ! 1));
          m = fold (\<lambda>i m. mem_iowr_byte m (tx_addr + of_nat i) (ucast (mac ! (i - 6)))) [6..<12] m;
          m = mem_iowr_byte m (tx_addr + 12) (ucast (ethType ! 0))
      in mem_iowr_byte m (tx_addr + 13) (ucast (ethType ! 1)))"

definition tte_prepare_data :: "u8 list \<Rightarrow> u8 list \<Rightarrow> u32 \<Rightarrow> u8 list \<Rightarrow> u8 list \<Rightarrow> int \<Rightarrow> ethbuf \<Rightarrow> ethbuf" where
  "tte_prepare_data ct mac tx_addr vl data len m =
     (let ethType = [word_of_int (drop_bit 8 (len - 14)), word_of_int (len - 14)];
          m = tte_prepare_header ct mac tx_addr vl ethType m
      in fold (\<lambda>i m. mem_iowr_byte m (tx_addr + of_nat i) (ucast (data ! i))) [14..<nat len] m)"

definition tte_prepare_pcf :: "u8 list \<Rightarrow> u8 list \<Rightarrow> u32 \<Rightarrow> u8 list \<Rightarrow> u8 \<Rightarrow> ethbuf \<Rightarrow> ethbuf" where
  "tte_prepare_pcf ct mac addr vl typ m =
     (let m = tte_prepare_header ct mac addr vl [0x89, 0x1D] m;
          m = fold (\<lambda>i m. mem_iowr_byte m (addr + of_nat i) 0x00) [14..<18] m;
          m = fold (\<lambda>i m. mem_iowr_byte m (addr + of_nat i) 0x00) [18..<21] m;
          m = mem_iowr_byte m (addr + 21) 0x02;
          m = mem_iowr_byte m (addr + 26) 0x01;
          m = mem_iowr_byte m (addr + 27) 0x01;
          m = mem_iowr_byte m (addr + 28) (ucast typ)
      in fold (\<lambda>i m. mem_iowr_byte m (addr + of_nat i) 0x00) [34..<42] m)"

section \<open>Sending\<close>

definition vl_push :: "u32 \<Rightarrow> u32 \<Rightarrow> VL \<Rightarrow> (bool \<times> VL) option" where
  "vl_push addr sz v =
     do {
       q \<leftarrow> arr_get (queue v) (unat (addplace v));
       if q = 0
       then do {
         qs \<leftarrow> arr_set (queue v) (unat (addplace v)) addr;
         ss \<leftarrow> arr_set (sizeQueue v) (unat (addplace v)) sz;
         let v = v\<lparr>queue := qs, sizeQueue := ss, addplace := addplace v + 1\<rparr>;
         Some (True, if addplace v = max_queue v then v\<lparr>addplace := 0\<rparr> else v)
       }
       else Some (False, v)
     }"

definition tte_schedule_send :: "u32 \<Rightarrow> u32 \<Rightarrow> u8 \<Rightarrow> 'd tte \<Rightarrow> (bool \<times> 'd tte) option" where
  "tte_schedule_send addr sz i s =
     do { v \<leftarrow> get_vl (unat i) s; (ok, v) \<leftarrow> vl_push addr sz v; Some (ok, put_vl (unat i) v s) }"

definition vl_take :: "VL \<Rightarrow> ((u32 \<times> u32) \<times> VL) option" where
  "vl_take v =
     do {
       tx_addr \<leftarrow> arr_get (queue v) (unat (rmplace v));
       qs \<leftarrow> arr_set (queue v) (unat (rmplace v)) 0;
       sz \<leftarrow> arr_get (sizeQueue v) (unat (rmplace v));
       Some ((tx_addr, sz), v\<lparr>queue := qs\<rparr>)
     }"

definition vl_advance :: "VL \<Rightarrow> VL" where
  "vl_advance v = (let v = v\<lparr>rmplace := rmplace v + 1\<rparr> in if rmplace v = max_queue v then v\<lparr>rmplace := 0\<rparr> else v)"

definition tte_send_data :: "'d eth_if \<Rightarrow> u8 \<Rightarrow> 'd tte \<Rightarrow> 'd tte option" where
  "tte_send_data io i s =
     do {
       v \<leftarrow> get_vl (unat i) s;
       ((tx_addr, sz), v) \<leftarrow> vl_take v;
       s \<leftarrow> eth_mac_send io tx_addr sz (put_vl (unat i) v s);
       v \<leftarrow> get_vl (unat i) s;
       Some (put_vl (unat i) (vl_advance v) s)
     }"

text \<open>The part of the interrupt handlers before the transmission: the next interrupt and the link whose turn it is.\<close>

definition tte_next_tick :: "'d tte_if \<Rightarrow> 'd tte \<Rightarrow> (nat \<times> 'd tte) option" where
  "tte_next_tick t s =
     do {
       d \<leftarrow> arr_get (sched s) (unat (schedplace s));
       i \<leftarrow> arr_get (VLsched s) (unat (schedplace s));
       let s = s\<lparr>timer_time := timer_time s + ucast (CYCLES_PER_UNIT * d), schedplace := schedplace s + 1\<rparr>;
       if schedplace s < max_sched s
       then do {
         nxt \<leftarrow> arr_get (VLsched s) (unat (schedplace s));
         let s = (if nxt = ucast (VLsize s) - 1 then s\<lparr>timer_time := tte_current_time s\<rparr> else s);
         Some (unat i, arm_clock_timer t (timer_time s) s)
       }
       else Some (unat i, s)
     }"

definition vl_waiting :: "nat \<Rightarrow> 'd tte \<Rightarrow> bool option" where
  "vl_waiting i s = do { v \<leftarrow> get_vl i s; q \<leftarrow> arr_get (queue v) (unat (rmplace v)); Some (q > 0) }"

definition tte_due :: "'d eth_if \<Rightarrow> nat \<Rightarrow> 'd tte \<Rightarrow> 'd tte option" where
  "tte_due io i s = do { w \<leftarrow> vl_waiting i s; if w then tte_send_data io (of_nat i) s else Some s }"

definition tte_clock_tick :: "'d eth_if \<Rightarrow> 'd tte_if \<Rightarrow> 'd tte \<Rightarrow> 'd tte option" where
  "tte_clock_tick io t s = do { (i, s) \<leftarrow> tte_next_tick t s; tte_due io i s }"

definition tte_clock_tick_log :: "'d eth_if \<Rightarrow> 'd tte_if \<Rightarrow> 'd tte \<Rightarrow> 'd tte option" where
  "tte_clock_tick_log io t s =
     do {
       (i, s) \<leftarrow> tte_next_tick t s;
       w \<leftarrow> vl_waiting i s;
       if w
       then let (now, s) = get_cpu_cycles t s
            in do {
                 ts \<leftarrow> arr_set (send_times s) (send_time_i s) now;
                 tte_send_data io (of_nat i) (s\<lparr>send_times := ts, send_time_i := send_time_i s + 1\<rparr>)
               }
       else Some s
     }"

section \<open>The schedule is complete\<close>

lemma min_scan_upto:
  fixes ts :: "u32 list"
  assumes "fold (\<lambda>i (mn, v). if ts ! i < mn then (ts ! i, f i) else (mn, v)) [0..<k] (m0, v0) = (m, v)"
  shows "m \<le> m0 \<and> (\<forall>j<k. m \<le> ts ! j) \<and> ((m, v) = (m0, v0) \<or> (\<exists>i<k. (m, v) = (ts ! i, f i)))"
  using assms
proof (induction k arbitrary: m v)
  case (Suc k)
  obtain m' v' where mv: "fold (\<lambda>i (mn, v). if ts ! i < mn then (ts ! i, f i) else (mn, v)) [0..<k] (m0, v0) = (m', v')" by fastforce
  note IH = Suc.IH [OF mv]
  show ?case
  proof (cases "ts ! k < m'")
    case True
    then have e: "m = ts ! k" "v = f k" using Suc.prems mv by simp_all
    have "ts ! k \<le> m'" using True by (rule less_imp_le)
    then have "m \<le> m0" "\<forall>j<k. m \<le> ts ! j" using IH e(1) by (blast intro: order_trans)+
    then show ?thesis using e by (metis less_Suc_eq order_refl)
  next
    case False
    then have e: "m = m'" "v = v'" using Suc.prems mv by simp_all
    have "m' \<le> ts ! k" using False by (simp add: not_less)
    then show ?thesis using IH e by (metis less_Suc_eq)
  qed
qed simp

lemma min_scan_least:
  assumes "i < length ts" "ts ! i < m0"
  obtains j where "j < length ts" "min_scan ts (m0, v0) f = (ts ! j, f j)" "\<And>k. k < length ts \<Longrightarrow> ts ! j \<le> ts ! k"
proof -
  obtain m v where mv: "min_scan ts (m0, v0) f = (m, v)" by fastforce
  note M = min_scan_upto [OF mv [unfolded min_scan_def]]
  have "m \<le> ts ! i" using M assms(1) by blast
  then have "m \<noteq> m0" using assms(2) by (metis leD)
  then obtain j where "j < length ts" "m = ts ! j" "v = f j" using M by blast
  then show thesis using M mv that by metis
qed

text \<open>
  A virtual link fits the cluster when its period divides the cluster period, its first frame is not later than the end of its
  first period, and its queue has one place for each period.
\<close>

definition vl_ok :: "nat \<Rightarrow> VL \<Rightarrow> bool" where
  "vl_ok C v \<longleftrightarrow> 0 < unat (period v) \<and> unat (period v) dvd C \<and> unat (startTime v) \<le> unat (period v)
     \<and> unat (max_queue v) = C div unat (period v)"

lemma tte_init_VL_ok:
  assumes "unat i < length (VLarray s)" "0 < per" "unat per dvd unat (cluster_period s)" "start \<le> per" "unat (cluster_period s) < 256"
  shows "\<exists>v. tte_init_VL i start per s = Some (put_vl (unat i) v s) \<and> vl_ok (unat (cluster_period s)) v
    \<and> startTime v = start \<and> period v = per"
proof -
  have "unat (ucast (ucast (cluster_period s) :: u8) :: u32) = unat (cluster_period s)"
    using assms(5) by (simp add: unsigned_ucast_eq unsigned_take_bit_eq take_bit_nat_eq_self)
  moreover have "unat (cluster_period s) div unat per < 256" using assms(5) by (meson div_le_dividend le_less_trans)
  ultimately have "unat (ucast ((ucast (ucast (cluster_period s) :: u8) :: u32) div per) :: u8) = unat (cluster_period s) div unat per"
    by (simp add: unsigned_ucast_eq unat_div take_bit_nat_eq_self)
  moreover have "0 < unat per" using assms(2) by (simp add: word_less_nat_alt)
  ultimately show ?thesis using assms by (auto simp: tte_init_VL_def vl_ok_def Let_def word_le_nat_alt)
qed

text \<open>The sending points before time \<open>C\<close>.\<close>

definition points :: "nat \<Rightarrow> VL list \<Rightarrow> (nat \<times> nat) set" where
  "points C vs = {(t, i). i < length vs \<and> t < C \<and> unat (startTime (vs ! i)) \<le> t
     \<and> unat (period (vs ! i)) dvd t - unat (startTime (vs ! i))}"

lemma points_card:
  assumes "list_all (vl_ok C) vs"
  shows "finite (points C vs)" "card (points C vs) \<le> sum_list (map (\<lambda>v. unat (max_queue v)) vs)"
proof -
  let ?S = "\<lambda>i. unat (startTime (vs ! i))" and ?P = "\<lambda>i. unat (period (vs ! i))"
  let ?A = "\<lambda>i. {t. t < C \<and> ?S i \<le> t \<and> ?P i dvd t - ?S i}"
  have eq: "points C vs = (\<Union>i<length vs. (\<lambda>t. (t, i)) ` ?A i)" by (auto simp: points_def)
  show "finite (points C vs)" unfolding eq by auto
  have one: "card (?A i) \<le> unat (max_queue (vs ! i))" if i: "i < length vs" for i
  proof -
    have ok: "0 < ?P i" "?P i dvd C" "unat (max_queue (vs ! i)) = C div ?P i" using assms i by (auto simp: list_all_length vl_ok_def)
    have "inj_on (\<lambda>t. t div ?P i) (?A i)"
    proof (rule inj_onI)
      fix x y assume x: "x \<in> ?A i" and y: "y \<in> ?A i" and d: "x div ?P i = y div ?P i"
      obtain a b where "x = ?S i + ?P i * a" "y = ?S i + ?P i * b" using x y by (auto elim!: dvdE) (metis le_add_diff_inverse)
      then have "x mod ?P i = y mod ?P i" by simp
      then show "x = y" using d by (metis div_mult_mod_eq)
    qed
    moreover have "(\<lambda>t. t div ?P i) ` ?A i \<subseteq> {..<C div ?P i}"
      using ok(1,2) by (auto elim!: dvdE simp: less_mult_imp_div_less mult.commute)
    ultimately have "card (?A i) \<le> card {..<C div ?P i}" by (rule card_inj_on_le) simp
    then show ?thesis by (simp add: ok(3))
  qed
  have "card (points C vs) \<le> (\<Sum>i<length vs. card ((\<lambda>t. (t, i)) ` ?A i))" unfolding eq by (rule card_UN_le) simp
  also have "\<dots> \<le> (\<Sum>i<length vs. unat (max_queue (vs ! i)))"
    by (rule sum_mono) (use one in \<open>auto intro: order_trans [OF card_image_le]\<close>)
  also have "\<dots> = sum_list (map (\<lambda>v. unat (max_queue v)) vs)" by (simp add: sum_list_sum_nth atLeast0LessThan)
  finally show "card (points C vs) \<le> sum_list (map (\<lambda>v. unat (max_queue v)) vs)" .
qed

text \<open>
  The loop of \<open>tte_generate_schedule\<close>: \<open>evs\<close> are the points entered so far, \<open>cur\<close> the next point of every link.
\<close>

definition before :: "VL list \<Rightarrow> (nat \<Rightarrow> nat) \<Rightarrow> (nat \<times> nat) set" where
  "before vs T = {(t, i). i < length vs \<and> t < T i \<and> unat (startTime (vs ! i)) \<le> t \<and> unat (period (vs ! i)) dvd t - unat (startTime (vs ! i))}"

definition tables :: "(nat \<times> nat) list \<Rightarrow> u32 list \<Rightarrow> u32 list \<Rightarrow> bool" where
  "tables evs sch vls \<longleftrightarrow> length evs \<le> length sch \<and> length sch = length vls \<and> distinct evs \<and> sorted (map fst evs) \<and>
     (\<forall>j<length evs - 1. unat (sch ! j) = fst (evs ! Suc j) - fst (evs ! j)) \<and> (\<forall>j<length evs. unat (vls ! j) = snd (evs ! j))"

definition sched_inv :: "nat \<Rightarrow> VL list \<Rightarrow> (nat \<times> nat) list \<Rightarrow> u32 list \<Rightarrow> u32 list \<Rightarrow> u32 list \<Rightarrow> bool" where
  "sched_inv C vs evs cur sch vls \<longleftrightarrow> evs \<noteq> [] \<and> length cur = length vs \<and> tables evs sch vls \<and>
     (\<forall>i<length vs. unat (startTime (vs ! i)) \<le> unat (cur ! i) \<and> unat (period (vs ! i)) dvd unat (cur ! i) - unat (startTime (vs ! i))
        \<and> unat (cur ! i) < C + unat (period (vs ! i)) \<and> fst (last evs) \<le> unat (cur ! i)) \<and>
     set evs = before vs (\<lambda>i. unat (cur ! i)) \<and> fst (last evs) < C"

lemma sorted_last: "sorted xs \<Longrightarrow> x \<in> set xs \<Longrightarrow> x \<le> last xs"
  by (induction xs) auto

lemma before_next:
  fixes vs :: "VL list"
  defines "S \<equiv> \<lambda>i. unat (startTime (vs ! i))" and "P \<equiv> \<lambda>i. unat (period (vs ! i))"
  assumes "i < length vs" "S i \<le> T i" "P i dvd T i - S i" "0 < P i"
  shows "before vs (T(i := T i + P i)) = insert (T i, i) (before vs T)"
proof -
  have "t = T i" if "T i \<le> t" "t < T i + P i" "P i dvd t - S i" for t
  proof -
    have "P i dvd (t - S i) - (T i - S i)" using that(3) assms(5) by (rule dvd_diff_nat)
    moreover have "(t - S i) - (T i - S i) = t - T i" using that(1) assms(4) by linarith
    ultimately have "P i dvd t - T i" by simp
    moreover have "t - T i < P i" using that(1,2) by linarith
    ultimately show "t = T i" using that(1) by (meson dvd_imp_le le_antisym not_le zero_less_diff)
  qed
  then show ?thesis using assms(3-6) unfolding before_def S_def P_def
    by (auto simp: not_less) (metis not_less)+
qed

lemma sched_inv_length:
  assumes "sched_inv C vs evs cur sch vls" "list_all (vl_ok C) vs"
  shows "length evs \<le> sum_list (map (\<lambda>v. unat (max_queue v)) vs)"
proof -
  have I: "tables evs sch vls" "set evs = before vs (\<lambda>i. unat (cur ! i))" "fst (last evs) < C" "evs \<noteq> []"
    using assms(1) by (simp_all add: sched_inv_def)
  have "set evs \<subseteq> points C vs"
  proof
    fix e assume e: "e \<in> set evs"
    then have "fst e \<le> last (map fst evs)" using I(1) by (intro sorted_last) (auto simp: tables_def)
    then have "fst e < C" using I(3,4) by (simp add: last_map)
    then show "e \<in> points C vs" using e I(2) by (cases e) (auto simp: points_def before_def)
  qed
  then have "card (set evs) \<le> card (points C vs)" using points_card(1) [OF assms(2)] by (rule card_mono [rotated])
  then show ?thesis using points_card(2) [OF assms(2)] I(1) by (simp add: tables_def distinct_card)
qed

lemma tables_snoc:
  assumes "tables evs sch vls" "evs \<noteq> []" "length evs < length sch" "e \<notin> set evs" "fst (last evs) \<le> fst e" "snd e < 2 ^ 32" "fst e < 2 ^ 32"
  shows "tables (evs @ [e]) (sch[length evs - 1 := of_nat (fst e) - of_nat (fst (last evs))]) (vls[length evs := of_nat (snd e)])"
proof -
  have so: "sorted (map fst evs)" "distinct evs" using assms(1) by (simp_all add: tables_def)
  have "x \<le> fst e" if "x \<in> set (map fst evs)" for x
    using sorted_last [OF so(1) that] assms(2,5) by (simp add: last_map)
  then have "sorted (map fst (evs @ [e]))" using so(1) by (auto simp: sorted_append)
  moreover have "unat (of_nat (fst e) - of_nat (fst (last evs)) :: u32) = fst e - fst (last evs)"
    using assms(5,7) by (simp add: of_nat_diff [symmetric] of_nat_u32 del: of_nat_diff)
  ultimately show ?thesis using assms(1-4,6) so(2)
    by (auto simp: tables_def nth_append nth_list_update last_conv_nth of_nat_u32 less_Suc_eq less_diff_conv)
qed

definition sched_result :: "nat \<Rightarrow> VL list \<Rightarrow> (nat \<times> nat) list \<Rightarrow> u32 list \<Rightarrow> u32 list \<Rightarrow> bool" where
  "sched_result C vs evs sch vls \<longleftrightarrow> evs \<noteq> [] \<and> tables evs sch vls \<and> set evs = points C vs \<and> C \<le> fst (last evs) + unat (sch ! (length evs - 1))"

lemma before_points: "(\<And>i. i < length vs \<Longrightarrow> C \<le> T i) \<Longrightarrow> points C vs \<subseteq> before vs T"
  by (auto simp: points_def before_def intro: less_le_trans)

lemma sched_inv_step:
  assumes I: "sched_inv C vs evs cur sch vls" and ok: "list_all (vl_ok C) vs" and j: "j < length vs"
    and least: "\<And>i. i < length vs \<Longrightarrow> cur ! j \<le> cur ! i" and lt: "unat (cur ! j) < C" and C: "C < 2 ^ 30" and n: "length vs \<le> 2 ^ 32"
    and room: "length evs < length sch"
  shows "sched_inv C vs (evs @ [(unat (cur ! j), j)]) (cur[j := cur ! j + period (vs ! j)])
     (sch[length evs - 1 := cur ! j - of_nat (fst (last evs))]) (vls[length evs := of_nat j])"
proof -
  let ?P = "unat (period (vs ! j))" and ?T = "\<lambda>i. unat (cur ! i)"
  have okj: "0 < ?P" "?P dvd C" using ok j by (auto simp: list_all_length vl_ok_def)
  then have "?P \<le> C" using lt by (auto dest: dvd_imp_le)
  then have sum: "unat (cur ! j + period (vs ! j)) = unat (cur ! j) + ?P" using lt C by (simp add: unat_word_ariths)
  have len: "length cur = length vs" "evs \<noteq> []" "tables evs sch vls" using I by (simp_all add: sched_inv_def)
  have J: "unat (startTime (vs ! j)) \<le> ?T j" "?P dvd ?T j - unat (startTime (vs ! j))" "fst (last evs) \<le> ?T j"
    using I j by (auto simp: sched_inv_def)
  have set: "set evs = before vs ?T" using I by (simp add: sched_inv_def)
  then have new: "(?T j, j) \<notin> set evs" by (simp add: before_def)
  have upd: "(\<lambda>i. unat (cur[j := cur ! j + period (vs ! j)] ! i)) = ?T(j := ?T j + ?P)"
    using j len(1) sum by (auto simp: fun_eq_iff nth_list_update)
  have "tables (evs @ [(?T j, j)]) (sch[length evs - 1 := of_nat (?T j) - of_nat (fst (last evs))]) (vls[length evs := of_nat j])"
    using tables_snoc [OF len(3,2) room new] J(3) j n lt C by simp
  moreover have "set (evs @ [(?T j, j)]) = before vs (?T(j := ?T j + ?P))"
    using before_next [OF j, of ?T] J(1,2) okj(1) set by simp
  moreover have "?T j \<le> ?T i" if "i < length vs" for i using least [OF that] by (simp add: word_le_nat_alt)
  ultimately show ?thesis using I j lt J okj unfolding sched_inv_def upd
    by (auto simp: len(1) nth_list_update sum trans_le_add1 intro: dvd_add simp flip: Nat.add_diff_assoc2)
qed

lemma sched_loop_complete:
  assumes "sched_inv C vs evs cur sch vls" "list_all (vl_ok C) vs" "C < 2 ^ 30" "length vs \<le> 2 ^ 32" "vs \<noteq> []"
    and "length sch = maxs" "sum_list (map (\<lambda>v. unat (max_queue v)) vs) \<le> maxs" "vl < length vs"
  shows "\<exists>evs' sch' vls'. sched_loop (of_nat C) maxs (map period vs) (length evs - 1) (of_nat (fst (last evs))) vl cur sch vls = Some (sch', vls')
    \<and> sched_result C vs evs' sch' vls' \<and> hd evs' = hd evs \<and> length sch' = maxs"
  using assms
proof (induction "maxs - length evs" arbitrary: evs cur sch vls vl rule: less_induct)
  case less
  note I = less.prems(1) and ok = less.prems(2)
  have len: "length evs \<le> maxs" using sched_inv_length [OF I ok] less.prems(7) by linarith
  have I': "length cur = length vs" "evs \<noteq> []" "tables evs sch vls" "fst (last evs) < C" using I by (simp_all add: sched_inv_def)
  have C2: "unat (of_nat C * 2 :: u32) = 2 * C" "unat (of_nat C :: u32) = C" using less.prems(3) by (simp_all add: unat_word_ariths of_nat_u32)
  have "0 < length vs" using less.prems(5) by simp
  moreover have "unat (cur ! 0) < 2 * C"
  proof -
    have "unat (cur ! 0) < C + unat (period (vs ! 0))" "unat (period (vs ! 0)) dvd C"
      using I ok calculation by (auto simp: sched_inv_def list_all_length vl_ok_def)
    then show ?thesis using I'(4) by (auto dest!: dvd_imp_le)
  qed
  ultimately obtain j where j: "j < length vs" "min_scan cur (of_nat C * 2, vl) (\<lambda>i. i) = (cur ! j, j)"
    "\<And>k. k < length vs \<Longrightarrow> cur ! j \<le> cur ! k"
    using min_scan_least [of 0 cur "of_nat C * 2" vl "\<lambda>i. i"] I'(1) C2(1) by (auto simp: word_less_nat_alt)
  let ?sch = "sch[length evs - 1 := cur ! j - of_nat (fst (last evs))]"
  show ?case
  proof (cases "unat (cur ! j) < C")
    case True
    have lt: "length evs < maxs"
    proof -
      have "sched_inv C vs (evs @ [(unat (cur ! j), j)]) (cur[j := cur ! j + period (vs ! j)])
        ((sch @ [0])[length evs - 1 := cur ! j - of_nat (fst (last evs))]) ((vls @ [0])[length evs := of_nat j])"
        by (rule sched_inv_step [OF _ ok j(1,3) True less.prems(3,4)])
          (use I len less.prems(6) in \<open>auto simp: sched_inv_def tables_def nth_append\<close>)
      from sched_inv_length [OF this ok] show ?thesis using less.prems(7) by simp
    qed
    have "length evs < length sch" using lt less.prems(6) by simp
    note S = sched_inv_step [OF I ok j(1,3) True less.prems(3,4) this]
    have "maxs - length (evs @ [(unat (cur ! j), j)]) < maxs - length evs" using lt by simp
    from less.hyps [OF this S ok less.prems(3,4,5) _ less.prems(7) j(1)] less.prems(6)
    obtain evs' sch' vls' where R: "sched_loop (of_nat C) maxs (map period vs) (length evs) (cur ! j) j
        (cur[j := cur ! j + period (vs ! j)]) ?sch (vls[length evs := of_nat j]) = Some (sch', vls')"
      "sched_result C vs evs' sch' vls'" "hd evs' = hd evs" "length sch' = maxs" using I'(2) by auto
    have ix: "length evs - 1 < length sch" "length evs < length vls" "Suc (length evs - 1) = length evs"
      using lt less.prems(6) I'(2,3) by (auto simp: tables_def)
    have g: "int (length evs - 1) < int maxs - 1" using lt ix(3) by linarith
    have "\<not> cur ! j \<ge> of_nat C" using True C2(2) by (simp add: word_le_nat_alt)
    then have "sched_loop (of_nat C) maxs (map period vs) (length evs - 1) (of_nat (fst (last evs))) vl cur sch vls = Some (sch', vls')"
      using R(1) j(1) ix g I'(1) by (subst sched_loop.simps) (simp add: j(2) arr_set_def arr_get_def)
    then show ?thesis using R by blast
  next
    case False
    let ?vls = "if int (length evs - 1) < int maxs - 1 then vls[length evs := of_nat j] else vls"
    have ix: "length evs - 1 < length sch" "Suc (length evs - 1) = length evs"
      using len less.prems(6) I'(2) length_greater_0_conv [of evs] by linarith+
    have ge: "cur ! j \<ge> of_nat C" using False C2(2) by (simp add: word_le_nat_alt)
    have v: "int (length evs - 1) < int maxs - 1 \<Longrightarrow> length evs < length vls" using ix less.prems(6) I'(3) by (auto simp: tables_def)
    have "sched_loop (of_nat C) maxs (map period vs) (length evs - 1) (of_nat (fst (last evs))) vl cur sch vls = Some (?sch, ?vls)"
      using ge j(1) ix v I'(1) by (subst sched_loop.simps) (simp add: j(2) arr_set_def arr_get_def)
    moreover have "sched_result C vs evs ?sch ?vls"
    proof -
      have "tables evs ?sch ?vls" using I'(3) by (auto simp: tables_def nth_list_update)
      moreover have "set evs = points C vs"
      proof
        show "points C vs \<subseteq> set evs"
          using I False j(3) before_points [of vs C "\<lambda>i. unat (cur ! i)"] by (force simp: sched_inv_def word_le_nat_alt)
        show "set evs \<subseteq> points C vs"
        proof
          fix e assume e: "e \<in> set evs"
          then have "fst e \<le> last (map fst evs)" using I'(3) by (intro sorted_last) (auto simp: tables_def)
          then have "fst e < C" using I'(2,4) by (simp add: last_map)
          then show "e \<in> points C vs" using e I by (cases e) (auto simp: points_def before_def sched_inv_def)
        qed
      qed
      moreover have "C \<le> fst (last evs) + unat (cur ! j - of_nat (fst (last evs)))"
      proof -
        have le: "fst (last evs) \<le> unat (cur ! j)" using I j(1) by (auto simp: sched_inv_def)
        then have "unat (of_nat (fst (last evs)) :: u32) = fst (last evs)" by (intro of_nat_u32) (use unat_u32_lt [of "cur ! j"] in linarith)
        then have "unat (cur ! j - of_nat (fst (last evs))) = unat (cur ! j) - fst (last evs)"
          using le by (subst unat_sub) (simp_all add: word_le_nat_alt)
        then show ?thesis using le False by linarith
      qed
      ultimately show ?thesis using I'(2) ix(1) by (simp add: sched_result_def)
    qed
    ultimately show ?thesis using less.prems(6) by (intro exI [of _ evs] exI [of _ ?sch] exI [of _ ?vls]) simp
  qed
qed

text \<open>The points of the schedule, as the clock interrupt goes through the tables.\<close>

definition tick_points :: "'d tte \<Rightarrow> nat \<Rightarrow> (nat \<times> nat) list" where
  "tick_points s n = map (\<lambda>k. (unat (startTick s) + (\<Sum>j<k. unat (sched s ! j)), unat (VLsched s ! k))) [0..<n]"

lemma tables_sums:
  assumes "tables evs sch vls" "evs \<noteq> []" "k < length evs"
  shows "fst (hd evs) + (\<Sum>j<k. unat (sch ! j)) = fst (evs ! k)"
  using assms(3)
proof (induction k)
  case 0
  then show ?case using assms(2) by (simp add: hd_conv_nth)
next
  case (Suc k)
  have "sorted (map fst evs)" using assms(1) by (simp add: tables_def)
  then have "map fst evs ! k \<le> map fst evs ! Suc k" using Suc.prems by (intro sorted_nth_mono) simp_all
  then have "fst (evs ! k) \<le> fst (evs ! Suc k)" using Suc.prems by simp
  moreover have "unat (sch ! k) = fst (evs ! Suc k) - fst (evs ! k)" using assms(1) Suc.prems by (simp add: tables_def)
  ultimately show ?case using Suc.IH Suc.prems by simp
qed

lemma tick_points_result:
  assumes "tables evs (sched s) (VLsched s)" "evs \<noteq> []" "fst (hd evs) = unat (startTick s)"
  shows "tick_points s (length evs) = evs"
    "unat (startTick s) + (\<Sum>j<length evs. unat (sched s ! j)) = fst (last evs) + unat (sched s ! (length evs - 1))"
proof -
  show "tick_points s (length evs) = evs"
  proof (rule nth_equalityI)
    show "length (tick_points s (length evs)) = length evs" by (simp add: tick_points_def)
    fix k assume "k < length (tick_points s (length evs))"
    then have k: "k < length evs" by (simp add: tick_points_def)
    then show "tick_points s (length evs) ! k = evs ! k"
      using tables_sums [OF assms(1,2) k] assms(1,3) by (simp add: tick_points_def tables_def prod_eq_iff)
  qed
  show "unat (startTick s) + (\<Sum>j<length evs. unat (sched s ! j)) = fst (last evs) + unat (sched s ! (length evs - 1))"
    using tables_sums [OF assms(1,2), of "length evs - 1"] assms(2,3) lessThan_Suc [of "length evs - 1"]
    by (simp add: last_conv_nth)
qed

lemma fold_max_sched:
  assumes "unat n + sum_list (map (\<lambda>v. unat (max_queue v)) vs) < 256"
  shows "unat (fold (\<lambda>v n. n + max_queue v) vs n) = unat n + sum_list (map (\<lambda>v. unat (max_queue v)) vs)"
  using assms
proof (induction vs arbitrary: n)
  case (Cons v vs)
  have "unat (n + max_queue v) = unat n + unat (max_queue v)" using Cons.prems by (simp add: unat_word_ariths)
  then show ?case using Cons.IH [of "n + max_queue v"] Cons.prems by simp
qed simp

lemma those_map_Some: "those (map (\<lambda>i. Some (f i)) xs) = Some (map f xs)"
  by (induction xs) simp_all

text \<open>The state of the loop after its first point.\<close>

lemma sched_inv_start:
  assumes ok: "list_all (vl_ok C) vs" and j: "j < length vs" and lt: "unat (startTime (vs ! j)) < C" and C: "C < 2 ^ 30"
    and least: "\<And>i. i < length vs \<Longrightarrow> startTime (vs ! j) \<le> startTime (vs ! i)"
    and len: "length sch = length vls" "0 < length sch" "length vs \<le> 2 ^ 32"
  shows "sched_inv C vs [(unat (startTime (vs ! j)), j)] ((map startTime vs)[j := startTime (vs ! j) + period (vs ! j)]) sch (vls[0 := of_nat j])"
proof -
  let ?P = "unat (period (vs ! j))" and ?S = "\<lambda>i. unat (startTime (vs ! i))" and ?cur = "(map startTime vs)[j := startTime (vs ! j) + period (vs ! j)]"
  have V: "0 < unat (period (vs ! i))" "unat (period (vs ! i)) dvd C" "?S i \<le> unat (period (vs ! i))" if "i < length vs" for i
    using ok that by (auto simp: list_all_length vl_ok_def)
  have "?P \<le> C" using V(2) [OF j] lt by (auto dest: dvd_imp_le)
  then have sum: "unat (startTime (vs ! j) + period (vs ! j)) = ?S j + ?P" using lt C by (simp add: unat_word_ariths)
  have cur: "unat (?cur ! i) = (if i = j then ?S j + ?P else ?S i)" if "i < length vs" for i
    using that j sum by (simp add: nth_list_update)
  have "before vs (\<lambda>i. unat (?cur ! i)) = before vs (?S(j := ?S j + ?P))" using cur sum by (auto simp: before_def)
  also have "\<dots> = insert (?S j, j) (before vs ?S)" using before_next [OF j, of ?S] V(1) [OF j] by simp
  also have "before vs ?S = {}" by (auto simp: before_def)
  finally have "before vs (\<lambda>i. unat (?cur ! i)) = {(?S j, j)}" .
  moreover have "tables [(?S j, j)] sch (vls[0 := of_nat j])" using j len by (auto simp: tables_def of_nat_u32 Suc_le_eq)
  moreover have "?S i \<le> unat (?cur ! i) \<and> unat (period (vs ! i)) dvd unat (?cur ! i) - ?S i
      \<and> unat (?cur ! i) < C + unat (period (vs ! i)) \<and> ?S j \<le> unat (?cur ! i)" if i: "i < length vs" for i
    using cur [OF i] V [OF i] lt least [OF i] by (auto simp: word_le_nat_alt)
  ultimately show ?thesis using lt by (simp add: sched_inv_def)
qed

text \<open>
  C6. The schedule is complete, and computing it ends. When the period of every virtual link divides the cluster period,
  its first frame is due within its first period, its \<open>max_queue\<close> is the number of its periods in the cluster period (as \<open>tte_init_VL\<close>
  sets it for a cluster period below 256), and the tables can be counted in eight bits, then \<open>tte_generate_schedule\<close>
  returns, without leaving its tables, and the tables list in the order of time every point \<open>startTime + k * period\<close> of every link
  before the end of the cluster, each once, and then a point that is not before the end.
\<close>

theorem tte_schedule_complete:
  assumes vs: "VLarray s = map Some vs" "unat (VLsize s) = length vs" "list_all (vl_ok (unat (cluster_period s))) vs"
    and first: "\<exists>v \<in> set vs. startTime v < cluster_period s" and C: "cluster_period s < 2 ^ 30"
    and count: "sum_list (map (\<lambda>v. unat (max_queue v)) vs) < 256"
  shows "\<exists>s' n. tte_generate_schedule t s = Some s' \<and> 0 < n \<and> n \<le> unat (max_sched s') \<and> length (sched s') = unat (max_sched s')
    \<and> sorted (map fst (tick_points s' n)) \<and> distinct (tick_points s' n)
    \<and> set (tick_points s' n) = points (unat (cluster_period s)) vs
    \<and> unat (cluster_period s) \<le> unat (startTick s') + (\<Sum>j<n. unat (sched s' ! j))"
proof -
  let ?C = "unat (cluster_period s)" and ?cur = "map startTime vs" and ?m = "sum_list (map (\<lambda>v. unat (max_queue v)) vs)"
  have C': "?C < 2 ^ 30" using C by (simp add: word_less_nat_alt)
  have n: "length vs \<le> 2 ^ 32" using vs(2) unsigned_less [where 'a = nat, of "VLsize s"] by simp
  obtain i where i: "i < length ?cur" "?cur ! i < cluster_period s" using first by (auto simp: in_set_conv_nth)
  obtain j where "j < length ?cur" "min_scan ?cur (cluster_period s, None) Some = (?cur ! j, Some j)"
    "\<And>k. k < length ?cur \<Longrightarrow> ?cur ! j \<le> ?cur ! k" by (rule min_scan_least [OF i, of None Some]) blast
  then have j: "j < length vs" "min_scan ?cur (cluster_period s, None) Some = (startTime (vs ! j), Some j)"
    "\<And>k. k < length vs \<Longrightarrow> startTime (vs ! j) \<le> startTime (vs ! k)" by simp_all
  have "startTime (vs ! j) \<le> ?cur ! i" using j(3) i(1) by simp
  then have lt: "unat (startTime (vs ! j)) < ?C" using i(2) by (simp add: word_le_nat_alt word_less_nat_alt)
  have pos: "0 < ?m"
  proof -
    have "unat (max_queue (vs ! j)) = ?C div unat (period (vs ! j))" "unat (period (vs ! j)) dvd ?C" "0 < unat (period (vs ! j))"
      using vs(3) j(1) by (auto simp: list_all_length vl_ok_def)
    then have "0 < unat (max_queue (vs ! j))" using lt by (auto dest: dvd_imp_le simp: div_greater_zero_iff)
    then show ?thesis using j(1) member_le_sum_list [of "unat (max_queue (vs ! j))" "map (\<lambda>v. unat (max_queue v)) vs"] by force
  qed
  define ms where "ms = fold (\<lambda>v n. n + max_queue v) vs 0"
  have ms: "unat ms = ?m" using fold_max_sched [of 0 vs] count by (simp add: ms_def)
  let ?sch = "map (malloc_word t) [0..<?m]"
  have "sched_inv ?C vs [(unat (startTime (vs ! j)), j)] (?cur[j := startTime (vs ! j) + period (vs ! j)]) ?sch (?sch[0 := of_nat j])"
    by (rule sched_inv_start) (use vs(3) j lt C' pos n in auto)
  moreover have "vs \<noteq> []" using j(1) by auto
  ultimately have "\<exists>evs' sch' vls'. sched_loop (cluster_period s) ?m (map period vs) 0 (startTime (vs ! j)) j
      (?cur[j := startTime (vs ! j) + period (vs ! j)]) ?sch (?sch[0 := of_nat j]) = Some (sch', vls')
    \<and> sched_result ?C vs evs' sch' vls' \<and> hd evs' = (unat (startTime (vs ! j)), j) \<and> length sch' = ?m"
    using sched_loop_complete [OF _ vs(3) C' n, of _ _ _ _ ?m j] j(1) by fastforce
  then
  obtain evs sch vls where L: "sched_loop (cluster_period s) ?m (map period vs) 0 (startTime (vs ! j)) j
      (?cur[j := startTime (vs ! j) + period (vs ! j)]) ?sch (?sch[0 := of_nat j]) = Some (sch, vls)"
    "sched_result ?C vs evs sch vls" "hd evs = (unat (startTime (vs ! j)), j)" "length sch = ?m"
    by blast
  have R: "evs \<noteq> []" "tables evs sch vls" "set evs = points ?C vs" "?C \<le> fst (last evs) + unat (sch ! (length evs - 1))"
    using L(2) by (simp_all add: sched_result_def)
  define s' where "s' = s\<lparr>max_sched := ms, startTick := startTime (vs ! j), sched := sch, VLsched := vls\<rparr>"
  have g: "map (\<lambda>i. get_vl i s) [0..<length vs] = map (\<lambda>i. Some (vs ! i)) [0..<length vs]" by (simp add: get_vl_def vs(1))
  have "those (map (\<lambda>i. get_vl i s) [0..<unat (VLsize s)]) = Some vs"
    unfolding vs(2) g those_map_Some by (simp add: map_nth)
  then have run: "tte_generate_schedule t s = Some s'"
    using j L(1) ms pos by (simp add: tte_generate_schedule_def arr_get_def arr_set_def ms_def [symmetric] s'_def)
  note pts = tick_points_result [of evs s']
  show ?thesis
    using run pts R L(3,4) ms by (intro exI [of _ s'] exI [of _ "length evs"]) (simp add: s'_def tables_def)
qed

text \<open>A node with two links of its own and the link of the integration frames, in a cluster of eight units.\<close>

definition demo_vl :: "u32 \<Rightarrow> u32 \<Rightarrow> VL" where
  "demo_vl start per = \<lparr>max_queue = ucast (8 div per), startTime = start, period = per, queue = replicate (8 div unat per) 0,
     sizeQueue = replicate (8 div unat per) 0, addplace = 0, rmplace = 0\<rparr>"

definition demo_vls :: "VL list" where
  "demo_vls = [demo_vl 1 4, demo_vl 2 2, demo_vl 4 4]"

definition demo_tte :: "'d \<Rightarrow> 'd tte" where
  "demo_tte d = \<lparr>eth_dev = d, eth_buf = \<lambda>_. 0, TTE_MAX_TRANS_DELAY = 100, TTE_COMP_DELAY = 10, TTE_PRECISION = 50, integration_period = 32000,
     integration_cycle = 0, cluster_period = 8, tte_current_time = 0, timer_time = 0, clock_err = 0, clock_err_integral = 0,
     CT_marker = [0xAB, 0xAD, 0xBA, 0xBE], max_sched = 0, tte_mac = replicate 6 0, send_times = replicate 2000 0, send_time_i = 0,
     VLarray = map Some demo_vls, VLsize = 3, sched = [], VLsched = [], startTick = 0, schedplace = 0, tte_receive_log_max_time = 0,
     handle_integration_frame_log_max_time = 0, tte_clear_free_rx_buffer_max_time = 0\<rparr>"

definition demo_tif :: "unit tte_if" where
  "demo_tif = \<lparr>loclk = Pair 0, cpu_cycles = Pair 0, arm_timer = \<lambda>_ d. d, exc_reg = \<lambda>_ _ d. d, intr_unmask = \<lambda>_ d. d,
     intr_clear_all_pending = \<lambda>d. d, intr_enable = \<lambda>d. d, malloc_word = \<lambda>_. 0\<rparr>"

theorem tte_schedule_complete_witness:
  "\<exists>s' n. tte_generate_schedule demo_tif (demo_tte ()) = Some s' \<and> sorted (map fst (tick_points s' n)) \<and> set (tick_points s' n) = points 8 demo_vls
     \<and> (5, 0) \<in> set (tick_points s' n) \<and> (4, 2) \<in> set (tick_points s' n)"
proof -
  have "list_all (vl_ok (unat (cluster_period (demo_tte ())))) demo_vls" by (simp add: demo_tte_def demo_vls_def vl_ok_def demo_vl_def)
  moreover have "\<exists>v \<in> set demo_vls. startTime v < cluster_period (demo_tte ())" by (simp add: demo_tte_def demo_vls_def demo_vl_def)
  ultimately obtain s' n where "tte_generate_schedule demo_tif (demo_tte ()) = Some s'" "sorted (map fst (tick_points s' n))"
    "set (tick_points s' n) = points 8 demo_vls"
    using tte_schedule_complete [of "demo_tte ()" demo_vls demo_tif] by (auto simp: demo_tte_def demo_vls_def demo_vl_def)
  then show ?thesis by (intro exI [of _ s'] exI [of _ n]) (simp add: points_def demo_vls_def demo_vl_def numeral_3_eq_3)
qed

section \<open>The queue of a link\<close>

text \<open>
  What a bounded first-in first-out queue promises: \<open>rep q xs\<close> says that \<open>q\<close> holds \<open>xs\<close>. A full queue refuses.
\<close>

locale fifo_queue =
  fixes cap :: nat and rep :: "'q \<Rightarrow> 'a list \<Rightarrow> bool" and valid :: "'a \<Rightarrow> bool"
    and push :: "'a \<Rightarrow> 'q \<Rightarrow> (bool \<times> 'q) option" and pop :: "'q \<Rightarrow> ('a \<times> 'q) option"
  assumes bounded: "rep q xs \<Longrightarrow> length xs \<le> cap"
    and push_room: "rep q xs \<Longrightarrow> valid x \<Longrightarrow> length xs < cap \<Longrightarrow> \<exists>q'. push x q = Some (True, q') \<and> rep q' (xs @ [x])"
    and push_full: "rep q xs \<Longrightarrow> length xs = cap \<Longrightarrow> push x q = Some (False, q)"
    and pop_first: "rep q (x # xs) \<Longrightarrow> \<exists>q'. pop q = Some (x, q') \<and> rep q' xs"
begin

lemma push_cases:
  assumes "rep q xs" "valid x"
  obtains q' where "push x q = Some (length xs < cap, q')" "rep q' (if length xs < cap then xs @ [x] else xs)"
proof (cases "length xs < cap")
  case True
  from push_room [OF assms True] show thesis using that True by auto
next
  case False
  with bounded [OF assms(1)] have "length xs = cap" by simp
  from push_full [OF assms(1) this] show thesis using that [of q] False assms(1) by simp
qed

end

definition vl_rep :: "nat \<Rightarrow> VL \<Rightarrow> (u32 \<times> u32) list \<Rightarrow> bool" where
  "vl_rep m v xs \<longleftrightarrow> 0 < m \<and> unat (max_queue v) = m \<and> length (queue v) = m \<and> length (sizeQueue v) = m \<and> unat (rmplace v) < m
     \<and> length xs \<le> m \<and> unat (addplace v) = (unat (rmplace v) + length xs) mod m
     \<and> (\<forall>j<m. queue v ! ((unat (rmplace v) + j) mod m) = (if j < length xs then fst (xs ! j) else 0))
     \<and> (\<forall>j<length xs. sizeQueue v ! ((unat (rmplace v) + j) mod m) = snd (xs ! j) \<and> fst (xs ! j) \<noteq> 0)"

definition vl_pop :: "VL \<Rightarrow> ((u32 \<times> u32) \<times> VL) option" where
  "vl_pop v = do { (x, v) \<leftarrow> vl_take v; Some (x, vl_advance v) }"

lemma mod_inj_le: "(r + i) mod m = (r + j) mod m \<Longrightarrow> i \<le> j \<Longrightarrow> j < (m :: nat) \<Longrightarrow> i = j"
  using mod_eq_dvd_iff_nat [of "r + i" "r + j" m] by (auto dest: dvd_imp_le)

lemma mod_inj: "(r + i) mod m = (r + j) mod m \<Longrightarrow> i < m \<Longrightarrow> j < (m :: nat) \<Longrightarrow> i = j"
  using mod_inj_le [of r i m j] mod_inj_le [of r j m i] by linarith

lemma u8_next:
  assumes "unat (p :: u8) < m" "unat (mq :: u8) = m"
  shows "unat (if p + 1 = mq then 0 else p + 1) = (unat p + 1) mod m"
proof -
  have "unat mq < 256" using unsigned_less [where 'a = nat, of mq] by simp
  then have "unat (p + 1) = unat p + 1" using assms by (simp add: unat_word_ariths)
  then show ?thesis using assms by (auto simp: word_unat_eq_iff)
qed

lemma vl_push_room:
  assumes R: "vl_rep m v xs" and x: "fst x \<noteq> 0" and room: "length xs < m"
  shows "\<exists>v'. vl_push (fst x) (snd x) v = Some (True, v') \<and> vl_rep m v' (xs @ [x])"
proof -
  let ?r = "unat (rmplace v)" and ?a = "unat (addplace v)"
  have V: "0 < m" "unat (max_queue v) = m" "length (queue v) = m" "length (sizeQueue v) = m" "?r < m" "?a = (?r + length xs) mod m"
    using R by (simp_all add: vl_rep_def)
  have a: "?a < m" using V(1,6) by simp
  have z: "queue v ! ?a = 0" using R room V(6) by (simp add: vl_rep_def)
  define v' where "v' = (let v = v\<lparr>queue := (queue v)[?a := fst x], sizeQueue := (sizeQueue v)[?a := snd x], addplace := addplace v + 1\<rparr>
     in if addplace v = max_queue v then v\<lparr>addplace := 0\<rparr> else v)"
  have p: "vl_push (fst x) (snd x) v = Some (True, v')" using a z V by (simp add: vl_push_def arr_get_def arr_set_def v'_def Let_def)
  have f: "queue v' = (queue v)[?a := fst x]" "sizeQueue v' = (sizeQueue v)[?a := snd x]" "rmplace v' = rmplace v" "max_queue v' = max_queue v"
    "addplace v' = (if addplace v + 1 = max_queue v then 0 else addplace v + 1)" by (simp_all add: v'_def Let_def)
  have "unat (addplace v') = (?r + length (xs @ [x])) mod m"
    unfolding f(5) u8_next [OF a V(2)] V(6) by (simp add: mod_Suc_eq)
  moreover have "queue v' ! ((?r + j) mod m) = (if j < length (xs @ [x]) then fst ((xs @ [x]) ! j) else 0)" if j: "j < m" for j
    using R j mod_inj [of ?r j m "length xs"] room V f(1)
    by (cases "j = length xs") (auto simp: vl_rep_def nth_append nth_list_update)
  moreover have "sizeQueue v' ! ((?r + j) mod m) = snd ((xs @ [x]) ! j) \<and> fst ((xs @ [x]) ! j) \<noteq> 0" if j: "j < length (xs @ [x])" for j
    using R j mod_inj [of ?r j m "length xs"] room V f(2) x
    by (cases "j = length xs") (auto simp: vl_rep_def nth_append nth_list_update)
  ultimately have "vl_rep m v' (xs @ [x])" using V room f unfolding vl_rep_def by simp
  then show ?thesis using p by blast
qed

lemma vl_push_full:
  assumes R: "vl_rep m v xs" and full: "length xs = m"
  shows "vl_push a z v = Some (False, v)"
proof -
  have V: "length (queue v) = m" "unat (rmplace v) < m" "unat (addplace v) = (unat (rmplace v) + m) mod m" "0 < m"
    using R full by (simp_all add: vl_rep_def)
  then have e: "unat (addplace v) = unat (rmplace v)" by simp
  have "queue v ! ((unat (rmplace v) + j) mod m) = fst (xs ! j) \<and> fst (xs ! j) \<noteq> 0" if "j < m" for j
    using R full that by (simp add: vl_rep_def)
  from this [of 0] show ?thesis using V e by (simp add: vl_push_def arr_get_def)
qed

lemma vl_pop_first:
  assumes R: "vl_rep m v (x # xs)"
  shows "\<exists>v'. vl_pop v = Some (x, v') \<and> vl_rep m v' xs"
proof -
  let ?r = "unat (rmplace v)"
  have V: "0 < m" "unat (max_queue v) = m" "length (queue v) = m" "length (sizeQueue v) = m" "?r < m" "length xs < m"
    "unat (addplace v) = (?r + Suc (length xs)) mod m" using R by (simp_all add: vl_rep_def)
  have q: "queue v ! ?r = fst x" "sizeQueue v ! ?r = snd x" using R V by (force simp: vl_rep_def)+
  define v' where "v' = vl_advance (v\<lparr>queue := (queue v)[?r := 0]\<rparr>)"
  have p: "vl_pop v = Some (x, v')" using V q by (simp add: vl_pop_def vl_take_def arr_get_def arr_set_def v'_def)
  have f: "queue v' = (queue v)[?r := 0]" "sizeQueue v' = sizeQueue v" "addplace v' = addplace v" "max_queue v' = max_queue v"
    "rmplace v' = (if rmplace v + 1 = max_queue v then 0 else rmplace v + 1)" by (simp_all add: v'_def vl_advance_def Let_def)
  have r': "unat (rmplace v') = (?r + 1) mod m" unfolding f(5) by (rule u8_next [OF V(5,2)])
  have shift: "(unat (rmplace v') + j) mod m = (?r + Suc j) mod m" for j unfolding r' by (simp add: mod_add_left_eq)
  have "queue v' ! ((unat (rmplace v') + j) mod m) = (if j < length xs then fst (xs ! j) else 0)" if j: "j < m" for j
  proof (cases "Suc j < m")
    case True
    have "(?r + Suc j) mod m \<noteq> (?r + 0) mod m" using mod_inj [of ?r "Suc j" m 0] True by auto
    then have "queue v' ! ((?r + Suc j) mod m) = queue v ! ((?r + Suc j) mod m)" using V by (simp add: f(1) nth_list_update)
    then show ?thesis using R True unfolding shift by (auto simp: vl_rep_def)
  next
    case False
    then have "Suc j = m" using j by simp
    then have "(?r + Suc j) mod m = ?r" using V by simp
    then show ?thesis using V False j unfolding shift by (simp add: f(1))
  qed
  moreover have "sizeQueue v' ! ((unat (rmplace v') + j) mod m) = snd (xs ! j) \<and> fst (xs ! j) \<noteq> 0" if j: "j < length xs" for j
    using R j unfolding shift f(2) by (auto simp: vl_rep_def)
  moreover have "unat (addplace v') = (unat (rmplace v') + length xs) mod m" using V(7) f(3) shift [of "length xs"] by simp
  ultimately have "vl_rep m v' xs" using V f r' unfolding vl_rep_def by simp
  then show ?thesis using p by blast
qed

interpretation vlq: fifo_queue m "vl_rep m" "\<lambda>x. fst x \<noteq> 0" "\<lambda>x. vl_push (fst x) (snd x)" vl_pop for m
  by unfold_locales (auto simp: vl_push_full intro: vl_push_room vl_pop_first, simp add: vl_rep_def)

text \<open>Sending does not touch the links.\<close>

lemma eth_io_VLarray [simp]:
  "VLarray (eth_iowr io a d (s :: 'd tte)) = VLarray s" "VLarray (snd (eth_iord io a (s :: 'd tte))) = VLarray s"
  by (simp_all add: eth_iowr_def eth_iord_def split: prod.split)

lemma eth_send_wait_done_VLarray:
  assumes "eth_send_wait_done io dn (s :: 'd tte) = Some s'"
  shows "VLarray s' = VLarray s"
proof (rule eth_send_wait_done.raw_induct [where P = "\<lambda>io dn s s'. VLarray s' = VLarray s", OF _ assms])
  fix f io dn and s s' :: "'d tte"
  assume IH: "\<And>io dn s s'. f io dn s = Some s' \<Longrightarrow> VLarray s' = VLarray s"
    and run: "(if dn = 0 then case eth_iord io INT_SOURCE_ADDR s of (v, s) \<Rightarrow> f io (ucast (v AND 1)) s else Some s) = Some s'"
  show "VLarray s' = VLarray s"
    using run IH eth_io_VLarray(2) [of io INT_SOURCE_ADDR s]
    by (cases "eth_iord io INT_SOURCE_ADDR s") (auto split: if_splits)
qed

lemma eth_mac_send_VLarray: "eth_mac_send io a z (s :: 'd tte) = Some s' \<Longrightarrow> VLarray s' = VLarray s"
  unfolding eth_mac_send_def eth_send_wait_free_once by (auto dest: eth_send_wait_done_VLarray)

text \<open>A controller that is always done.\<close>

definition ready_eif :: "unit eth_if" where
  "ready_eif = \<lparr>dev_read = \<lambda>_ d m. (1, d, m), dev_write = \<lambda>_ _ d m. (d, m), dev_usecs = \<lambda>d m. (0, d, m)\<rparr>"

section \<open>Waiting and synchronisation\<close>

lemma tte_poll_never:
  assumes "\<And>s :: 'd tte. fst (eth_iord io 0x04 s) AND 0x4 = 0"
  shows "tte_poll io s = None"
proof (rule ccontr)
  assume "tte_poll io s \<noteq> None"
  then obtain s' where "tte_poll io s = Some s'" by auto
  then have "\<not> (\<forall>s :: 'd tte. fst (eth_iord io 0x04 s) AND 0x4 = 0)"
  proof (rule tte_poll.raw_induct [where P = "\<lambda>io s s'. \<not> (\<forall>s :: 'd tte. fst (eth_iord io 0x04 s) AND 0x4 = 0)", rotated])
    fix f and io :: "'d eth_if" and s s' :: "'d tte"
    assume IH: "\<And>io s s'. f io s = Some s' \<Longrightarrow> \<not> (\<forall>s :: 'd tte. fst (eth_iord io 0x04 s) AND 0x4 = 0)"
      and run: "(case eth_iord io 4 s of (v, s) \<Rightarrow> if v AND 4 = 0 then f io s else Some s) = Some s'"
    obtain v s1 where r: "eth_iord io 4 s = (v, s1)" by fastforce
    show "\<not> (\<forall>s :: 'd tte. fst (eth_iord io 0x04 s) AND 0x4 = 0)"
    proof (cases "v AND 4 = 0")
      case True
      from run have "f io s1 = Some s'" unfolding r prod.case if_P [OF True] .
      then show ?thesis by (rule IH)
    next
      case False
      then have "fst (eth_iord io 4 s) AND 4 \<noteq> 0" unfolding r fst_conv .
      then show ?thesis by blast
    qed
  qed
  then show False using assms by blast
qed

text \<open>
  C36. The timeout of \<open>tte_wait_for_message\<close> has no effect: with a controller that never announces a frame the
  function does not return, whatever the timeout is and however the clock advances.
\<close>

theorem tte_wait_ignores_timeout:
  assumes "\<And>s :: 'd tte. fst (eth_iord io 0x04 s) AND 0x4 = 0"
  shows "tte_wait_for_message io t receive_point timeout s = None"
  using tte_poll_never [OF assms] by (simp add: tte_wait_for_message_def split: prod.split)

theorem tte_wait_ignores_timeout_witness:
  "tte_wait_for_message \<lparr>dev_read = \<lambda>_ n m. (0, n + 1, m), dev_write = \<lambda>_ _ n m. (n, m), dev_usecs = \<lambda>n m. (n, n, m)\<rparr>
     \<lparr>loclk = \<lambda>n. (ucast n, n), cpu_cycles = \<lambda>n. (n, n + 1), arm_timer = \<lambda>_ d. d, exc_reg = \<lambda>_ _ d. d, intr_unmask = \<lambda>_ d. d,
       intr_clear_all_pending = \<lambda>d. d, intr_enable = \<lambda>d. d, malloc_word = \<lambda>_. 0\<rparr> 0 100
     (demo_tte (0 :: u64)) = None"
  by (rule tte_wait_ignores_timeout) (simp add: eth_iord_def)

text \<open>The point in time a frame stands for, and the point at which it was expected.\<close>

definition permanence_pit :: "u32 \<Rightarrow> u64 \<Rightarrow> 'd tte \<Rightarrow> u64" where
  "permanence_pit addr receive_pit s = receive_pit + (ucast (TTE_MAX_TRANS_DELAY s) - transClk_to_clk (rd_trans_clock (eth_buf s) addr))"

definition frame_delay :: "'d tte \<Rightarrow> nat" where
  "frame_delay s = 2 * unat (TTE_MAX_TRANS_DELAY s) + unat (TTE_COMP_DELAY s)"

lemma unat_u64_add: "unat (a :: u64) + unat b < 2 ^ 64 \<Longrightarrow> unat (a + b) = unat a + unat b"
  by (simp add: unat_word_ariths)

lemma frame_delay_words:
  assumes "frame_delay s < 2 ^ 32"
  shows "(ucast (2 * TTE_MAX_TRANS_DELAY s + TTE_COMP_DELAY s) :: u64) = of_nat (frame_delay s)"
    "(ucast (2 * TTE_MAX_TRANS_DELAY s) :: u64) + ucast (TTE_COMP_DELAY s) = of_nat (frame_delay s)"
proof -
  let ?D = "TTE_MAX_TRANS_DELAY s" and ?C = "TTE_COMP_DELAY s"
  have "unat (2 * ?D) = 2 * unat ?D" using assms by (simp add: frame_delay_def unat_word_ariths)
  moreover from this have "unat (2 * ?D + ?C) = frame_delay s" using assms by (simp add: frame_delay_def unat_word_ariths)
  moreover have "(ucast x :: u64) = of_nat (unat x)" for x :: u32 by simp
  ultimately show "(ucast (2 * ?D + ?C) :: u64) = of_nat (frame_delay s)" "(ucast (2 * ?D) :: u64) + ucast ?C = of_nat (frame_delay s)"
    by (metis, metis frame_delay_def of_nat_add)
qed

lemma handle_integration_frame_cases:
  fixes addr :: u32 and receive_pit :: u64
  assumes d: "frame_delay s < 2 ^ 32"
  defines "p \<equiv> permanence_pit addr receive_pit s"
  defines "time \<equiv> (if tte_current_time s = 0 then p - of_nat (frame_delay s) else tte_current_time s)"
  defines "point \<equiv> time + of_nat (frame_delay s)"
  shows "case handle_integration_frame t addr receive_pit s of (ok, s') \<Rightarrow>
    (ok \<longleftrightarrow> point - ucast (TTE_PRECISION s) < p \<and> p < point + ucast (TTE_PRECISION s)) \<and>
    tte_current_time s' = (if ok then p - of_nat (frame_delay s) + ucast (integration_period s) else 0) \<and>
    integration_cycle s' = rd_integration_cycle (eth_buf s) addr \<and>
    (ok \<and> integration_cycle s' = 0 \<longrightarrow> schedplace s' = 0 \<and> timer_time s' = p - of_nat (frame_delay s) + ucast (CYCLES_PER_UNIT * startTick s)
       \<and> eth_dev s' = arm_timer t (timer_time s') (eth_dev s))"
proof -
  have a: "x + ucast (2 * TTE_MAX_TRANS_DELAY s) + ucast (TTE_COMP_DELAY s) = x + of_nat (frame_delay s)" for x :: u64
    using frame_delay_words(2) [OF d] by (simp only: add.assoc)
  have e: "time + (p - point) = p - of_nat (frame_delay s)" by (simp add: point_def)
  show ?thesis
    unfolding handle_integration_frame_def Let_def arm_clock_timer_def
    using e by (simp add: a frame_delay_words(1) [OF d] permanence_pit_def [symmetric] p_def [symmetric] point_def time_def)
qed

lemma window_iff:
  assumes "unat c \<le> unat (q :: u64)" "unat q + unat c < 2 ^ 64"
  shows "q - c < p \<and> p < q + c \<longleftrightarrow> \<bar>int (unat p) - int (unat q)\<bar> < int (unat c)"
proof -
  have "unat (q - c) = unat q - unat c" using assms(1) by (simp add: unat_sub word_le_nat_alt)
  moreover have "unat (q + c) = unat q + unat c" using assms(2) by (rule unat_u64_add)
  ultimately show ?thesis using assms(1) unfolding word_less_nat_alt by linarith
qed

text \<open>
  C21. Synchronisation with the network. Let \<open>p\<close> be the point in time an integration frame stands for, and \<open>q\<close> the point at which the node expects it; a node
  that is not synchronised, with time 0, expects every frame. The frame is accepted exactly when \<open>p\<close> is closer to \<open>q\<close> than the
  precision. After an accepted frame the time of the node is that of the network, whatever its error was, and when the frame
  starts a cycle the timer is armed for the first point of the schedule. After a rejected frame the node is not synchronised, so that the next
  frame is accepted.
\<close>

theorem tte_synchronises:
  assumes d: "frame_delay s < 2 ^ 32" and prec: "0 < TTE_PRECISION s"
    and p: "p = permanence_pit addr receive_pit s" and q: "q = (if tte_current_time s = 0 then unat p else unat (tte_current_time s) + frame_delay s)"
    and range: "unat (TTE_PRECISION s) \<le> q" "q + unat (TTE_PRECISION s) < 2 ^ 64"
  shows "\<exists>ok s'. handle_integration_frame t addr receive_pit s = (ok, s') \<and>
    (ok \<longleftrightarrow> \<bar>int (unat p) - int q\<bar> < int (unat (TTE_PRECISION s))) \<and>
    tte_current_time s' = (if ok then p - of_nat (frame_delay s) + ucast (integration_period s) else 0) \<and>
    (ok \<and> rd_integration_cycle (eth_buf s) addr = 0 \<longrightarrow> schedplace s' = 0
       \<and> eth_dev s' = arm_timer t (p - of_nat (frame_delay s) + ucast (CYCLES_PER_UNIT * startTick s)) (eth_dev s)) \<and>
    (tte_current_time s = 0 \<longrightarrow> ok)"
proof -
  define point where "point = (if tte_current_time s = 0 then p - of_nat (frame_delay s) else tte_current_time s) + of_nat (frame_delay s)"
  have "unat (of_nat (frame_delay s) :: u64) = frame_delay s" using d by (simp add: unat_of_nat take_bit_nat_eq_self)
  then have point: "unat point = q" using range(2) q unat_u64_add [of "tte_current_time s" "of_nat (frame_delay s)"] by (auto simp: point_def)
  have c: "unat (ucast (TTE_PRECISION s) :: u64) = unat (TTE_PRECISION s)"
    unfolding unsigned_ucast_eq by (rule take_bit_nat_eq_self) (use unat_u32_lt [of "TTE_PRECISION s"] in simp)
  have "point - ucast (TTE_PRECISION s) < p \<and> p < point + ucast (TTE_PRECISION s) \<longleftrightarrow> \<bar>int (unat p) - int q\<bar> < int (unat (TTE_PRECISION s))"
    using window_iff [of "ucast (TTE_PRECISION s)" point p] range unfolding c point by simp
  moreover have "\<bar>int (unat p) - int q\<bar> < int (unat (TTE_PRECISION s))" if "tte_current_time s = 0"
  proof -
    have "q = unat p" "0 < unat (TTE_PRECISION s)" using q prec that by (simp_all add: word_less_nat_alt)
    then show ?thesis by linarith
  qed
  ultimately show ?thesis
    using handle_integration_frame_cases [OF d, of addr receive_pit t] unfolding p [symmetric] point_def [symmetric]
    by (auto split: prod.splits)
qed

theorem tte_synchronises_witness:
  "\<exists>s'. handle_integration_frame demo_tif 0x800 1000 (demo_tte ()) = (True, s') \<and> tte_current_time s' = 1100 - 210 + 32000"
proof -
  have d: "frame_delay (demo_tte ()) = 210" by (simp add: frame_delay_def demo_tte_def)
  have p: "permanence_pit 0x800 1000 (demo_tte ()) = 1100"
    by (simp add: permanence_pit_def demo_tte_def rd_trans_clock_def transClk_to_clk_def mem_iord_byte_def)
  have z: "tte_current_time (demo_tte ()) = 0" "TTE_PRECISION (demo_tte ()) = 50" "integration_period (demo_tte ()) = 32000"
    by (simp_all add: demo_tte_def)
  obtain ok s' where h: "handle_integration_frame demo_tif 0x800 1000 (demo_tte ()) = (ok, s')" by fastforce
  have "ok \<and> tte_current_time s' = (if ok then 1100 - of_nat 210 + 32000 else 0)"
    using tte_synchronises [OF _ _ p [symmetric] refl, of demo_tif] unfolding d z h by simp
  then show ?thesis using h by simp
qed

text \<open>
  The conversion of the transparent clock divides by 125 by a multiplication and a shift; it is exact up to 6,100,749
  units.
\<close>

lemma unat_drop_bit_u64: "unat (drop_bit n (w :: u64)) = unat w div 2 ^ n"
  using unsigned_less [where 'a = nat, of w] by (simp only: unsigned_drop_bit_eq) (simp add: drop_bit_eq_div take_bit_nat_eq_self)

lemma div_125: "y < 6100750 \<Longrightarrow> y * 536871 div 2 ^ 26 = (y :: nat) div 125"
proof -
  assume y: "y < 6100750"
  define a b where "a = y div 125" "b = y mod 125"
  have e: "y = 125 * a + b" "b \<le> 124" "a \<le> 48805" using y by (auto simp: a_b_def)
  then have "y * 536871 = 2 ^ 26 * a + (11 * a + b * 536871)" "11 * a + b * 536871 < 2 ^ 26" by simp_all
  then have "y * 536871 div 2 ^ 26 = a" by simp
  then show ?thesis by (simp add: a_b_def)
qed

lemma transClk_to_clk_exact:
  assumes "unat x * 10 < 2 ^ 16 * 6100750"
  shows "unat (transClk_to_clk x) = unat x * 10 div 2 ^ 16 div 125"
proof -
  let ?y = "unat x * 10 div 2 ^ 16"
  have y: "?y < 6100750" using assms by (simp add: less_mult_imp_div_less)
  have "unat (x * 10) = unat x * 10" using assms by (simp add: unat_word_ariths)
  then have "unat (drop_bit 16 (x * 10)) = ?y" by (simp only: unat_drop_bit_u64)
  then have "unat (drop_bit 16 (x * 10) * 536871) = ?y * 536871" using y by (simp add: unat_word_ariths)
  then have "unat (transClk_to_clk x) = ?y * 536871 div 2 ^ 26"
    by (simp only: transClk_to_clk_def unat_drop_bit_u64)
  also have "\<dots> = ?y div 125" by (rule div_125 [OF y])
  finally show ?thesis .
qed

end
