(* ===== verification/Eth_Links.thy ===== *)
theory Eth_Links
  imports Eth_TTE
begin

text \<open>
  The virtual links of \<open>c/ethlib/tte.c\<close> under interrupts: the main program calls \<open>tte_schedule_send\<close>, and the
  clock interrupt, which takes frames from the same queues, may come between any two of its accesses to a queue.
  What is sent is read off the writes to the registers of the Ethernet controller.
\<close>

section \<open>The writes to the controller\<close>

text \<open>A controller together with the list of the writes to its registers.\<close>

type_synonym reg_log = "(widx \<times> u32) list"

definition recording :: "'d eth_if \<Rightarrow> ('d \<times> reg_log) eth_if" where
  "recording io =
     \<lparr>dev_read = \<lambda>a (d, l) m. (case dev_read io a d m of (v, d, m) \<Rightarrow> (v, (d, l), m)),
      dev_write = \<lambda>a x (d, l) m. (case dev_write io a x d m of (d, m) \<Rightarrow> ((d, l @ [(a, x)]), m)),
      dev_usecs = \<lambda>(d, l) m. (case dev_usecs io d m of (t, d, m) \<Rightarrow> (t, (d, l), m))\<rparr>"

text \<open>
  The frames the controller sends, as pairs of buffer address and length: a write of the first transmit descriptor
  with the ready bit starts a transmission from the address its pointer has at that time. \<open>p\<close> is the pointer before.
\<close>

fun frames_of :: "u32 \<Rightarrow> reg_log \<Rightarrow> (u32 \<times> u32) list" where
  "frames_of p [] = []"
| "frames_of p ((a, x) # ws) =
     (if a = buff_idx (TX_BD_ADDR_BASE + 4) then frames_of x ws
      else if a = buff_idx TX_BD_ADDR_BASE \<and> x AND TX_BD_READY_BIT \<noteq> 0 then (p, drop_bit 16 x) # frames_of p ws
      else frames_of p ws)"

definition tx_frames :: "('d \<times> reg_log) tte \<Rightarrow> (u32 \<times> u32) list" where
  "tx_frames s = frames_of 0 (snd (eth_dev s))"

section \<open>The main program and the interrupt\<close>

text \<open>
  \<open>tte_schedule_send\<close> access by access: the test of the place, the address, the size, the increment and the wrap-around of the
  index. The interrupt does not use \<open>addplace\<close>, so that the increment and the wrap-around are one step each.
\<close>

datatype sched_pc = P_test | P_addr | P_size | P_inc | P_wrap | P_ret bool

fun sched_access :: "u32 \<Rightarrow> u32 \<Rightarrow> sched_pc \<Rightarrow> VL \<Rightarrow> (sched_pc \<times> VL) option" where
  "sched_access a z P_test v =
     do { q \<leftarrow> arr_get (queue v) (unat (addplace v)); Some (if q = 0 then P_addr else P_ret False, v) }"
| "sched_access a z P_addr v =
     do { qs \<leftarrow> arr_set (queue v) (unat (addplace v)) a; Some (P_size, v\<lparr>queue := qs\<rparr>) }"
| "sched_access a z P_size v =
     do { ss \<leftarrow> arr_set (sizeQueue v) (unat (addplace v)) z; Some (P_inc, v\<lparr>sizeQueue := ss\<rparr>) }"
| "sched_access a z P_inc v = Some (P_wrap, v\<lparr>addplace := addplace v + 1\<rparr>)"
| "sched_access a z P_wrap v = Some (P_ret True, if addplace v = max_queue v then v\<lparr>addplace := 0\<rparr> else v)"
| "sched_access a z (P_ret ok) v = Some (P_ret ok, v)"

text \<open>A call: the link, the address and the size of the frame.\<close>

type_synonym link_call = "u8 \<times> u32 \<times> u32"

text \<open>
  The state: the node, the call the main program is in, the calls it is still to make, those that have returned with their results,
  the frames sent on each link, and the positions among them at which the interrupt took a frame whose size was not yet written.
\<close>

record 'd vl_system =
  node :: "('d \<times> reg_log) tte"
  in_call :: "(link_call \<times> sched_pc) option"
  todo :: "link_call list"
  returned :: "(link_call \<times> bool) list"
  transmitted :: "u8 \<Rightarrow> (u32 \<times> u32) list"
  torn :: "u8 \<Rightarrow> nat set"

definition links_init :: "('d \<times> reg_log) tte \<Rightarrow> link_call list \<Rightarrow> 'd vl_system" where
  "links_init s calls = \<lparr>node = s, in_call = None, todo = calls, returned = [], transmitted = \<lambda>_. [], torn = \<lambda>_. {}\<rparr>"

definition prog_step :: "'d vl_system \<Rightarrow> 'd vl_system option" where
  "prog_step r =
     (case in_call r of
        None \<Rightarrow> (case todo r of [] \<Rightarrow> Some r | c # cs \<Rightarrow> Some (r\<lparr>in_call := Some (c, P_test), todo := cs\<rparr>))
      | Some (c, P_ret ok) \<Rightarrow> Some (r\<lparr>in_call := None, returned := returned r @ [(c, ok)]\<rparr>)
      | Some ((i, a, z), pc) \<Rightarrow> do {
          v \<leftarrow> get_vl (unat i) (node r);
          (pc, v) \<leftarrow> sched_access a z pc v;
          Some (r\<lparr>node := put_vl (unat i) v (node r), in_call := Some ((i, a, z), pc)\<rparr>)
        })"

text \<open>The address of the next frame of the link is written, and its size is not.\<close>

definition half_written :: "u8 \<Rightarrow> 'd vl_system \<Rightarrow> bool" where
  "half_written i r \<longleftrightarrow>
     (case (in_call r, get_vl (unat i) (node r)) of
        (Some ((j, _, _), P_size), Some v) \<Rightarrow> j = i \<and> rmplace v = addplace v
      | _ \<Rightarrow> False)"

text \<open>The clock interrupt at a point of link \<open>i\<close>.\<close>

definition irq_step :: "'d eth_if \<Rightarrow> u8 \<Rightarrow> 'd vl_system \<Rightarrow> 'd vl_system option" where
  "irq_step io i r =
     do {
       s \<leftarrow> tte_due (recording io) (unat i) (node r);
       Some (r\<lparr>node := s,
         transmitted := (transmitted r)(i := transmitted r i @ drop (length (tx_frames (node r))) (tx_frames s)),
         torn := if half_written i r then (torn r)(i := insert (length (transmitted r i)) (torn r i)) else torn r\<rparr>)
     }"

datatype link_event = Prog | Irq u8

fun links_run :: "'d eth_if \<Rightarrow> link_event list \<Rightarrow> 'd vl_system \<Rightarrow> 'd vl_system option" where
  "links_run io [] r = Some r"
| "links_run io (Prog # es) r = do { r \<leftarrow> prog_step r; links_run io es r }"
| "links_run io (Irq i # es) r = do { r \<leftarrow> irq_step io i r; links_run io es r }"

text \<open>
  The frames a link has accepted: those of the calls that have returned 1, and that of the current call once its address is in the queue.
\<close>

definition frames_for :: "u8 \<Rightarrow> link_call list \<Rightarrow> (u32 \<times> u32) list" where
  "frames_for i cs = map snd (filter (\<lambda>c. fst c = i) cs)"

definition pc_entered :: "sched_pc \<Rightarrow> bool" where
  "pc_entered pc \<longleftrightarrow> pc \<in> {P_size, P_inc, P_wrap, P_ret True}"

definition entered :: "'d vl_system \<Rightarrow> link_call list" where
  "entered r = (case in_call r of Some (c, pc) \<Rightarrow> if pc_entered pc then [c] else [] | None \<Rightarrow> [])"

definition accepted :: "u8 \<Rightarrow> 'd vl_system \<Rightarrow> (u32 \<times> u32) list" where
  "accepted i r = frames_for i (map fst (filter snd (returned r)) @ entered r)"

definition calls_made :: "'d vl_system \<Rightarrow> link_call list" where
  "calls_made r = map fst (returned r) @ (case in_call r of Some (c, _) \<Rightarrow> [c] | None \<Rightarrow> [])"

section \<open>One call without an interrupt\<close>

fun sched_accesses :: "nat \<Rightarrow> u32 \<Rightarrow> u32 \<Rightarrow> sched_pc \<Rightarrow> VL \<Rightarrow> (sched_pc \<times> VL) option" where
  "sched_accesses 0 a z pc v = Some (pc, v)"
| "sched_accesses (Suc n) a z pc v = do { (pc, v) \<leftarrow> sched_access a z pc v; sched_accesses n a z pc v }"

lemma vl_push_accesses:
  "vl_push a z v = do { (pc, v) \<leftarrow> sched_accesses 5 a z P_test v; Some (pc = P_ret True, v) }"
  by (simp add: vl_push_def eval_nat_numeral arr_get_def arr_set_def Let_def)

section \<open>What a transmission writes\<close>

lemma eth_io_log [simp]:
  fixes s :: "('d \<times> reg_log) tte"
  shows "snd (eth_dev (eth_iowr (recording io) a x s)) = snd (eth_dev s) @ [(buff_idx a, x)]"
    "snd (eth_dev (snd (eth_iord (recording io) a s))) = snd (eth_dev s)"
  by (simp_all add: eth_iowr_def eth_iord_def recording_def split: prod.split)

lemma eth_send_wait_done_log:
  fixes s :: "('d \<times> reg_log) tte"
  assumes "eth_send_wait_done (recording io) dn s = Some s'"
  shows "snd (eth_dev s') = snd (eth_dev s)"
proof -
  have "jo = recording io \<longrightarrow> snd (eth_dev t') = snd (eth_dev t)"
    if "eth_send_wait_done jo dn t = Some t'" for jo dn and t t' :: "('d \<times> reg_log) tte"
  proof (rule eth_send_wait_done.raw_induct [where P = "\<lambda>jo dn t t'. jo = recording io \<longrightarrow> snd (eth_dev t') = snd (eth_dev t)", OF _ that])
    fix f jo dn and t t' :: "('d \<times> reg_log) tte"
    assume IH: "\<And>jo dn t t'. f jo dn t = Some t' \<Longrightarrow> jo = recording io \<longrightarrow> snd (eth_dev t') = snd (eth_dev t)"
      and run: "(if dn = 0 then case eth_iord jo INT_SOURCE_ADDR t of (v, t) \<Rightarrow> f jo (ucast (v AND 1)) t else Some t) = Some t'"
    show "jo = recording io \<longrightarrow> snd (eth_dev t') = snd (eth_dev t)"
      using run IH eth_io_log(2) [of io INT_SOURCE_ADDR t]
      by (cases "eth_iord jo INT_SOURCE_ADDR t") (auto simp del: eth_io_log(2) split: if_splits)
  qed
  with assms show ?thesis by blast
qed

lemma frames_of_send:
  "frames_of p (ws @ [(buff_idx INT_SOURCE_ADDR, 1), (buff_idx (TX_BD_ADDR_BASE + 4), a), (buff_idx TX_BD_ADDR_BASE, push_bit 16 z OR 0xF000)])
     = frames_of p ws @ [(a, take_bit 16 z)]"
proof (induction p ws rule: frames_of.induct)
  case (1 p)
  have "bit ((push_bit 16 z OR 0xF000) AND TX_BD_READY_BIT) 15" by (simp add: bit_simps)
  then have "(push_bit 16 z OR 0xF000) AND TX_BD_READY_BIT \<noteq> 0" by (metis bit_0_eq bot_apply bot_bool_def)
  moreover have "drop_bit 16 (push_bit 16 z OR 0xF000) = take_bit 16 z"
    by (rule bit_word_eqI) (auto simp: bit_simps dest: bit_lt_len)
  ultimately show ?case by (simp add: buff_idx_def)
qed auto

lemma eth_mac_send_frames:
  fixes s :: "('d \<times> reg_log) tte"
  assumes "eth_mac_send (recording io) a z s = Some s'"
  shows "tx_frames s' = tx_frames s @ [(a, take_bit 16 z)]"
proof -
  have "snd (eth_dev s') = snd (eth_dev s) @ [(buff_idx INT_SOURCE_ADDR, 1), (buff_idx (TX_BD_ADDR_BASE + 4), a), (buff_idx TX_BD_ADDR_BASE, push_bit 16 z OR 0xF000)]"
    using assms unfolding eth_mac_send_def eth_send_wait_free_once by (auto dest!: eth_send_wait_done_log)
  then show ?thesis using frames_of_send by (simp add: tx_frames_def)
qed

section \<open>The remaining accesses of a call\<close>

text \<open>The link as it will be after the rest of the current call, once the address is written.\<close>

definition complete :: "u32 \<Rightarrow> sched_pc \<Rightarrow> VL \<Rightarrow> VL" where
  "complete z pc v =
     (let v = (if pc = P_size then v\<lparr>sizeQueue := (sizeQueue v)[unat (addplace v) := z]\<rparr> else v);
          v = (if pc = P_size \<or> pc = P_inc then v\<lparr>addplace := addplace v + 1\<rparr> else v)
      in if (pc = P_size \<or> pc = P_inc \<or> pc = P_wrap) \<and> addplace v = max_queue v then v\<lparr>addplace := 0\<rparr> else v)"

lemma complete_queue [simp]:
  "queue (complete z pc v) = queue v" "rmplace (complete z pc v) = rmplace v" "max_queue (complete z pc v) = max_queue v"
  by (simp_all add: complete_def Let_def)

lemma complete_sizeQueue:
  "sizeQueue (complete z pc v) = (if pc = P_size then (sizeQueue v)[unat (addplace v) := z] else sizeQueue v)"
  by (simp add: complete_def Let_def)

lemma complete_id [simp]:
  "complete z P_test v = v" "complete z P_addr v = v" "complete z (P_ret ok) v = v"
  by (simp_all add: complete_def)

lemma complete_remove:
  "complete z pc (v\<lparr>queue := qs, rmplace := p\<rparr>) = (complete z pc v)\<lparr>queue := qs, rmplace := p\<rparr>"
  by (simp add: complete_def Let_def)

text \<open>Taking a frame commutes with the rest of the call, but for the size of the frame being entered.\<close>

lemma vl_pop_complete:
  assumes "vl_pop (complete z pc v) = Some (x, w)"
  shows "\<exists>y v'. vl_pop v = Some (y, v') \<and> w = complete z pc v' \<and> fst y = fst x \<and> addplace v' = addplace v
    \<and> (pc = P_size \<and> rmplace v = addplace v \<or> y = x)"
proof -
  let ?r = "unat (rmplace v)"
  let ?adv = "\<lambda>u. u\<lparr>queue := (queue v)[?r := 0], rmplace := (if rmplace v + 1 = max_queue v then 0 else rmplace v + 1)\<rparr>"
  have pop: "vl_pop u = Some ((queue v ! ?r, sizeQueue u ! ?r), ?adv u)"
    if "?r < length (queue v)" "?r < length (sizeQueue v)" "queue u = queue v" "length (sizeQueue u) = length (sizeQueue v)"
      "rmplace u = rmplace v" "max_queue u = max_queue v" for u
    using that by (simp add: vl_pop_def vl_take_def vl_advance_def arr_get_def arr_set_def Let_def)
  have len: "length (sizeQueue (complete z pc v)) = length (sizeQueue v)" by (simp add: complete_sizeQueue)
  have lt: "?r < length (queue v)" "?r < length (sizeQueue v)"
    using assms len by (auto simp: vl_pop_def vl_take_def arr_get_def arr_set_def split: if_splits bind_splits)
  have x: "x = (queue v ! ?r, sizeQueue (complete z pc v) ! ?r)" "w = ?adv (complete z pc v)"
    using pop [OF lt _ len] assms by simp_all
  have "pc = P_size \<and> rmplace v = addplace v \<or> sizeQueue (complete z pc v) ! ?r = sizeQueue v ! ?r"
    using word_unat_eq_iff [of "rmplace v" "addplace v"] by (auto simp: complete_sizeQueue nth_list_update)
  then show ?thesis using pop [OF lt] x complete_remove by (intro exI [of _ "(queue v ! ?r, sizeQueue v ! ?r)"] exI [of _ "?adv v"]) auto
qed

section \<open>The invariant\<close>

text \<open>What was sent agrees with the frames \<open>ys\<close>, in the addresses everywhere and in the sizes outside \<open>T\<close>.\<close>

definition sent_as :: "nat set \<Rightarrow> (u32 \<times> u32) list \<Rightarrow> (u32 \<times> u32) list \<Rightarrow> bool" where
  "sent_as T fs ys \<longleftrightarrow> map fst fs = map fst ys \<and> (\<forall>k<length fs. k \<notin> T \<longrightarrow> fs ! k = ys ! k)"

lemma sent_as_snoc:
  assumes "sent_as T fs ys" "fst y = fst x" "length fs \<in> T' \<or> y = x" "T \<subseteq> T'"
  shows "sent_as T' (fs @ [y]) (ys @ [x])"
proof -
  have "length fs = length ys" using assms(1) by (metis sent_as_def length_map)
  with assms show ?thesis by (auto simp: sent_as_def nth_append less_Suc_eq)
qed

definition call_inv :: "nat \<Rightarrow> sched_pc \<Rightarrow> VL \<Rightarrow> (u32 \<times> u32) list \<Rightarrow> bool" where
  "call_inv m pc v xs \<longleftrightarrow> (pc = P_addr \<longrightarrow> length xs < m) \<and> (pc = P_size \<longrightarrow> unat (addplace v) < m)"

definition current :: "u8 \<Rightarrow> 'd vl_system \<Rightarrow> u32 \<times> sched_pc" where
  "current i r = (case in_call r of Some ((j, _, z), pc) \<Rightarrow> if j = i then (z, pc) else (0, P_test) | None \<Rightarrow> (0, P_test))"

definition link_inv :: "nat \<Rightarrow> u32 \<times> sched_pc \<Rightarrow> VL \<Rightarrow> nat set \<Rightarrow> (u32 \<times> u32) list \<Rightarrow> (u32 \<times> u32) list \<Rightarrow> bool" where
  "link_inv m c v T fs acc \<longleftrightarrow> (\<exists>xs ys. vl_rep m (complete (fst c) (snd c) v) xs \<and> call_inv m (snd c) v xs
     \<and> acc = ys @ xs \<and> sent_as T fs ys \<and> (\<forall>x\<in>set xs. snd x < 2 ^ 16))"

definition call_ok :: "nat \<Rightarrow> link_call \<Rightarrow> bool" where
  "call_ok n c \<longleftrightarrow> (case c of (i, a, z) \<Rightarrow> unat i < n \<and> a \<noteq> 0 \<and> z < 2 ^ 16)"

definition links_inv :: "nat list \<Rightarrow> link_call list \<Rightarrow> 'd vl_system \<Rightarrow> bool" where
  "links_inv ms calls r \<longleftrightarrow> calls_made r @ todo r = calls \<and> length (VLarray (node r)) = length ms \<and>
     (\<forall>i. unat i < length ms \<longrightarrow> (\<exists>v. get_vl (unat i) (node r) = Some v \<and>
       link_inv (ms ! unat i) (current i r) v (torn r i) (transmitted r i) (accepted i r)))"

text \<open>A frame is taken from a link at any access of a call.\<close>

lemma link_inv_pop:
  assumes I: "link_inv m (z, pc) v T fs acc" and w: "queue v ! unat (rmplace v) \<noteq> 0"
    and T': "T' = (if pc = P_size \<and> rmplace v = addplace v then insert (length fs) T else T)"
  shows "\<exists>y v'. vl_pop v = Some (y, v') \<and> link_inv m (z, pc) v' T' (fs @ [(fst y, take_bit 16 (snd y))]) acc"
proof -
  obtain xs ys where xs: "vl_rep m (complete z pc v) xs" "call_inv m pc v xs" "acc = ys @ xs" "sent_as T fs ys" "\<forall>x\<in>set xs. snd x < 2 ^ 16"
    using I unfolding link_inv_def fst_conv snd_conv by (elim exE conjE)
  have "xs \<noteq> []"
  proof
    assume "xs = []"
    then have "queue v ! ((unat (rmplace v) + 0) mod m) = 0" "unat (rmplace v) < m" using xs(1) by (auto simp: vl_rep_def)
    with w show False by simp
  qed
  then obtain x xs' where x: "xs = x # xs'" by (cases xs) auto
  obtain w' where w': "vl_pop (complete z pc v) = Some (x, w')" "vl_rep m w' xs'" using vlq.pop_first xs(1) x by blast
  obtain y v' where y: "vl_pop v = Some (y, v')" "w' = complete z pc v'" "fst y = fst x" "addplace v' = addplace v"
    "pc = P_size \<and> rmplace v = addplace v \<or> y = x" using vl_pop_complete [OF w'(1)] by (elim exE conjE)
  have "snd x < 2 ^ 16" using xs(5) x by simp
  then have "take_bit 16 (snd x) = snd x" by (simp add: word_unat_eq_iff unsigned_take_bit_eq word_less_nat_alt take_bit_nat_eq_self_iff)
  then have "sent_as T' (fs @ [(fst y, take_bit 16 (snd y))]) (ys @ [x])"
    using y(3,5) T' by (intro sent_as_snoc [OF xs(4)]) auto
  moreover have "call_inv m pc v' xs'" using xs(2) y(4) x by (auto simp: call_inv_def)
  ultimately have "link_inv m (z, pc) v' T' (fs @ [(fst y, take_bit 16 (snd y))]) acc"
    using w'(2) y(2) xs(3,5) x unfolding link_inv_def fst_conv snd_conv
    by (intro exI [of _ xs'] exI [of _ "ys @ [x]"]) simp
  with y(1) show ?thesis by blast
qed

text \<open>One access of a call.\<close>

lemma complete_access:
  assumes "sched_access a z pc v = Some (pc', v')" "pc = P_size \<or> pc = P_inc \<or> pc = P_wrap"
  shows "complete z pc' v' = complete z pc v"
  using assms by (auto simp: complete_def Let_def arr_set_def split: if_splits)

lemma vl_rep_addplace: "vl_rep m v xs \<Longrightarrow> unat (addplace v) < m \<and> length (queue v) = m \<and> length (sizeQueue v) = m"
  by (auto simp: vl_rep_def)

lemma access_test:
  assumes R: "vl_rep m v xs"
  shows "sched_access a z P_test v = Some (if length xs < m then P_addr else P_ret False, v)"
proof -
  have "length xs \<le> m" using vlq.bounded [OF R] .
  moreover have "vl_push 1 z v = Some (False, v)" if "length xs = m" using vl_push_full [OF R that] .
  moreover obtain v' where "vl_push 1 z v = Some (True, v')" if "length xs < m" using vl_push_room [OF R, of "(1, z)"] by auto
  ultimately show ?thesis using vl_rep_addplace [OF R]
    by (cases "length xs < m") (auto simp: vl_push_def arr_get_def arr_set_def Let_def split: if_splits)
qed

lemma access_addr:
  assumes R: "vl_rep m v xs" and room: "length xs < m" and a: "a \<noteq> 0"
  shows "\<exists>v'. sched_access a z P_addr v = Some (P_size, v') \<and> vl_rep m (complete z P_size v') (xs @ [(a, z)]) \<and> unat (addplace v') < m"
proof -
  obtain w where w: "vl_push a z v = Some (True, w)" "vl_rep m w (xs @ [(a, z)])" using vl_push_room [OF R, of "(a, z)"] room a by auto
  let ?v = "v\<lparr>queue := (queue v)[unat (addplace v) := a]\<rparr>"
  have "w = complete z P_size ?v"
    using w(1) vl_rep_addplace [OF R]
    by (auto simp: vl_push_def arr_get_def arr_set_def Let_def complete_def split: if_splits)
  with w(2) vl_rep_addplace [OF R] show ?thesis by (simp add: arr_set_def)
qed

lemma link_inv_access:
  assumes I: "link_inv m (z, pc) v T fs acc" and ok: "a \<noteq> 0" "z < 2 ^ 16" and pc: "\<nexists>b. pc = P_ret b"
  shows "\<exists>pc' v'. sched_access a z pc v = Some (pc', v')
    \<and> link_inv m (z, pc') v' T fs (if pc_entered pc' \<and> \<not> pc_entered pc then acc @ [(a, z)] else acc)
    \<and> (pc_entered pc \<longrightarrow> pc_entered pc')"
proof -
  obtain xs ys where xs: "vl_rep m (complete z pc v) xs" "call_inv m pc v xs" "acc = ys @ xs" "sent_as T fs ys" "\<forall>x\<in>set xs. snd x < 2 ^ 16"
    using I unfolding link_inv_def fst_conv snd_conv by (elim exE conjE)
  have keep: "link_inv m (z, pc') v' T fs acc" if "vl_rep m (complete z pc' v') xs" "call_inv m pc' v' xs" for pc' v'
    using that xs unfolding link_inv_def fst_conv snd_conv by (intro exI [of _ xs] exI [of _ ys]) simp
  show ?thesis
  proof (cases pc)
    case P_test
    with xs(1) have "sched_access a z pc v = Some (if length xs < m then P_addr else P_ret False, v)"
      by (simp add: access_test del: sched_access.simps)
    with keep [of "if length xs < m then P_addr else P_ret False" v] xs(1) P_test show ?thesis
      by (auto simp: pc_entered_def call_inv_def split: if_splits)
  next
    case P_addr
    then obtain v' where v': "sched_access a z P_addr v = Some (P_size, v')" "vl_rep m (complete z P_size v') (xs @ [(a, z)])" "unat (addplace v') < m"
      using access_addr [of m v xs a z] xs(1,2) ok(1) by (auto simp: call_inv_def)
    then have "link_inv m (z, P_size) v' T fs (acc @ [(a, z)])"
      using xs ok(2) unfolding link_inv_def fst_conv snd_conv
      by (intro exI [of _ "xs @ [(a, z)]"] exI [of _ ys]) (auto simp: call_inv_def)
    with v'(1) P_addr show ?thesis by (simp add: pc_entered_def)
  next
    case (P_ret b)
    with pc show ?thesis by blast
  next
    case P_size
    have "length (sizeQueue v) = m" using vl_rep_addplace [OF xs(1)] P_size by (simp add: complete_sizeQueue)
    then have "sched_access a z pc v = Some (P_inc, v\<lparr>sizeQueue := (sizeQueue v)[unat (addplace v) := z]\<rparr>)"
      using xs(2) P_size by (simp add: call_inv_def arr_set_def)
    with complete_access [OF this] xs(1) P_size keep show ?thesis by (simp add: call_inv_def pc_entered_def)
  next
    case P_inc
    with complete_access [of a z pc v] xs(1) keep show ?thesis by (simp add: call_inv_def pc_entered_def)
  next
    case P_wrap
    with complete_access [of a z pc v] xs(1) keep show ?thesis by (simp add: call_inv_def pc_entered_def)
  qed
qed

section \<open>Every event keeps the invariant\<close>

lemma link_inv_outside: "link_inv m (z, P_ret ok) = link_inv m (0, P_test)" "link_inv m (z, P_test) = link_inv m (0, P_test)"
  by (intro ext, simp add: link_inv_def call_inv_def)+

lemma links_inv_upd:
  assumes I: "links_inv ms calls r" and i: "unat i < length ms"
    and V: "VLarray (node r') = (VLarray (node r))[unat i := Some v]"
    and L: "link_inv (ms ! unat i) (current i r') v (torn r' i) (transmitted r' i) (accepted i r')"
    and other: "\<And>k. k \<noteq> i \<Longrightarrow> current k r' = current k r \<and> torn r' k = torn r k \<and> transmitted r' k = transmitted r k \<and> accepted k r' = accepted k r"
    and made: "calls_made r' @ todo r' = calls"
  shows "links_inv ms calls r'"
  unfolding links_inv_def
proof (intro conjI allI impI)
  have len: "length (VLarray (node r)) = length ms" using I by (simp add: links_inv_def)
  then show "length (VLarray (node r')) = length ms" using V by simp
  show "calls_made r' @ todo r' = calls" by (rule made)
  fix k :: u8
  assume k: "unat k < length ms"
  have "get_vl (unat k) (node r') = (if k = i then Some v else get_vl (unat k) (node r))"
    using V k len by (auto simp: get_vl_def nth_list_update word_unat_eq_iff)
  moreover have "\<exists>v. get_vl (unat k) (node r) = Some v \<and> link_inv (ms ! unat k) (current k r) v (torn r k) (transmitted r k) (accepted k r)"
    using I k by (simp add: links_inv_def)
  ultimately show "\<exists>v. get_vl (unat k) (node r') = Some v \<and> link_inv (ms ! unat k) (current k r') v (torn r' k) (transmitted r' k) (accepted k r')"
    using L other [of k] by (cases "k = i") simp_all
qed

lemma links_inv_link:
  assumes "links_inv ms calls r" "unat i < length ms"
  obtains v where "get_vl (unat i) (node r) = Some v" "(VLarray (node r))[unat i := Some v] = VLarray (node r)"
    "link_inv (ms ! unat i) (current i r) v (torn r i) (transmitted r i) (accepted i r)"
proof -
  obtain v where v: "get_vl (unat i) (node r) = Some v"
    "link_inv (ms ! unat i) (current i r) v (torn r i) (transmitted r i) (accepted i r)"
    using assms by (auto simp: links_inv_def)
  then have "(VLarray (node r))[unat i := Some v] = VLarray (node r)"
    by (metis get_vl_def list_update_id option.distinct(1))
  with v show thesis using that by blast
qed

lemma call_frames: "frames_for i [(j, a, z)] = (if j = i then [(a, z)] else [])" "frames_for i [] = []"
  "frames_for i (xs @ ys) = frames_for i xs @ frames_for i ys"
  by (simp_all add: frames_for_def)

lemma prog_step_inv:
  assumes I: "links_inv ms calls r" and ok: "list_all (call_ok (length ms)) calls"
  shows "\<exists>r'. prog_step r = Some r' \<and> links_inv ms calls r'"
proof (cases "in_call r")
  case None
  have made: "map fst (returned r) @ todo r = calls" using I None by (simp add: links_inv_def calls_made_def)
  show ?thesis
  proof (cases "todo r")
    case Nil
    then show ?thesis using None I by (simp add: prog_step_def)
  next
    case (Cons c cs)
    obtain i a z where c: "c = (i, a, z)" by (cases c)
    have "c \<in> set calls" using made Cons by auto
    then have i: "unat i < length ms" using ok c by (auto simp: list_all_iff call_ok_def)
    obtain v where v: "(VLarray (node r))[unat i := Some v] = VLarray (node r)"
      "link_inv (ms ! unat i) (current i r) v (torn r i) (transmitted r i) (accepted i r)"
      using links_inv_link [OF I i] by blast
    have "links_inv ms calls (r\<lparr>in_call := Some (c, P_test), todo := cs\<rparr>)"
      by (rule links_inv_upd [OF I i, where v = v])
        (use v made None Cons c in \<open>simp_all add: current_def accepted_def entered_def pc_entered_def calls_made_def link_inv_outside(2) [of _ z]\<close>)
    then show ?thesis using None Cons by (simp add: prog_step_def)
  qed
next
  case (Some cp)
  obtain i a z pc where c: "in_call r = Some ((i, a, z), pc)" using Some by (cases cp) auto
  have made: "map fst (returned r) @ (i, a, z) # todo r = calls" using I c by (simp add: links_inv_def calls_made_def)
  then have "(i, a, z) \<in> set calls" by auto
  then have i: "unat i < length ms" "a \<noteq> 0" "z < 2 ^ 16" using ok by (auto simp: list_all_iff call_ok_def)
  obtain v where v: "get_vl (unat i) (node r) = Some v" "(VLarray (node r))[unat i := Some v] = VLarray (node r)"
    "link_inv (ms ! unat i) (z, pc) v (torn r i) (transmitted r i) (accepted i r)"
    using links_inv_link [OF I i(1)] c by (auto simp: current_def)
  show ?thesis
  proof (cases "\<exists>b. pc = P_ret b")
    case True
    then obtain b where b: "pc = P_ret b" by blast
    have "links_inv ms calls (r\<lparr>in_call := None, returned := returned r @ [((i, a, z), b)]\<rparr>)"
      by (rule links_inv_upd [OF I i(1), where v = v])
        (use v made c b in \<open>simp_all add: current_def accepted_def entered_def pc_entered_def calls_made_def link_inv_outside(1) call_frames split: if_splits\<close>)
    then show ?thesis using c b by (simp add: prog_step_def)
  next
    case False
    obtain pc' v' where a: "sched_access a z pc v = Some (pc', v')"
      "link_inv (ms ! unat i) (z, pc') v' (torn r i) (transmitted r i) (if pc_entered pc' \<and> \<not> pc_entered pc then accepted i r @ [(a, z)] else accepted i r)"
      "pc_entered pc \<longrightarrow> pc_entered pc'"
      using link_inv_access [OF v(3) i(2,3) False] by (elim exE conjE)
    let ?r = "r\<lparr>node := put_vl (unat i) v' (node r), in_call := Some ((i, a, z), pc')\<rparr>"
    have "accepted i ?r = (if pc_entered pc' \<and> \<not> pc_entered pc then accepted i r @ [(a, z)] else accepted i r)"
      using a(3) c by (auto simp: accepted_def entered_def call_frames)
    then have "links_inv ms calls ?r"
      by (intro links_inv_upd [OF I i(1), where v = v'])
        (use a(2) made c in \<open>simp_all add: put_vl_def current_def accepted_def entered_def calls_made_def call_frames\<close>)
    moreover have "prog_step r = Some ?r"
      using c v(1) a(1) False by (cases pc) (simp_all add: prog_step_def del: sched_access.simps)
    ultimately show ?thesis by blast
  qed
qed

lemma half_written_iff:
  assumes "get_vl (unat i) (node r) = Some v"
  shows "half_written i r \<longleftrightarrow> snd (current i r) = P_size \<and> rmplace v = addplace v"
  using assms by (auto simp: half_written_def current_def split: option.splits sched_pc.splits)

lemma tx_frames_put_vl [simp]: "tx_frames (put_vl i v s) = tx_frames s"
  by (simp add: tx_frames_def put_vl_def)

lemma send_data_frames:
  fixes s :: "('d \<times> reg_log) tte"
  assumes send: "\<And>a z (s :: ('d \<times> reg_log) tte). \<exists>s'. eth_mac_send (recording io) a z s = Some s'"
    and v: "get_vl (unat i) s = Some v" "vl_pop v = Some (y, v')"
  shows "\<exists>s'. tte_send_data (recording io) i s = Some s' \<and> VLarray s' = (VLarray s)[unat i := Some v']
    \<and> tx_frames s' = tx_frames s @ [(fst y, take_bit 16 (snd y))]"
proof -
  obtain v0 where v0: "vl_take v = Some (y, v0)" "v' = vl_advance v0" using v(2) by (auto simp: vl_pop_def split: bind_splits)
  obtain s1 where s1: "eth_mac_send (recording io) (fst y) (snd y) (put_vl (unat i) v0 s) = Some s1" using send by blast
  have i: "unat i < length (VLarray s)" using v(1) by (auto simp: get_vl_def split: if_splits)
  have V: "VLarray s1 = (VLarray s)[unat i := Some v0]" using eth_mac_send_VLarray [OF s1] by (simp add: put_vl_def)
  then have "get_vl (unat i) s1 = Some v0" using i by (simp add: get_vl_def)
  then have "tte_send_data (recording io) i s = Some (put_vl (unat i) v' s1)"
    using v(1) v0 s1 by (cases y) (simp add: tte_send_data_def)
  then show ?thesis using V eth_mac_send_frames [OF s1] by (intro exI [of _ "put_vl (unat i) v' s1"]) (simp add: put_vl_def tx_frames_def)
qed

lemma irq_step_inv:
  fixes r :: "'d vl_system"
  assumes send: "\<And>a z (s :: ('d \<times> reg_log) tte). \<exists>s'. eth_mac_send (recording io) a z s = Some s'"
    and I: "links_inv ms calls r" and i: "unat i < length ms"
  shows "\<exists>r'. irq_step io i r = Some r' \<and> links_inv ms calls r'"
proof -
  obtain v where v: "get_vl (unat i) (node r) = Some v" "(VLarray (node r))[unat i := Some v] = VLarray (node r)"
    "link_inv (ms ! unat i) (current i r) v (torn r i) (transmitted r i) (accepted i r)"
    using links_inv_link [OF I i] by blast
  obtain z pc where c: "current i r = (z, pc)" by (cases "current i r")
  have made: "calls_made r @ todo r = calls" using I by (simp add: links_inv_def)
  let ?T = "if pc = P_size \<and> rmplace v = addplace v then insert (length (transmitted r i)) (torn r i) else torn r i"
  have half: "half_written i r \<longleftrightarrow> pc = P_size \<and> rmplace v = addplace v" using half_written_iff [OF v(1)] c by simp
  have "unat (rmplace v) < ms ! unat i \<and> length (queue v) = ms ! unat i"
    using v(3) unfolding link_inv_def vl_rep_def by auto
  then have w: "vl_waiting (unat i) (node r) = Some (queue v ! unat (rmplace v) \<noteq> 0)"
    using v(1) by (simp add: vl_waiting_def arr_get_def word_gt_0)
  show ?thesis
  proof (cases "queue v ! unat (rmplace v) = 0")
    case True
    let ?r = "r\<lparr>torn := if half_written i r then (torn r)(i := insert (length (transmitted r i)) (torn r i)) else torn r\<rparr>"
    have "link_inv (ms ! unat i) (current i r) v (torn ?r i) (transmitted r i) (accepted i r)"
      using v(3) by (auto simp: link_inv_def sent_as_def)
    then have "links_inv ms calls ?r"
      by (intro links_inv_upd [OF I i, where v = v])
        (use v(2) made in \<open>simp_all add: current_def accepted_def entered_def calls_made_def\<close>)
    moreover have "irq_step io i r = Some ?r" using w True by (simp add: irq_step_def tte_due_def)
    ultimately show ?thesis by blast
  next
    case False
    obtain y v' where y: "vl_pop v = Some (y, v')"
      "link_inv (ms ! unat i) (z, pc) v' ?T (transmitted r i @ [(fst y, take_bit 16 (snd y))]) (accepted i r)"
      using link_inv_pop [OF v(3) [unfolded c] False refl] by blast
    obtain s' where s': "tte_send_data (recording io) i (node r) = Some s'" "VLarray s' = (VLarray (node r))[unat i := Some v']"
      "tx_frames s' = tx_frames (node r) @ [(fst y, take_bit 16 (snd y))]"
      using send_data_frames [OF send v(1) y(1)] by (elim exE conjE)
    let ?r = "r\<lparr>node := s', transmitted := (transmitted r)(i := transmitted r i @ [(fst y, take_bit 16 (snd y))]),
      torn := if half_written i r then (torn r)(i := insert (length (transmitted r i)) (torn r i)) else torn r\<rparr>"
    have same: "current k ?r = current k r" "accepted k ?r = accepted k r" "calls_made ?r = calls_made r" for k
      by (simp_all add: current_def accepted_def entered_def calls_made_def)
    have "link_inv (ms ! unat i) (current i ?r) v' (torn ?r i) (transmitted ?r i) (accepted i ?r)"
      using y(2) half unfolding same c by (cases "pc = P_size \<and> rmplace v = addplace v") simp_all
    then have "links_inv ms calls ?r"
      by (rule links_inv_upd [OF I i, rotated]) (use s'(2) made same in simp_all)
    moreover have "irq_step io i r = Some ?r" using w False s' by (simp add: irq_step_def tte_due_def)
    ultimately show ?thesis by blast
  qed
qed

fun event_ok :: "nat \<Rightarrow> link_event \<Rightarrow> bool" where
  "event_ok n Prog = True"
| "event_ok n (Irq i) = (unat i < n)"

lemma links_run_inv:
  fixes r :: "'d vl_system"
  assumes send: "\<And>a z (s :: ('d \<times> reg_log) tte). \<exists>s'. eth_mac_send (recording io) a z s = Some s'"
    and "links_inv ms calls r" "list_all (call_ok (length ms)) calls" "list_all (event_ok (length ms)) es"
  shows "\<exists>r'. links_run io es r = Some r' \<and> links_inv ms calls r'"
  using assms(2,4)
proof (induction es arbitrary: r)
  case (Cons e es)
  show ?case
  proof (cases e)
    case Prog
    then show ?thesis using prog_step_inv [OF Cons.prems(1) assms(3)] Cons by fastforce
  next
    case (Irq i)
    then show ?thesis using irq_step_inv [OF send Cons.prems(1), of i] Cons by fastforce
  qed
qed simp

section \<open>First in, first out\<close>

definition vl_empty :: "VL \<Rightarrow> bool" where
  "vl_empty v \<longleftrightarrow> 0 < max_queue v \<and> queue v = replicate (unat (max_queue v)) 0
     \<and> sizeQueue v = replicate (unat (max_queue v)) 0 \<and> addplace v = 0 \<and> rmplace v = 0"

lemma vl_empty_rep: "vl_empty v \<Longrightarrow> vl_rep (unat (max_queue v)) v []"
  by (auto simp: vl_empty_def vl_rep_def word_less_nat_alt)

text \<open>
  C7. The virtual links are first-in first-out under interrupts. The main program schedules any frames, with addresses that are
  not 0 and sizes of 16 bits, on the links of a node whose queues are empty, and the clock interrupt sends a frame of any link
  between any two of its accesses to a queue, with a controller that completes every transmission. Then no step fails; the frames
  that the registers of the controller are set to send are, link by link, in their addresses the first of those the link has
  accepted; they are so in their sizes too, except where the interrupt takes a frame whose address is written and whose size is not; and
  a link holds at most as many frames as its queue has places.
\<close>

theorem tte_links_fifo:
  fixes s :: "('d \<times> reg_log) tte"
  assumes send: "\<And>a z (s :: ('d \<times> reg_log) tte). \<exists>s'. eth_mac_send (recording io) a z s = Some s'"
    and vs: "VLarray s = map Some vs" "list_all vl_empty vs"
    and ok: "list_all (call_ok (length vs)) calls" "list_all (event_ok (length vs)) es"
  shows "\<exists>r. links_run io es (links_init s calls) = Some r \<and> calls_made r @ todo r = calls \<and>
    (\<forall>i. unat i < length vs \<longrightarrow>
       map fst (transmitted r i) = take (length (transmitted r i)) (map fst (accepted i r))
     \<and> (\<forall>k < length (transmitted r i). k \<notin> torn r i \<longrightarrow> transmitted r i ! k = accepted i r ! k)
     \<and> length (accepted i r) - length (transmitted r i) \<le> unat (max_queue (vs ! unat i)))"
proof -
  let ?ms = "map (\<lambda>v. unat (max_queue v)) vs"
  have "vl_rep (unat (max_queue v)) v []" if "v \<in> set vs" for v using vs(2) that by (simp add: list_all_iff vl_empty_rep)
  then have "links_inv ?ms calls (links_init s calls)"
    by (auto simp: links_inv_def links_init_def get_vl_def vs(1) calls_made_def current_def accepted_def entered_def
        link_inv_def call_inv_def sent_as_def call_frames)
  from links_run_inv [OF send this, of es] ok
  obtain r where r: "links_run io es (links_init s calls) = Some r" "links_inv ?ms calls r" by auto
  have "map fst (transmitted r i) = take (length (transmitted r i)) (map fst (accepted i r))
     \<and> (\<forall>k < length (transmitted r i). k \<notin> torn r i \<longrightarrow> transmitted r i ! k = accepted i r ! k)
     \<and> length (accepted i r) - length (transmitted r i) \<le> unat (max_queue (vs ! unat i))" if i: "unat i < length vs" for i
  proof -
    obtain v xs ys where x: "vl_rep (unat (max_queue (vs ! unat i))) v xs" "accepted i r = ys @ xs" "sent_as (torn r i) (transmitted r i) ys"
      using r(2) i by (auto simp: links_inv_def link_inv_def)
    have l: "length (transmitted r i) = length ys" using x(3) by (metis sent_as_def length_map)
    have "length xs \<le> unat (max_queue (vs ! unat i))" using vlq.bounded [OF x(1)] .
    then show ?thesis using x(2,3) l by (auto simp: sent_as_def nth_append)
  qed
  then show ?thesis using r by (intro exI [of _ r]) (auto simp: links_inv_def)
qed

lemma eth_send_wait_done_once:
  "take_bit 1 (fst (eth_iord io INT_SOURCE_ADDR s)) = 1 \<Longrightarrow> eth_send_wait_done io 0 s = Some (snd (eth_iord io INT_SOURCE_ADDR s))"
  by (cases "eth_iord io INT_SOURCE_ADDR s", subst eth_send_wait_done.simps)
    (simp add: eth_send_wait_done.simps [of io 1] and_one_eq)

lemma ready_recording:
  fixes s :: "(unit \<times> reg_log) tte"
  shows "eth_iord (recording ready_eif) a s = (1, s)"
    "eth_iowr (recording ready_eif) a x s = s\<lparr>eth_dev := ((), snd (eth_dev s) @ [(buff_idx a, x)])\<rparr>"
  by (cases "eth_dev s"; simp add: eth_iord_def eth_iowr_def recording_def ready_eif_def)+

lemma ready_recording_sends:
  fixes s :: "(unit \<times> reg_log) tte"
  shows "eth_mac_send (recording ready_eif) a z s =
    Some (s\<lparr>eth_dev := ((), snd (eth_dev s) @ [(buff_idx INT_SOURCE_ADDR, 1), (buff_idx (TX_BD_ADDR_BASE + 4), a), (buff_idx TX_BD_ADDR_BASE, push_bit 16 z OR 0xF000)])\<rparr>)"
  unfolding eth_mac_send_def eth_send_wait_free_once by (simp add: eth_send_wait_done_once ready_recording)

text \<open>Two frames on link 1; the second interrupt comes between the address and the size of the second frame.\<close>

theorem tte_links_fifo_witness:
  "\<exists>r. links_run ready_eif ([Irq 2, Prog, Prog, Prog, Prog, Prog, Prog, Prog, Irq 1, Prog, Prog, Prog, Irq 1, Prog]) (links_init (demo_tte ((), [])) [(1, 0x800, 64), (1, 0xC00, 72)]) = Some r
     \<and> transmitted r 1 ! 0 = accepted 1 r ! 0 \<and> map fst (transmitted r 1) = take (length (transmitted r 1)) (map fst (accepted 1 r))
     \<and> transmitted r 1 = [(0x800, 64), (0xC00, 0)] \<and> torn r 1 = {1}"
proof -
  let ?es = "[Irq 2, Prog, Prog, Prog, Prog, Prog, Prog, Prog, Irq 1, Prog, Prog, Prog, Irq 1, Prog]"
  let ?cs = "[(1, 0x800, 64), (1, 0xC00, 72)] :: link_call list"
  have "VLarray (demo_tte ((), [])) = map Some demo_vls" "list_all vl_empty demo_vls"
    "list_all (call_ok (length demo_vls)) ?cs" "list_all (event_ok (length demo_vls)) ?es"
    by (simp_all add: demo_tte_def demo_vls_def demo_vl_def vl_empty_def call_ok_def)
  then obtain r where r: "links_run ready_eif ?es (links_init (demo_tte ((), [])) ?cs) = Some r"
    "\<And>i. unat i < length demo_vls \<Longrightarrow> map fst (transmitted r i) = take (length (transmitted r i)) (map fst (accepted i r))
       \<and> (\<forall>k < length (transmitted r i). k \<notin> torn r i \<longrightarrow> transmitted r i ! k = accepted i r ! k)"
    using tte_links_fifo [of ready_eif "demo_tte ((), [])" demo_vls ?cs ?es] ready_recording_sends by blast
  have "replicate 2 x = [x, x]" "replicate 4 x = [x, x, x, x]" for x :: u32 by (simp_all add: eval_nat_numeral)
  then have "transmitted r 1 = [(0x800, 64), (0xC00, 0)] \<and> torn r 1 = {1}"
    using r(1) by (simp add: links_init_def demo_tte_def demo_vls_def demo_vl_def irq_step_def tte_due_def vl_waiting_def
      prog_step_def get_vl_def put_vl_def arr_get_def arr_set_def tte_send_data_def vl_take_def vl_advance_def ready_recording_sends
      tx_frames_def half_written_def buff_idx_def) (hypsubst, simp)
  then show ?thesis using r(1) r(2) [of 1] by (auto simp: demo_vls_def)
qed

section \<open>A frame with the size of another\<close>

text \<open>
  C39. A frame can be sent with the size of another: when the queue of the link is empty, and the interrupt of the link comes
  between the writes of the address and of the size in \<open>tte_schedule_send\<close>, the frame is sent with the length that was
  left in its place of the queue, whatever length it was scheduled with.
\<close>

theorem tte_size_torn:
  fixes r :: "'d vl_system"
  assumes send: "\<And>a z (s :: ('d \<times> reg_log) tte). \<exists>s'. eth_mac_send (recording io) a z s = Some s'"
    and r: "in_call r = Some ((i, a, z), P_addr)" "a \<noteq> 0"
    and v: "get_vl (unat i) (node r) = Some v" "vl_rep m v []"
  shows "\<exists>r'. links_run io [Prog, Irq i] r = Some r' \<and>
    transmitted r' i = transmitted r i @ [(a, take_bit 16 (sizeQueue v ! unat (addplace v)))]"
proof -
  let ?p = "unat (addplace v)" and ?v = "v\<lparr>queue := (queue v)[unat (addplace v) := a]\<rparr>"
  have V: "?p < length (queue v)" "?p < length (sizeQueue v)" "unat (rmplace v) = ?p" using v(2) by (auto simp: vl_rep_def)
  let ?s = "put_vl (unat i) ?v (node r)" and ?r = "r\<lparr>node := put_vl (unat i) ?v (node r), in_call := Some ((i, a, z), P_size)\<rparr>"
  have i: "unat i < length (VLarray (node r))" using v(1) by (simp add: get_vl_def split: if_splits)
  then have get: "get_vl (unat i) ?s = Some ?v" by (simp add: get_vl_def put_vl_def)
  have prog: "prog_step r = Some ?r" using r(1) v(1) V by (simp add: prog_step_def arr_set_def)
  have "vl_pop ?v = Some ((a, sizeQueue v ! ?p), vl_advance (?v\<lparr>queue := (queue v)[?p := 0]\<rparr>))"
    using V by (simp add: vl_pop_def vl_take_def arr_get_def arr_set_def)
  from send_data_frames [OF send get this] obtain s' where s': "tte_send_data (recording io) i ?s = Some s'"
    "tx_frames s' = tx_frames ?s @ [(a, take_bit 16 (sizeQueue v ! ?p))]" by (auto simp del: tx_frames_put_vl)
  moreover have "vl_waiting (unat i) ?s = Some True" using get V r(2) by (simp add: vl_waiting_def arr_get_def word_gt_0)
  ultimately obtain r' where "irq_step io i ?r = Some r'" "transmitted r' i = transmitted r i @ [(a, take_bit 16 (sizeQueue v ! ?p))]"
    by (simp add: irq_step_def tte_due_def)
  then show ?thesis using prog by (intro exI [of _ r']) simp
qed

text \<open>The frame of 64 bytes at \<open>0x800\<close> is sent with length 0.\<close>

theorem tte_size_torn_witness:
  "\<exists>r r'. links_run ready_eif [Prog, Prog] (links_init (demo_tte ((), [])) [(1, 0x800, 64)]) = Some r
     \<and> links_run ready_eif [Prog, Irq 1] r = Some r' \<and> transmitted r' 1 = [(0x800, 0)]"
proof -
  define r where "r = the (links_run ready_eif [Prog, Prog] (links_init (demo_tte ((), [])) [(1, 0x800, 64)]))"
  have run: "links_run ready_eif [Prog, Prog] (links_init (demo_tte ((), [])) [(1, 0x800, 64)]) = Some r"
    and r: "in_call r = Some ((1, 0x800, 64), P_addr)" "get_vl (unat (1 :: u8)) (node r) = Some (demo_vl 2 2)" "transmitted r 1 = []"
    by (simp_all add: r_def links_init_def demo_tte_def demo_vls_def prog_step_def get_vl_def put_vl_def arr_get_def demo_vl_def)
  have "vl_rep 4 (demo_vl 2 2) []" using vl_empty_rep [of "demo_vl 2 2"] by (simp add: vl_empty_def demo_vl_def)
  from tte_size_torn [OF _ r(1) _ r(2) this, of ready_eif] ready_recording_sends r(3)
  have "\<exists>r'. links_run ready_eif [Prog, Irq 1] r = Some r' \<and> transmitted r' 1 = [(0x800, 0)]"
    by (simp add: demo_vl_def)
  then show ?thesis using run by blast
qed

end
