(* ===== verification/Eth_PTP.thy ===== *)
theory Eth_PTP
  imports Eth_UDP
begin

text \<open>
  \<open>c/ethlib/ptp1588.c\<close>: the precision time protocol over UDP, with the time stamps of the hardware
  (\<open>USE_HW_TIMESTAMP\<close>). The clock and the time stamp units behind their registers are a parameter. A message is sent and
  received as the bytes of its structure; on this big-endian processor, where a \<open>long long\<close> is aligned to four bytes,
  the body of a message starts at byte 36. A message that does not fit the structure has the value \<open>None\<close>.
\<close>

record 'd ptp_if =
  ptp_rd :: "u32 \<Rightarrow> 'd \<Rightarrow> u32 \<times> 'd"
  ptp_wr :: "u32 \<Rightarrow> u32 \<Rightarrow> 'd \<Rightarrow> 'd"

abbreviation (input) PTP_RXCHAN_TIMESTAMP_NS :: "u32 \<Rightarrow> u32" where "PTP_RXCHAN_TIMESTAMP_NS base \<equiv> base + 0xE000"
abbreviation (input) PTP_RXCHAN_TIMESTAMP_SEC :: "u32 \<Rightarrow> u32" where "PTP_RXCHAN_TIMESTAMP_SEC base \<equiv> base + 0xE004"
abbreviation (input) PTP_RXCHAN_STATUS :: "u32 \<Rightarrow> u32" where "PTP_RXCHAN_STATUS base \<equiv> base + 0xE008"
abbreviation (input) PTP_TXCHAN_TIMESTAMP_NS :: "u32 \<Rightarrow> u32" where "PTP_TXCHAN_TIMESTAMP_NS base \<equiv> base + 0xE400"
abbreviation (input) PTP_TXCHAN_TIMESTAMP_SEC :: "u32 \<Rightarrow> u32" where "PTP_TXCHAN_TIMESTAMP_SEC base \<equiv> base + 0xE404"
abbreviation (input) PTP_TXCHAN_STATUS :: "u32 \<Rightarrow> u32" where "PTP_TXCHAN_STATUS base \<equiv> base + 0xE408"
abbreviation (input) RTC_TIME_NS :: "u32 \<Rightarrow> u32" where "RTC_TIME_NS base \<equiv> base + 0xE800"
abbreviation (input) RTC_TIME_SEC :: "u32 \<Rightarrow> u32" where "RTC_TIME_SEC base \<equiv> base + 0xE804"
abbreviation (input) RTC_ADJUST_OFFSET :: "u32 \<Rightarrow> u32" where "RTC_ADJUST_OFFSET base \<equiv> base + 0xE820"
abbreviation (input) PTP_SYNC_MSGTYPE :: int where "PTP_SYNC_MSGTYPE \<equiv> 0x00"
abbreviation (input) PTP_DLYREQ_MSGTYPE :: int where "PTP_DLYREQ_MSGTYPE \<equiv> 0x01"
abbreviation (input) PTP_FOLLOW_MSGTYPE :: int where "PTP_FOLLOW_MSGTYPE \<equiv> 0x08"
abbreviation (input) PTP_DLYRPLY_MSGTYPE :: int where "PTP_DLYRPLY_MSGTYPE \<equiv> 0x09"
abbreviation (input) PTP_EVENT_PORT :: u16 where "PTP_EVENT_PORT \<equiv> 319"
abbreviation (input) PTP_GENERAL_PORT :: u16 where "PTP_GENERAL_PORT \<equiv> 320"
abbreviation (input) FLAG_PTP_UNICAST_MASK :: u16 where "FLAG_PTP_UNICAST_MASK \<equiv> 0x400"
abbreviation (input) FLAG_PTP_TWO_STEP_MASK :: u16 where "FLAG_PTP_TWO_STEP_MASK \<equiv> 0x0200"
abbreviation (input) PTP_BROADCAST_MAC :: "u8 list" where "PTP_BROADCAST_MAC \<equiv> replicate 6 0xFF"
abbreviation (input) WCET_COMPENSATION :: u32 where "WCET_COMPENSATION \<equiv> 3000"
abbreviation (input) PTP_NS_OFFSET_THRESHOLD :: int where "PTP_NS_OFFSET_THRESHOLD \<equiv> 500000000"

record PTPv2MsgHeader =
  transportSpec_msgType :: u8
  reserved_versionPTP :: u8
  messageLength :: u16
  domainNumber :: u8
  reserved1 :: u8
  flagField :: u16
  correctionField :: u64
  reserved2 :: u32
  portIdentity :: "u8 list"
  portId :: u16
  sequenceId :: u16
  controlField :: u8
  logMessageInterval :: u8

record PTPMsgBody =
  seconds :: u32
  nanoseconds :: u32
  requestingSourcePort :: "u8 list"
  requestingSourceId :: u16

record PTPv2Msg =
  ptp_head :: PTPv2MsgHeader
  ptp_body :: PTPMsgBody

record PTPv2TimeRecord =
  tr_syncInterval :: u8
  offsetSeconds :: u32
  offsetNanoseconds :: u32
  t1Seconds :: u32
  t1Nanoseconds :: u32
  t2Seconds :: u32
  t2Nanoseconds :: u32
  delaySeconds :: u32
  delayNanoseconds :: u32
  t3Seconds :: u32
  t3Nanoseconds :: u32
  t4Seconds :: u32
  t4Nanoseconds :: u32

record PTPPortInfo =
  eth_base :: u32
  port_ip :: "u8 list"
  port_mac :: "u8 list"
  clockId :: "u8 list"
  port_num :: u16
  portRole :: u32
  syncInterval :: u8

record 'd ptp_node = "'d udp_node" +
  txPTPMsg :: PTPv2Msg
  rxPTPMsg :: PTPv2Msg
  ptpTimeRecord :: PTPv2TimeRecord
  thisPtpPortInfo :: PTPPortInfo
  lastMasterInfo :: PTPPortInfo
  lastSlaveInfo :: PTPPortInfo

definition rtc_read :: "'d ptp_if \<Rightarrow> u32 \<Rightarrow> 'd ptp_node \<Rightarrow> u32 \<times> 'd ptp_node" where
  "rtc_read pio a s = (case ptp_rd pio a (eth_dev s) of (v, d) \<Rightarrow> (v, s\<lparr>eth_dev := d\<rparr>))"

definition rtc_write :: "'d ptp_if \<Rightarrow> u32 \<Rightarrow> u32 \<Rightarrow> 'd ptp_node \<Rightarrow> 'd ptp_node" where
  "rtc_write pio a v s = s\<lparr>eth_dev := ptp_wr pio a v (eth_dev s)\<rparr>"

section \<open>Messages as bytes\<close>

definition be_bytes :: "nat \<Rightarrow> u64 \<Rightarrow> u8 list" where
  "be_bytes n x = map (\<lambda>i. ucast (drop_bit (8 * (n - 1 - i)) x)) [0..<n]"

definition be_val :: "u8 list \<Rightarrow> u64" where
  "be_val bs = fold (\<lambda>b x. push_bit 8 x OR ucast b) bs 0"

definition msg_bytes :: "PTPv2Msg \<Rightarrow> u8 list" where
  "msg_bytes m =
     (let h = ptp_head m; b = ptp_body m in
      [transportSpec_msgType h, reserved_versionPTP h] @ be_bytes 2 (ucast (messageLength h)) @ [domainNumber h, reserved1 h]
      @ be_bytes 2 (ucast (flagField h)) @ be_bytes 8 (correctionField h) @ be_bytes 4 (ucast (reserved2 h))
      @ take 8 (portIdentity h) @ be_bytes 2 (ucast (portId h)) @ be_bytes 2 (ucast (sequenceId h)) @ [controlField h, logMessageInterval h]
      @ [0, 0] @ be_bytes 4 (ucast (seconds b)) @ be_bytes 4 (ucast (nanoseconds b)) @ take 8 (requestingSourcePort b)
      @ be_bytes 2 (ucast (requestingSourceId b)) @ [0, 0])"

definition field :: "u8 list \<Rightarrow> nat \<Rightarrow> nat \<Rightarrow> u64" where
  "field bs i n = be_val (take n (drop i bs))"

definition bytes_msg :: "u8 list \<Rightarrow> PTPv2Msg" where
  "bytes_msg bs =
     \<lparr>ptp_head = \<lparr>transportSpec_msgType = bs ! 0, reserved_versionPTP = bs ! 1, messageLength = ucast (field bs 2 2), domainNumber = bs ! 4,
        reserved1 = bs ! 5, flagField = ucast (field bs 6 2), correctionField = field bs 8 8, reserved2 = ucast (field bs 16 4),
        portIdentity = take 8 (drop 20 bs), portId = ucast (field bs 28 2), sequenceId = ucast (field bs 30 2), controlField = bs ! 32,
        logMessageInterval = bs ! 33\<rparr>,
      ptp_body = \<lparr>seconds = ucast (field bs 36 4), nanoseconds = ucast (field bs 40 4), requestingSourcePort = take 8 (drop 44 bs),
        requestingSourceId = ucast (field bs 52 2)\<rparr>\<rparr>"

text \<open>\<open>udp_get_data\<close> into the structure: the bytes received replace the first bytes of the message.\<close>

definition overlay :: "u8 list \<Rightarrow> PTPv2Msg \<Rightarrow> PTPv2Msg option" where
  "overlay bs m = (if length bs \<le> 56 then Some (bytes_msg (bs @ drop (length bs) (msg_bytes m))) else None)"

text \<open>The bytes of a message determine it.\<close>

lemma be_val_snoc: "be_val (bs @ [b]) = push_bit 8 (be_val bs) OR ucast b"
  by (simp add: be_val_def)

lemma be_bytes_Suc: "be_bytes (Suc n) x = be_bytes n (drop_bit 8 x) @ [ucast x]"
  by (simp add: be_bytes_def drop_bit_drop_bit Suc_diff_Suc algebra_simps)

lemma be_val_bytes: "be_val (be_bytes n x) = take_bit (8 * n) x"
proof (induction n arbitrary: x)
  case 0
  then show ?case by (simp add: be_bytes_def be_val_def)
next
  case (Suc n)
  have "push_bit 8 (take_bit (8 * n) (drop_bit 8 x)) OR ucast (ucast x :: u8) = take_bit (8 * Suc n) x"
    by (rule bit_word_eqI) (auto simp: bit_simps)
  then show ?case by (simp only: be_bytes_Suc be_val_snoc Suc)
qed

lemma length_be_bytes [simp]: "length (be_bytes n x) = n"
  by (simp add: be_bytes_def)

lemma ucast_take_bit: "ucast (take_bit 16 (ucast (w :: u16) :: u64)) = w" "ucast (take_bit 32 (ucast (v :: u32) :: u64)) = v"
    "take_bit 64 (u :: u64) = u"
  by (rule bit_word_eqI, simp add: bit_simps)+

lemma bytes_msg_bytes:
  assumes "length (portIdentity (ptp_head m)) = 8" "length (requestingSourcePort (ptp_body m)) = 8"
  shows "bytes_msg (msg_bytes m) = m"
  by (cases m; cases "ptp_head m"; cases "ptp_body m")
    (use assms in \<open>simp add: bytes_msg_def msg_bytes_def field_def Let_def nth_append be_val_bytes ucast_take_bit\<close>)

section \<open>The protocol\<close>

definition ptpv2_intialize_local_port :: "u32 \<Rightarrow> int \<Rightarrow> u8 list \<Rightarrow> u8 list \<Rightarrow> u16 \<Rightarrow> int \<Rightarrow> PTPPortInfo" where
  "ptpv2_intialize_local_port base role mac ip num syncPeriod =
     \<lparr>eth_base = base, port_ip = [ip ! 0, ip ! 1, ip ! 2, ip ! 3], port_mac = [mac ! 0, mac ! 1, mac ! 2, mac ! 3, mac ! 4, mac ! 5],
      clockId = [mac ! 0, mac ! 1, mac ! 2, 0xff, 0xfe, mac ! 3, mac ! 4, mac ! 5], port_num = num, portRole = word_of_int role,
      syncInterval = word_of_int syncPeriod\<rparr>"

text \<open>C division by two of a signed number rounds towards zero.\<close>

definition half :: "u32 \<Rightarrow> u32" where
  "half x = word_of_int (if sint x < 0 then - (- sint x div 2) else sint x div 2)"

definition ptp_calc_offset :: "u32 \<Rightarrow> u32 \<Rightarrow> u32 \<Rightarrow> u32" where
  "ptp_calc_offset t1 t2 delay = t2 - t1 - delay"

definition ptp_calc_delay :: "u32 \<Rightarrow> u32 \<Rightarrow> u32 \<Rightarrow> u32 \<Rightarrow> u32" where
  "ptp_calc_delay t1 t2 t3 t4 = half (t2 - t1 + t4 - t3)"

definition ptp_correct_offset :: "'d ptp_if \<Rightarrow> PTPPortInfo \<Rightarrow> 'd ptp_node \<Rightarrow> 'd ptp_node" where
  "ptp_correct_offset pio port s =
     (let base = eth_base port; os = offsetSeconds (ptpTimeRecord s); on = offsetNanoseconds (ptpTimeRecord s) in
      if os \<noteq> 0
      then let (sec, s) = rtc_read pio (RTC_TIME_SEC base) s;
               s = rtc_write pio (RTC_TIME_SEC base) (- os + sec) s;
               (ns, s) = rtc_read pio (RTC_TIME_NS base) s
           in rtc_write pio (RTC_TIME_NS base) (- on + WCET_COMPENSATION + ns) s
      else if sint (if sint on < 0 then - on else on) > PTP_NS_OFFSET_THRESHOLD
      then let (ns, s) = rtc_read pio (RTC_TIME_NS base) s
           in rtc_write pio (RTC_TIME_NS base) (- on + WCET_COMPENSATION + ns) s
      else rtc_write pio (RTC_ADJUST_OFFSET base) on s)"

definition upd_head :: "(PTPv2MsgHeader \<Rightarrow> PTPv2MsgHeader) \<Rightarrow> 'd ptp_node \<Rightarrow> 'd ptp_node" where
  "upd_head f s = s\<lparr>txPTPMsg := (txPTPMsg s)\<lparr>ptp_head := f (ptp_head (txPTPMsg s))\<rparr>\<rparr>"

definition upd_body :: "(PTPMsgBody \<Rightarrow> PTPMsgBody) \<Rightarrow> 'd ptp_node \<Rightarrow> 'd ptp_node" where
  "upd_body f s = s\<lparr>txPTPMsg := (txPTPMsg s)\<lparr>ptp_body := f (ptp_body (txPTPMsg s))\<rparr>\<rparr>"

definition upd_time :: "(PTPv2TimeRecord \<Rightarrow> PTPv2TimeRecord) \<Rightarrow> 'd ptp_node \<Rightarrow> 'd ptp_node" where
  "upd_time f s = s\<lparr>ptpTimeRecord := f (ptpTimeRecord s)\<rparr>"

definition send_msg :: "'d eth_if \<Rightarrow> u32 \<Rightarrow> u32 \<Rightarrow> u8 list \<Rightarrow> u8 list \<Rightarrow> u16 \<Rightarrow> u16 \<Rightarrow> 'd ptp_node \<Rightarrow> 'd ptp_node option" where
  "send_msg io tx_addr rx_addr dmac dip port len s =
     do { (_, s) \<leftarrow> udp_send_mac io tx_addr rx_addr dmac dip port port (msg_bytes (txPTPMsg s)) len 0 s; Some s }"

text \<open>The fields of the header that are the same for all messages.\<close>

definition fill_head :: "PTPPortInfo \<Rightarrow> u32 \<Rightarrow> u32 \<Rightarrow> PTPv2MsgHeader \<Rightarrow> PTPv2MsgHeader" where
  "fill_head port seqId msgType h =
     h\<lparr>sequenceId := ucast seqId, transportSpec_msgType := ucast msgType, reserved_versionPTP := 0x02,
       flagField := flagField h OR FLAG_PTP_TWO_STEP_MASK OR FLAG_PTP_UNICAST_MASK, correctionField := 0,
       portIdentity := map (\<lambda>i. clockId port ! i) [0..<8], portId := port_num port, logMessageInterval := syncInterval port\<rparr>"

text \<open>The bodies of \<open>Sync\<close> and \<open>Delay_Req\<close> carry the time at which they are built.\<close>

definition fill_now :: "'d ptp_if \<Rightarrow> PTPPortInfo \<Rightarrow> 'd ptp_node \<Rightarrow> 'd ptp_node" where
  "fill_now pio port s =
     (let (sec, s) = rtc_read pio (RTC_TIME_SEC (eth_base port)) s;
          s = upd_body (\<lambda>b. b\<lparr>seconds := sec\<rparr>) s;
          (ns, s) = rtc_read pio (RTC_TIME_NS (eth_base port)) s
      in upd_body (\<lambda>b. b\<lparr>nanoseconds := ns\<rparr>) s)"

definition tx_timestamp :: "'d ptp_if \<Rightarrow> PTPPortInfo \<Rightarrow> (u32 \<Rightarrow> u32 \<Rightarrow> PTPv2TimeRecord \<Rightarrow> PTPv2TimeRecord) \<Rightarrow> 'd ptp_node \<Rightarrow> 'd ptp_node" where
  "tx_timestamp pio port f s =
     (let (ns, s) = rtc_read pio (PTP_TXCHAN_TIMESTAMP_NS (eth_base port)) s;
          (sec, s) = rtc_read pio (PTP_TXCHAN_TIMESTAMP_SEC (eth_base port)) s;
          s = upd_time (f sec ns) s
      in rtc_write pio (PTP_TXCHAN_STATUS (eth_base port)) 0x1 s)"

definition ptpv2_issue_msg ::
    "'d eth_if \<Rightarrow> 'd ptp_if \<Rightarrow> PTPPortInfo \<Rightarrow> u32 \<Rightarrow> u32 \<Rightarrow> u8 list \<Rightarrow> u8 list \<Rightarrow> u32 \<Rightarrow> u32 \<Rightarrow> 'd ptp_node \<Rightarrow> (int \<times> 'd ptp_node) option" where
  "ptpv2_issue_msg io pio port tx_addr rx_addr dmac dip seqId msgType s =
     (let s = upd_head (fill_head port seqId msgType) s in
      do {
        s \<leftarrow>
          (if msgType = 0x00 then
             send_msg io tx_addr rx_addr dmac dip PTP_EVENT_PORT 44
               (fill_now pio port (upd_head (\<lambda>h. h\<lparr>messageLength := 44, controlField := 0x0\<rparr>) s))
           else if msgType = 0x08 then
             send_msg io tx_addr rx_addr dmac dip PTP_GENERAL_PORT 44
               (upd_body (\<lambda>b. b\<lparr>seconds := t1Seconds (ptpTimeRecord s), nanoseconds := t1Nanoseconds (ptpTimeRecord s)\<rparr>)
                 (upd_head (\<lambda>h. h\<lparr>messageLength := 44, controlField := 0x2\<rparr>) s))
           else if msgType = 0x01 then
             send_msg io tx_addr rx_addr dmac dip PTP_EVENT_PORT 44
               (fill_now pio port (upd_head (\<lambda>h. h\<lparr>messageLength := 44, controlField := 0x1\<rparr>) s))
           else if msgType = 0x09 then
             send_msg io tx_addr rx_addr dmac dip PTP_GENERAL_PORT 54
               (upd_body (\<lambda>b. b\<lparr>requestingSourcePort := portIdentity (ptp_head (rxPTPMsg s)), requestingSourceId := portId (ptp_head (rxPTPMsg s)),
                    seconds := t4Seconds (ptpTimeRecord s), nanoseconds := t4Nanoseconds (ptpTimeRecord s)\<rparr>)
                 (upd_head (\<lambda>h. h\<lparr>messageLength := 54, controlField := 0x3\<rparr>) s))
           else Some s);
        let s = (if msgType = 0x00 then tx_timestamp pio port (\<lambda>sec ns r. r\<lparr>t1Nanoseconds := ns, t1Seconds := sec\<rparr>) s
                 else if msgType = 0x01 then tx_timestamp pio port (\<lambda>sec ns r. r\<lparr>t3Nanoseconds := ns, t3Seconds := sec\<rparr>) s
                 else s);
        Some (sint msgType, s)
      })"

text \<open>The computation of the delay reply, seconds and nanoseconds apart.\<close>

definition take_reply :: "PTPMsgBody \<Rightarrow> PTPv2TimeRecord \<Rightarrow> PTPv2TimeRecord" where
  "take_reply b r =
     (let r = r\<lparr>t4Nanoseconds := nanoseconds b, t4Seconds := seconds b\<rparr>;
          r = r\<lparr>delayNanoseconds := ptp_calc_delay (t1Nanoseconds r) (t2Nanoseconds r) (t3Nanoseconds r) (t4Nanoseconds r)\<rparr>;
          r = r\<lparr>offsetNanoseconds := ptp_calc_offset (t1Nanoseconds r) (t2Nanoseconds r) (delayNanoseconds r)\<rparr>;
          r = r\<lparr>delaySeconds := ptp_calc_delay (t1Seconds r) (t2Seconds r) (t3Seconds r) (t4Seconds r)\<rparr>
      in r\<lparr>offsetSeconds := ptp_calc_offset (t1Seconds r) (t2Seconds r) (delaySeconds r)\<rparr>)"

definition set_peer :: "u8 list \<Rightarrow> u8 list \<Rightarrow> PTPPortInfo \<Rightarrow> PTPPortInfo" where
  "set_peer ip mac p = p\<lparr>port_ip := [ip ! 0, ip ! 1, ip ! 2, ip ! 3], port_mac := [mac ! 0, mac ! 1, mac ! 2, mac ! 3, mac ! 4, mac ! 5]\<rparr>"

definition ptpv2_handle_msg ::
    "'d ptp_if \<Rightarrow> PTPPortInfo \<Rightarrow> u32 \<Rightarrow> u32 \<Rightarrow> u8 list \<Rightarrow> 'd ptp_node \<Rightarrow> (int \<times> 'd ptp_node) option" where
  "ptpv2_handle_msg pio port tx_addr rx_addr source_mac s =
     (let (timestampNanoseconds, s) = rtc_read pio (PTP_RXCHAN_TIMESTAMP_NS (eth_base port)) s;
          (timestampSeconds, s) = rtc_read pio (PTP_RXCHAN_TIMESTAMP_SEC (eth_base port)) s;
          s = rtc_write pio (PTP_RXCHAN_STATUS (eth_base (thisPtpPortInfo s))) 0x1 s;
          source_ip = ipv4_get_source_ip (eth_buf s) rx_addr
      in do {
           msg \<leftarrow> overlay (udp_get_data (eth_buf s) rx_addr (ucast (udp_get_data_length (eth_buf s) rx_addr))) (rxPTPMsg s);
           let s = s\<lparr>rxPTPMsg := msg\<rparr>;
           let h = ptp_head msg;
           let b = ptp_body msg;
           let typ = transportSpec_msgType h;
           if typ = 0x00 then
             let s = upd_time (\<lambda>r. r\<lparr>t2Nanoseconds := timestampNanoseconds, t2Seconds := timestampSeconds, tr_syncInterval := logMessageInterval h\<rparr>) s
             in Some (PTP_SYNC_MSGTYPE,
                  if flagField h AND FLAG_PTP_TWO_STEP_MASK \<noteq> FLAG_PTP_TWO_STEP_MASK
                  then upd_time (\<lambda>r. r\<lparr>t1Nanoseconds := nanoseconds b, t1Seconds := seconds b\<rparr>)
                         (s\<lparr>lastMasterInfo := set_peer source_ip source_mac (lastMasterInfo s)\<rparr>)
                  else s)
           else if typ = 0x08 then
             Some (PTP_FOLLOW_MSGTYPE,
               (upd_time (\<lambda>r. r\<lparr>t1Nanoseconds := nanoseconds b, t1Seconds := seconds b\<rparr>) s)
                 \<lparr>lastMasterInfo := set_peer source_ip source_mac (lastMasterInfo s)\<rparr>)
           else if typ = 0x01 then
             Some (PTP_DLYREQ_MSGTYPE,
               (upd_time (\<lambda>r. r\<lparr>t4Nanoseconds := timestampNanoseconds, t4Seconds := timestampSeconds\<rparr>) s)
                 \<lparr>lastSlaveInfo := set_peer source_ip source_mac (lastSlaveInfo s)\<rparr>)
           else if typ = 0x09 then
             Some (PTP_DLYRPLY_MSGTYPE, ptp_correct_offset pio port (upd_time (take_reply b) s))
           else Some (-5, s)
         })"

definition ptpv2_process_received ::
    "'d eth_if \<Rightarrow> 'd ptp_if \<Rightarrow> PTPPortInfo \<Rightarrow> u32 \<Rightarrow> u32 \<Rightarrow> 'd ptp_node \<Rightarrow> (int \<times> 'd ptp_node) option" where
  "ptpv2_process_received io pio port tx_addr rx_addr s =
     (if portRole port = 0 then
        do {
          (msgType, s) \<leftarrow> ptpv2_handle_msg pio (thisPtpPortInfo s) tx_addr rx_addr PTP_BROADCAST_MAC s;
          if msgType = PTP_DLYREQ_MSGTYPE
          then do {
            (_, s) \<leftarrow> ptpv2_issue_msg io pio (thisPtpPortInfo s) tx_addr rx_addr PTP_BROADCAST_MAC (port_ip (lastSlaveInfo s))
                        (ucast (sequenceId (ptp_head (rxPTPMsg s)))) 0x09 s;
            Some (msgType, s)
          }
          else Some (msgType, s)
        }
      else if portRole port = 1 then
        do {
          (msgType, s) \<leftarrow> ptpv2_handle_msg pio (thisPtpPortInfo s) tx_addr rx_addr PTP_BROADCAST_MAC s;
          if msgType = PTP_SYNC_MSGTYPE \<and> flagField (ptp_head (rxPTPMsg s)) AND FLAG_PTP_TWO_STEP_MASK \<noteq> FLAG_PTP_TWO_STEP_MASK
             \<or> msgType = PTP_FOLLOW_MSGTYPE
          then do {
            (_, s) \<leftarrow> ptpv2_issue_msg io pio (thisPtpPortInfo s) tx_addr rx_addr PTP_BROADCAST_MAC (port_ip (lastMasterInfo s))
                        (ucast (sequenceId (ptp_head (rxPTPMsg s)))) 0x01 s;
            Some (msgType, s)
          }
          else Some (msgType, s)
        }
      else Some (-1, s))"

section \<open>Helpers\<close>

definition ptp_filter_clockport :: "u8 list \<Rightarrow> u16 \<Rightarrow> u8 list \<Rightarrow> u16 \<Rightarrow> bool" where
  "ptp_filter_clockport sourceId sourcePortId matchId matchPortId \<longleftrightarrow>
     list_all (\<lambda>i. sourceId ! i = matchId ! i) [0..<8] \<and> sourcePortId = matchPortId"

definition get_ptp_nanos :: "'d ptp_if \<Rightarrow> u32 \<Rightarrow> 'd ptp_node \<Rightarrow> u64 \<times> 'd ptp_node" where
  "get_ptp_nanos pio base s =
     (let (sec, s) = rtc_read pio (RTC_TIME_SEC base) s; (ns, s) = rtc_read pio (RTC_TIME_NS base) s
      in (1000000000 * ucast sec + ucast ns, s))"

definition get_ptp_secs :: "'d ptp_if \<Rightarrow> u32 \<Rightarrow> 'd ptp_node \<Rightarrow> u32 \<times> 'd ptp_node" where
  "get_ptp_secs pio base s = rtc_read pio (RTC_TIME_SEC base) s"

definition get_rx_timestamp_nanos :: "'d ptp_if \<Rightarrow> u32 \<Rightarrow> 'd ptp_node \<Rightarrow> u64 \<times> 'd ptp_node" where
  "get_rx_timestamp_nanos pio base s =
     (let (sec, s) = rtc_read pio (PTP_RXCHAN_TIMESTAMP_SEC base) s; (ns, s) = rtc_read pio (PTP_RXCHAN_TIMESTAMP_NS base) s
      in (1000000000 * ucast sec + ucast ns, s))"

definition get_tx_timestamp_nanos :: "'d ptp_if \<Rightarrow> u32 \<Rightarrow> 'd ptp_node \<Rightarrow> u64 \<times> 'd ptp_node" where
  "get_tx_timestamp_nanos pio base s =
     (let (sec, s) = rtc_read pio (PTP_TXCHAN_TIMESTAMP_SEC base) s; (ns, s) = rtc_read pio (PTP_TXCHAN_TIMESTAMP_NS base) s
      in (1000000000 * ucast sec + ucast ns, s))"

text \<open>The factor \<open>(unsigned long long) 0.001\<close> of the nanoseconds is 0.\<close>

definition get_rx_timestamp_usecs :: "'d ptp_if \<Rightarrow> u32 \<Rightarrow> 'd ptp_node \<Rightarrow> u64 \<times> 'd ptp_node" where
  "get_rx_timestamp_usecs pio base s =
     (let (sec, s) = rtc_read pio (PTP_RXCHAN_TIMESTAMP_SEC base) s; (ns, s) = rtc_read pio (PTP_RXCHAN_TIMESTAMP_NS base) s
      in (1000000 * ucast sec + 0 * ucast ns, s))"

definition get_tx_timestamp_usecs :: "'d ptp_if \<Rightarrow> u32 \<Rightarrow> 'd ptp_node \<Rightarrow> u64 \<times> 'd ptp_node" where
  "get_tx_timestamp_usecs pio base s =
     (let (sec, s) = rtc_read pio (PTP_TXCHAN_TIMESTAMP_SEC base) s; (ns, s) = rtc_read pio (PTP_TXCHAN_TIMESTAMP_NS base) s
      in (1000000 * ucast sec + 0 * ucast ns, s))"

section \<open>The offset of the clocks\<close>

definition time_of :: "u32 \<Rightarrow> u32 \<Rightarrow> int" where
  "time_of sec ns = uint sec * 1000000000 + uint ns"

definition quot2 :: "int \<Rightarrow> int" where
  "quot2 k = (if k < 0 then - (- k div 2) else k div 2)"

lemma sint_u32: "- (2147483648) \<le> k \<Longrightarrow> k < 2147483648 \<Longrightarrow> sint (word_of_int k :: u32) = k"
  by (simp add: signed_of_int signed_take_bit_int_eq_self)

lemma quot2_bounds: "\<bar>quot2 k\<bar> \<le> \<bar>k\<bar>" "even k \<Longrightarrow> 2 * quot2 k = k" "k - 2 * quot2 k = sgn k * (\<bar>k\<bar> mod 2)"
proof -
  have "2 * (- k div 2) = - k - (- k mod 2)" "2 * (k div 2) = k - k mod 2" by (simp_all add: minus_mod_eq_mult_div [symmetric])
  then show "k - 2 * quot2 k = sgn k * (\<bar>k\<bar> mod 2)" by (auto simp: quot2_def sgn_if)
  show "\<bar>quot2 k\<bar> \<le> \<bar>k\<bar>" by (auto simp: quot2_def)
  show "even k \<Longrightarrow> 2 * quot2 k = k" by (auto simp: quot2_def)
qed

lemma half_word: "- (2147483648) \<le> k \<Longrightarrow> k < 2147483648 \<Longrightarrow> half (word_of_int k) = word_of_int (quot2 k)"
  by (simp only: half_def sint_u32 quot2_def)

lemma calc_words:
  fixes a b c d :: u32
  assumes "\<bar>uint b - uint a\<bar> < 1073741824" "\<bar>uint d - uint c\<bar> < 1073741824"
  defines "k \<equiv> uint b - uint a + (uint d - uint c)"
  shows "ptp_calc_delay a b c d = word_of_int (quot2 k)"
    "sint (ptp_calc_offset a b (ptp_calc_delay a b c d)) = uint b - uint a - quot2 k"
proof -
  have k: "\<bar>k\<bar> < 2147483648" using assms(1,2) unfolding k_def by linarith
  have "b - a + d - c = word_of_int k" by (simp add: k_def)
  then show d: "ptp_calc_delay a b c d = word_of_int (quot2 k)"
    unfolding ptp_calc_delay_def using half_word [of k] k by (simp only: abs_less_iff) simp
  have "\<bar>quot2 k\<bar> \<le> 1073741824"
  proof -
    have "\<bar>k - 2 * quot2 k\<bar> \<le> 1" unfolding quot2_bounds(3) by (auto simp: abs_mult sgn_if)
    then show ?thesis using k by linarith
  qed
  then have b: "- (2147483648) \<le> uint b - uint a - quot2 k" "uint b - uint a - quot2 k < 2147483648" using assms(1) by linarith+
  have "ptp_calc_offset a b (ptp_calc_delay a b c d) = word_of_int (uint b - uint a - quot2 k)"
    unfolding ptp_calc_offset_def d by simp
  then show "sint (ptp_calc_offset a b (ptp_calc_delay a b c d)) = uint b - uint a - quot2 k"
    using sint_u32 [OF b] by simp
qed

lemma rtc_time_record [simp]:
  "ptpTimeRecord (rtc_write pio a v s) = ptpTimeRecord s" "ptpTimeRecord (snd (rtc_read pio a s)) = ptpTimeRecord s"
  by (simp_all add: rtc_write_def rtc_read_def split: prod.split)

lemma ptp_correct_offset_record [simp]: "ptpTimeRecord (ptp_correct_offset pio port s) = ptpTimeRecord s"
  by (simp add: ptp_correct_offset_def rtc_read_def rtc_write_def Let_def split: prod.split)

lemma nanos_bound: "uint (x :: u32) < 1000000000 \<Longrightarrow> uint (y :: u32) < 1000000000 \<Longrightarrow> \<bar>uint x - uint y\<bar> < 1073741824"
  using uint_nonnegative [of x] uint_nonnegative [of y] by linarith

text \<open>
  C22. The offset a slave computes. Let the four time stamps come from a master and a slave whose clock is \<open>theta\<close> nanoseconds ahead, with the same delay
  \<open>d\<close> in both directions. After the delay reply, the offset in the time record is \<open>theta\<close>, except when the numbers of second boundaries between
  the two pairs of stamps have an odd sum: seconds and nanoseconds are halved apart, and the offset is then half a second off.
\<close>

theorem ptp_offset_computed:
  assumes run: "ptpv2_handle_msg pio port tx_addr rx_addr source_mac s = Some (PTP_DLYRPLY_MSGTYPE, s')"
    and r: "r = ptpTimeRecord s'"
    and clocks: "time_of (t2Seconds r) (t2Nanoseconds r) = time_of (t1Seconds r) (t1Nanoseconds r) + d + theta"
      "time_of (t4Seconds r) (t4Nanoseconds r) = time_of (t3Seconds r) (t3Nanoseconds r) + d - theta"
    and ns: "list_all (\<lambda>n. uint n < 1000000000) [t1Nanoseconds r, t2Nanoseconds r, t3Nanoseconds r, t4Nanoseconds r]"
    and sec: "\<bar>uint (t2Seconds r) - uint (t1Seconds r)\<bar> < 1073741824" "\<bar>uint (t4Seconds r) - uint (t3Seconds r)\<bar> < 1073741824"
    and k: "k = uint (t2Seconds r) - uint (t1Seconds r) + (uint (t4Seconds r) - uint (t3Seconds r))"
  shows "sint (offsetSeconds r) * 1000000000 + sint (offsetNanoseconds r) = theta + sgn k * (\<bar>k\<bar> mod 2) * 500000000"
proof -
  obtain b r0 where rr: "r = take_reply b r0"
    using run unfolding r ptpv2_handle_msg_def
    by (auto simp: Let_def upd_time_def split: prod.splits bind_splits if_splits)
  let ?N = "uint (t2Nanoseconds r) - uint (t1Nanoseconds r) + (uint (t4Nanoseconds r) - uint (t3Nanoseconds r))"
  have off: "offsetSeconds r = ptp_calc_offset (t1Seconds r) (t2Seconds r) (ptp_calc_delay (t1Seconds r) (t2Seconds r) (t3Seconds r) (t4Seconds r))"
    "offsetNanoseconds r = ptp_calc_offset (t1Nanoseconds r) (t2Nanoseconds r) (ptp_calc_delay (t1Nanoseconds r) (t2Nanoseconds r) (t3Nanoseconds r) (t4Nanoseconds r))"
    unfolding rr by (simp_all add: take_reply_def Let_def)
  have S: "sint (offsetSeconds r) = uint (t2Seconds r) - uint (t1Seconds r) - quot2 k"
    unfolding off k by (rule calc_words(2) [OF sec])
  have N: "sint (offsetNanoseconds r) = uint (t2Nanoseconds r) - uint (t1Nanoseconds r) - quot2 ?N"
    unfolding off by (rule calc_words(2)) (use ns nanos_bound in auto)
  have "?N = 2 * (d - k * 500000000)" using clocks unfolding time_of_def k by algebra
  then have "quot2 ?N = d - k * 500000000" using quot2_bounds(2) [of ?N] by simp
  then show ?thesis
    using S N clocks(1) quot2_bounds(3) [of k] unfolding time_of_def k by (simp add: algebra_simps)
qed

text \<open>A delay reply with the time 11 s, 1000500 ns in the packet buffer, and a slave that has the other three stamps.\<close>

definition reply_buf :: ethbuf where
  "reply_buf i = (if i = 9 then 0x0140003E else if i = 10 then 0x00000902 else if i = 20 then 0x000B000F else if i = 21 then 0x44340000 else 0)"

definition no_msg :: PTPv2Msg where
  "no_msg = bytes_msg (replicate 56 0)"

definition no_port :: PTPPortInfo where
  "no_port = ptpv2_intialize_local_port 0 1 (replicate 6 0) (replicate 4 0) 1 0"

definition demo_ptp :: "unit ptp_node" where
  "demo_ptp = \<lparr>eth_dev = (), eth_buf = reply_buf, my_mac = replicate 6 0, my_ip = replicate 4 0, arp_table = [], ipv4_id = 0,
     txPTPMsg = no_msg, rxPTPMsg = no_msg,
     ptpTimeRecord = \<lparr>tr_syncInterval = 0, offsetSeconds = 0, offsetNanoseconds = 0, t1Seconds = 10, t1Nanoseconds = 999999000, t2Seconds = 11,
       t2Nanoseconds = 500, delaySeconds = 0, delayNanoseconds = 0, t3Seconds = 11, t3Nanoseconds = 1000000, t4Seconds = 0, t4Nanoseconds = 0\<rparr>,
     thisPtpPortInfo = no_port, lastMasterInfo = no_port, lastSlaveInfo = no_port\<rparr>"

definition quiet_pio :: "unit ptp_if" where
  "quiet_pio = \<lparr>ptp_rd = \<lambda>_. Pair 0, ptp_wr = \<lambda>_ _ d. d\<rparr>"

lemma demo_ptp_run:
  "map_option (\<lambda>(m, s). (m, t1Seconds (ptpTimeRecord s), t1Nanoseconds (ptpTimeRecord s), t2Seconds (ptpTimeRecord s), t2Nanoseconds (ptpTimeRecord s),
      t3Seconds (ptpTimeRecord s), t3Nanoseconds (ptpTimeRecord s), t4Seconds (ptpTimeRecord s), t4Nanoseconds (ptpTimeRecord s)))
    (ptpv2_handle_msg quiet_pio no_port 0x800 0 PTP_BROADCAST_MAC demo_ptp)
   = Some (9, 10, 999999000, 11, 500, 11, 1000000, 11, 1000500)"
  by code_simp

theorem ptp_offset_computed_witness:
  "\<exists>s'. ptpv2_handle_msg quiet_pio no_port 0x800 0 PTP_BROADCAST_MAC demo_ptp = Some (PTP_DLYRPLY_MSGTYPE, s')
     \<and> sint (offsetSeconds (ptpTimeRecord s')) * 1000000000 + sint (offsetNanoseconds (ptpTimeRecord s')) = 500 + 500000000"
proof -
  obtain s' where run: "ptpv2_handle_msg quiet_pio no_port 0x800 0 PTP_BROADCAST_MAC demo_ptp = Some (PTP_DLYRPLY_MSGTYPE, s')"
    and r: "t1Seconds (ptpTimeRecord s') = 10" "t1Nanoseconds (ptpTimeRecord s') = 999999000" "t2Seconds (ptpTimeRecord s') = 11"
      "t2Nanoseconds (ptpTimeRecord s') = 500" "t3Seconds (ptpTimeRecord s') = 11" "t3Nanoseconds (ptpTimeRecord s') = 1000000"
      "t4Seconds (ptpTimeRecord s') = 11" "t4Nanoseconds (ptpTimeRecord s') = 1000500"
    using demo_ptp_run by auto
  from ptp_offset_computed [OF run refl, of 1000 500] show ?thesis
    using run by (simp add: r time_of_def)
qed

end
