(* ===== verification/Spec2Isabelle.thy ===== *)
theory Spec2Isabelle
  imports Eth_TCP Stack_Cache Core_Set Ser_Roundtrip Boot_Main Mp_Sampling Eth_Links Eth_PTP
begin

text \<open>
  A verification library for the communication and boot software of the Patmos platform: the Ethernet stack
  (\<open>c/ethlib\<close>), the network-on-chip driver (\<open>c/libnoc\<close>) and the message passing library on top of it
  (\<open>c/libmp\<close>), the boot loader (\<open>c/bootloader\<close>) with the program that sends to it
  (\<open>tools/java/src/patserdow\<close>), and the simulator of the stack cache (\<open>tools/c/src/stacksim.c\<close>). All paths
  are below \<open>src\<close>.

  \<^bold>\<open>How the code is modelled.\<close> C integers are words of their width, so that overflow is part of the model; Java
  bytes too, and Java \<open>int\<close>s where they can overflow. A structure is a record, an enumeration a datatype.
  Memory that several functions work on (the packet buffer, the communication memories of the cores) is a
  function from word indices to words that is passed through. Hardware is a parameter: a record of functions
  on an abstract device state (\<open>eth_if\<close>, \<open>tte_if\<close>, \<open>ptp_if\<close>, \<open>noc_io\<close>, \<open>uart_if\<close>), and what a
  property needs of it is a hypothesis of that property. A loop that polls a device is a
  \<open>partial_function (option)\<close>; \<open>None\<close> is a loop that does not end, an access outside an array or, on the
  host, an exception. No model has fuel. Cores that run at the same time are step relations or
  functions on a common state, with one step for each access to shared memory; properties are about all
  interleavings.

  \<^bold>\<open>The theories.\<close>

  \<^item> \<open>Patmos_Prelude\<close>: words, bits, byte lanes, loops over lists, and the locale \<open>simulation\<close> (a step relation
    simulates another, with equal observations), which is interpreted for the stack cache and for both
    representations of core sets.
  \<^item> \<open>Eth_IO\<close> (\<open>eth_patmos_io.c\<close>): the packet buffer and the registers of both controllers. The locales
    \<open>byte_memory\<close> and \<open>byte_word_memory\<close> say what the protocol layers rely on: which bytes a byte or word write
    changes. Both packet buffers are instances.
  \<^item> \<open>Eth_Mac\<close> (\<open>eth_mac_driver.c\<close>, \<open>mac.c\<close>): sending, receiving with and without a timeout, descriptors, PHY. A
    receive with a timeout returns; the tests for a free descriptor are ineffective.
  \<^item> \<open>Eth_IPv4\<close>, \<open>Eth_ICMP\<close>, \<open>Eth_ARP\<close>, \<open>Eth_UDP\<close>, \<open>Eth_TCP\<close> (\<open>ipv4.c\<close>, \<open>icmp.c\<close>, \<open>arp.c\<close>, \<open>udp.c\<close>, \<open>tcp.c\<close>):
    getters, checksums, frame construction and handlers. The lemmas show that a frame that is built parses back, when the
    checksums are right (the code adds the low byte of the field twice), that the ARP table is a map with
    eviction (locale \<open>address_map\<close>), and how the TCP state machine opens and closes a connection.
  \<^item> \<open>Eth_TTE\<close> (\<open>tte.c\<close>): synchronisation, the schedule of the virtual links, frames, queues and the clock
    interrupts. The computed schedule has every sending point once and in order; the locale \<open>fifo_queue\<close> is
    the contract of the queue of a link.
  \<^item> \<open>Eth_Links\<close> (\<open>tte_schedule_send\<close> and the clock interrupt of \<open>tte.c\<close>): the main program access by access with the
    interrupt between any two of them, and a controller that records the writes to its registers. What the
    controller is set to send is, link by link, what was scheduled, in order. The size of a frame is wrong
    when the interrupt comes between the writes of its address and of its size.
  \<^item> \<open>Eth_PTP\<close> (\<open>ptp1588.c\<close>): messages, their byte layout, time stamps, offset and its correction.
  \<^item> \<open>Core_Set\<close>, \<open>Noc_Driver\<close> (\<open>coreset.h\<close>, \<open>noc.c\<close>): sets of cores, DMA entries, sends, the memory size test.
  \<^item> \<open>Mp_Ports\<close>, \<open>Mp_Queue\<close>, \<open>Mp_Lock\<close>, \<open>Mp_Sampling\<close> (\<open>mp.c\<close>, \<open>queuing.c\<close>, \<open>lock.c\<close>, \<open>sampling.c\<close>, \<open>utils.c\<close>): ports and
    their connection; the queue of two cores over a network that delivers words one by one; the bakery
    lock; sampling ports. Queues are first-in first-out; the lock excludes, and a read sample is the newest one, as long as no
    ticket is the largest number (\<open>tickets_ok\<close>); a run beyond this bound breaks the lock.
  \<^item> \<open>Boot_Download\<close>, \<open>Boot_Image\<close> (\<open>download.c\<close>): the receiver byte by byte, and what it makes of a whole
    image. \<open>Ser_Transmit\<close> (\<open>Transmitter.java\<close>, \<open>Main.java\<close>): the sender, the equality of both checksums, and the
    download from end to end, for segments that are aligned to words, fit the address space and have
    lengths that fit an \<open>int\<close>.
  \<^item> \<open>Boot_Decompress\<close> (\<open>decompress.c\<close>), \<open>Pointer_Tree\<close>, \<open>Ser_Compress\<close> (\<open>CompressionOutputStream.java\<close>), \<open>Ser_Roundtrip\<close>: the
    compressed download. \<open>Pointer_Tree\<close> relates the child and parent arrays of the compressor to trees; with it
    the search trees stay intact, every loop ends and no index leaves its array. The decompressor returns every
    text that was compressed.
  \<^item> \<open>Boot_Main\<close> (\<open>bootloader.c\<close>): the start and the return of all cores, as interleaved steps.
  \<^item> \<open>Stack_Cache\<close> (\<open>stacksim.c\<close>): the simulator; a program sees through the cache what it would see on a plain
    stack.

  \<^bold>\<open>Granularity.\<close> In \<open>Mp_Queue\<close> an operation of a core on its descriptor is one step, between words of
  the network; in \<open>Mp_Lock\<close>, \<open>Mp_Sampling\<close>, \<open>Boot_Main\<close> and \<open>Eth_Links\<close> a step is one access to shared memory, except that
  in \<open>Boot_Main\<close> the writes that clear a slave, and the two reads of the entry point, are one step each. Caches,
  delays and the order of independent accesses to one core's own memory are not visible.

  \<^bold>\<open>Not modelled.\<close> Output for debugging; \<open>get_ptp_usecs\<close>, which computes in floating point; the
  implementations of sampling ports other than the default; the Ethernet path of the boot loader
  (\<open>ethmac.c\<close>); argument parsing and ports on the host. \<open>libcorethread\<close>: the worker loop that answers
  it is not in the sources. \<open>librticap\<close>, \<open>libsd\<close>, \<open>libaudio\<close>: device sequences, a file system and signal processing apart
  from the communication software. \<open>elfloader.c\<close>, \<open>elf2bin.c\<close>: driven by libelf. Applications,
  demos, scripts, documents and the hardware descriptions.
\<close>

end
